(* ===== verification/Prelude.thy ===== *)
theory Prelude
  imports Main "HOL-Library.Word" "HOL-Library.Monad_Syntax"
begin

text \<open>
  Shared vocabulary of the development: the error values of
  \<^verbatim>\<open>include/tunproxy/result.hpp\<close> (a result is a sum, the failure on the left), the
  named collections the component theories feed, and generic facts on lists and options
  that more than one component uses.
\<close>

section \<open>Collections\<close>

named_theorems result_simps \<open>unfolding rules for results and error values\<close>
named_theorems text_simps \<open>equations of the text operations on concrete shapes\<close>
named_theorems wp_simps \<open>weakest preconditions of the primitive steps and the control flow\<close>

section \<open>Results\<close>

text \<open>\<^verbatim>\<open>enum class ErrorCode\<close>, in the order of the header.\<close>

datatype error_code =
    Generic
  | InvalidArguments
  | InsufficientPrivileges
  | InvalidConfiguration
  | UpstreamUnreachable
  | CoreVerificationFailure
  | CoreDownloadFailure
  | CoreStartFailure
  | StateError

fun error_num :: "error_code \<Rightarrow> nat" where
  "error_num Generic = 1"
| "error_num InvalidArguments = 2"
| "error_num InsufficientPrivileges = 3"
| "error_num InvalidConfiguration = 4"
| "error_num UpstreamUnreachable = 5"
| "error_num CoreVerificationFailure = 6"
| "error_num CoreDownloadFailure = 7"
| "error_num CoreStartFailure = 8"
| "error_num StateError = 9"

text \<open>The codes are ordered as their numbers, which is what the client compares.\<close>

lemma error_num_inject [simp]: "error_num a = error_num b \<longleftrightarrow> a = b"
  by (cases a; cases b) simp_all

instantiation error_code :: linorder
begin
definition less_eq_error_code :: "error_code \<Rightarrow> error_code \<Rightarrow> bool" where
  "less_eq_error_code a b \<longleftrightarrow> error_num a \<le> error_num b"
definition less_error_code :: "error_code \<Rightarrow> error_code \<Rightarrow> bool" where
  "less_error_code a b \<longleftrightarrow> error_num a < error_num b"
instance
  by standard (auto simp: less_eq_error_code_def less_error_code_def)
end

record error =
  err_code :: error_code
  err_message :: string

type_synonym 'a result = "error + 'a"

definition makeError :: "error_code \<Rightarrow> string \<Rightarrow> error" where
  "makeError c m = \<lparr>err_code = c, err_message = m\<rparr>"

abbreviation failure :: "error_code \<Rightarrow> string \<Rightarrow> 'a result" where
  "failure c m \<equiv> Inl (makeError c m)"

abbreviation success :: "'a \<Rightarrow> 'a result" where
  "success x \<equiv> Inr x"

definition ok :: "'a result \<Rightarrow> bool" where
  "ok r \<longleftrightarrow> (case r of Inl _ \<Rightarrow> False | Inr _ \<Rightarrow> True)"

lemma ok_simps [simp, result_simps]: "ok (Inr x)" "\<not> ok (Inl e)"
  by (simp_all add: ok_def)

lemma okE: "ok r \<Longrightarrow> (\<And>x. r = Inr x \<Longrightarrow> P) \<Longrightarrow> P"
  by (cases r) simp_all

lemma makeError_sel [simp, result_simps]:
  "err_code (makeError c m) = c" "err_message (makeError c m) = m"
  by (simp_all add: makeError_def)

lemma makeError_inject [simp]: "makeError c m = makeError c' m' \<longleftrightarrow> c = c' \<and> m = m'"
  by (simp add: makeError_def)

section \<open>Machine integers\<close>

type_synonym byte = "8 word"
type_synonym u16 = "16 word"
type_synonym u32 = "32 word"

lemma unat_of_nat_small: "n < 2 ^ LENGTH('a) \<Longrightarrow> unat (word_of_nat n :: 'a::len word) = n"
  by (simp add: unat_of_nat take_bit_nat_eq_self)

lemma word_of_nat_eq_0_small:
  "n < 2 ^ LENGTH('a) \<Longrightarrow> (word_of_nat n :: 'a::len word) = 0 \<longleftrightarrow> n = 0"
  using unat_of_nat_small [where 'a = 'a, of n] unat_eq_zero [of "word_of_nat n :: 'a word"]
  by metis

section \<open>Lists\<close>

lemma takeWhile_append_stop [simp]:
  "\<forall>x \<in> set xs. P x \<Longrightarrow> \<not> P y \<Longrightarrow> takeWhile P (xs @ y # ys) = xs"
  by (induction xs) auto

lemma dropWhile_append_stop [simp]:
  "\<forall>x \<in> set xs. P x \<Longrightarrow> \<not> P y \<Longrightarrow> dropWhile P (xs @ y # ys) = y # ys"
  by (induction xs) auto

lemma dropWhile_id: "xs = [] \<or> \<not> P (hd xs) \<Longrightarrow> dropWhile P xs = xs"
  by (cases xs) auto

lemma list_all_replicate [simp]: "list_all P (replicate n x) \<longleftrightarrow> n = 0 \<or> P x"
  by (cases n) (auto simp: list_all_iff)

end
