(* ===== verification/CxxString.thy ===== *)
theory CxxString
  imports Prelude
begin

text \<open>
  The text operations of the C++ standard library that the sources call, on \<open>string\<close> (a
  list of 8-bit characters, as \<^verbatim>\<open>std::string\<close> is): \<^verbatim>\<open>find\<close>, \<^verbatim>\<open>rfind\<close>,
  \<^verbatim>\<open>std::from_chars\<close>, decimal output, \<^verbatim>\<open>std::isspace\<close> in the C locale,
  \<^verbatim>\<open>std::getline\<close> and formatted extraction of words. \<open>npos\<close> is \<open>None\<close>.
\<close>

section \<open>Searching\<close>

fun find_char :: "char \<Rightarrow> string \<Rightarrow> nat option" where
  "find_char c [] = None"
| "find_char c (x # xs) = (if x = c then Some 0 else map_option Suc (find_char c xs))"

fun rfind_char :: "char \<Rightarrow> string \<Rightarrow> nat option" where
  "rfind_char c [] = None"
| "rfind_char c (x # xs) =
     (case rfind_char c xs of
        Some i \<Rightarrow> Some (Suc i)
      | None \<Rightarrow> if x = c then Some 0 else None)"

fun starts_with :: "string \<Rightarrow> string \<Rightarrow> bool" where
  "starts_with [] s = True"
| "starts_with (p # ps) [] = False"
| "starts_with (p # ps) (x # xs) = (p = x \<and> starts_with ps xs)"

fun find_str :: "string \<Rightarrow> string \<Rightarrow> nat option" where
  "find_str p [] = (if p = [] then Some 0 else None)"
| "find_str p (x # xs) =
     (if starts_with p (x # xs) then Some 0 else map_option Suc (find_str p xs))"

lemma find_char_None [simp]: "find_char c s = None \<longleftrightarrow> c \<notin> set s"
  by (induction s) auto

lemma rfind_char_None [simp]: "rfind_char c s = None \<longleftrightarrow> c \<notin> set s"
  by (induction s) (auto split: option.splits)

lemma find_char_split [text_simps]: "c \<notin> set a \<Longrightarrow> find_char c (a @ c # b) = Some (length a)"
  by (induction a) auto

lemma rfind_char_split [text_simps]: "c \<notin> set b \<Longrightarrow> rfind_char c (a @ c # b) = Some (length a)"
proof (induction a)
  case Nil
  then have "rfind_char c b = None" by simp
  then show ?case by (simp del: rfind_char_None)
next
  case (Cons x a)
  then show ?case by simp
qed

lemma find_charD:
  assumes "find_char c s = Some i"
  shows "i < length s \<and> s = take i s @ c # drop (Suc i) s \<and> c \<notin> set (take i s)"
  using assms
proof (induction s arbitrary: i)
  case Nil
  then show ?case by simp
next
  case (Cons x xs)
  show ?case
  proof (cases "x = c")
    case True
    with Cons.prems show ?thesis by simp
  next
    case False
    with Cons.prems obtain j where "find_char c xs = Some j" and [simp]: "i = Suc j" by auto
    with Cons.IH False show ?thesis by auto
  qed
qed

lemma rfind_charD:
  assumes "rfind_char c s = Some i"
  shows "i < length s \<and> s = take i s @ c # drop (Suc i) s \<and> c \<notin> set (drop (Suc i) s)"
  using assms
proof (induction s arbitrary: i)
  case Nil
  then show ?case by simp
next
  case (Cons x xs)
  show ?case
  proof (cases "rfind_char c xs")
    case None
    with Cons.prems show ?thesis by (auto split: if_splits)
  next
    case (Some j)
    with Cons.prems have [simp]: "i = Suc j" by simp
    from Cons.IH [OF Some] show ?thesis by simp
  qed
qed

lemma starts_with_iff: "starts_with p s \<longleftrightarrow> (\<exists>t. s = p @ t)"
  by (induction p s rule: starts_with.induct) auto

lemma starts_with_append [simp]: "starts_with p (p @ s)"
  by (auto simp: starts_with_iff)

text \<open>The first occurrence of \<open>p\<close> cannot start inside a prefix that avoids its first character.\<close>

lemma find_str_split [text_simps]:
  "c \<notin> set a \<Longrightarrow> find_str (c # p) (a @ c # p @ b) = Some (length a)"
proof (induction a)
  case Nil
  have "starts_with (c # p) (c # p @ b)" by (simp add: starts_with_iff)
  then show ?case by simp
next
  case (Cons x a)
  then have "\<not> starts_with (c # p) (x # a @ c # p @ b)" by auto
  with Cons show ?case by simp
qed

lemma find_str_bound: "find_str p s = Some i \<Longrightarrow> i + length p \<le> length s"
proof (induction s arbitrary: i)
  case Nil
  then show ?case by (auto split: if_splits)
next
  case (Cons x xs)
  show ?case
  proof (cases "starts_with p (x # xs)")
    case True
    then obtain t where "x # xs = p @ t" by (auto simp: starts_with_iff)
    then have "length p \<le> length (x # xs)" by (metis length_append le_add1)
    with True Cons.prems show ?thesis by simp
  next
    case False
    with Cons show ?thesis by auto
  qed
qed

section \<open>Decimal numbers\<close>

definition is_digit :: "char \<Rightarrow> bool" where
  "is_digit c \<longleftrightarrow> 48 \<le> (of_char c :: nat) \<and> (of_char c :: nat) \<le> 57"

definition digit_val :: "char \<Rightarrow> nat" where
  "digit_val c = of_char c - 48"

definition digit_char :: "nat \<Rightarrow> char" where
  "digit_char d = char_of (48 + d)"

fun show_nat :: "nat \<Rightarrow> string" where
  "show_nat n =
     (if n < 10 then [digit_char n] else show_nat (n div 10) @ [digit_char (n mod 10)])"

declare show_nat.simps [simp del]

definition show_int :: "int \<Rightarrow> string" where
  "show_int i = (if i < 0 then CHR ''-'' # show_nat (nat (- i)) else show_nat (nat i))"

definition digits_value :: "string \<Rightarrow> nat" where
  "digits_value ds = foldl (\<lambda>n c. 10 * n + digit_val c) 0 ds"

text \<open>
  \<^verbatim>\<open>std::from_chars\<close> in base ten: the longest run of digits, \<open>invalid_argument\<close> where
  there is none, \<open>result_out_of_range\<close> where the value does not fit; the string is what
  is left behind the pattern.
\<close>

datatype 'a from_chars_result =
    FcInvalid
  | FcRange string
  | FcOk 'a string

definition from_chars_unsigned :: "nat \<Rightarrow> string \<Rightarrow> nat from_chars_result" where
  "from_chars_unsigned largest s =
     (let ds = takeWhile is_digit s; rest = dropWhile is_digit s
      in if ds = [] then FcInvalid
         else if largest < digits_value ds then FcRange rest
         else FcOk (digits_value ds) rest)"

definition from_chars_signed :: "nat \<Rightarrow> string \<Rightarrow> int from_chars_result" where
  "from_chars_signed bits s =
     (let neg = (case s of [] \<Rightarrow> False | c # _ \<Rightarrow> c = CHR ''-'');
          body = (if neg then tl s else s);
          ds = takeWhile is_digit body; rest = dropWhile is_digit body
      in if ds = [] then FcInvalid
         else if neg then
           (if 2 ^ (bits - 1) < digits_value ds then FcRange rest
            else FcOk (- int (digits_value ds)) rest)
         else
           (if 2 ^ (bits - 1) \<le> digits_value ds then FcRange rest
            else FcOk (int (digits_value ds)) rest))"

lemma of_char_digit_char [simp]: "d < 10 \<Longrightarrow> (of_char (digit_char d) :: nat) = 48 + d"
  by (simp add: digit_char_def)

lemma digit_char_is_digit [simp]: "d < 10 \<Longrightarrow> is_digit (digit_char d)"
  by (simp add: is_digit_def)

lemma digit_val_digit_char [simp]: "d < 10 \<Longrightarrow> digit_val (digit_char d) = d"
  by (simp add: digit_val_def)

lemma show_nat_digits: "\<forall>c \<in> set (show_nat n). is_digit c"
proof (induction n rule: show_nat.induct)
  case (1 n)
  then show ?case by (subst show_nat.simps) auto
qed

lemma show_nat_digitD: "c \<in> set (show_nat n) \<Longrightarrow> is_digit c"
  using show_nat_digits by blast

lemma show_nat_not_Nil [simp]: "show_nat n \<noteq> []"
  by (subst show_nat.simps) simp

lemma digits_value_snoc: "digits_value (ds @ [c]) = 10 * digits_value ds + digit_val c"
  by (simp add: digits_value_def)

lemma digits_value_show_nat [simp]: "digits_value (show_nat n) = n"
proof (induction n rule: show_nat.induct)
  case (1 n)
  show ?case
  proof (cases "n < 10")
    case True
    then show ?thesis by (subst show_nat.simps) (simp add: digits_value_def)
  next
    case False
    with 1 have "digits_value (show_nat (n div 10)) = n div 10" by simp
    with False show ?thesis by (subst show_nat.simps) (simp add: digits_value_snoc)
  qed
qed

lemma show_nat_inject [simp]: "show_nat m = show_nat n \<longleftrightarrow> m = n"
  by (metis digits_value_show_nat)

lemma from_chars_show_nat [text_simps]:
  "n \<le> largest \<Longrightarrow> from_chars_unsigned largest (show_nat n) = FcOk n []"
  by (simp add: from_chars_unsigned_def takeWhile_eq_all_conv [THEN iffD2] show_nat_digits
      dropWhile_eq_Nil_conv [THEN iffD2])

lemma from_chars_unsigned_bound: "from_chars_unsigned largest s = FcOk n r \<Longrightarrow> n \<le> largest"
  by (auto simp: from_chars_unsigned_def Let_def split: if_splits)

lemma digit_not_special:
  "is_digit c \<Longrightarrow> c \<noteq> CHR '':'' \<and> c \<noteq> CHR ''/'' \<and> c \<noteq> CHR 0x0A \<and> c \<noteq> CHR '' '' \<and> c \<noteq> CHR ''-''
    \<and> c \<noteq> CHR ''='' \<and> c \<noteq> CHR '','' \<and> c \<noteq> CHR ''.'' \<and> c \<noteq> CHR 0x00 \<and> c \<noteq> CHR '')''"
  by (auto simp: is_digit_def)

lemma show_nat_avoids [simp]:
  "CHR '':'' \<notin> set (show_nat n)" "CHR ''/'' \<notin> set (show_nat n)" "CHR 0x0A \<notin> set (show_nat n)"
  "CHR '' '' \<notin> set (show_nat n)" "CHR ''='' \<notin> set (show_nat n)" "CHR '','' \<notin> set (show_nat n)"
  "CHR ''.'' \<notin> set (show_nat n)" "CHR ''-'' \<notin> set (show_nat n)" "CHR 0x00 \<notin> set (show_nat n)"
  "CHR '')'' \<notin> set (show_nat n)"
  using show_nat_digitD digit_not_special by blast+

lemma hd_show_nat: "is_digit (hd (show_nat n))"
  using show_nat_digitD [of "hd (show_nat n)" n] by simp

lemma from_chars_show_int [text_simps]:
  assumes "- (2 ^ (bits - 1)) \<le> i" and "i < 2 ^ (bits - 1)"
  shows "from_chars_signed bits (show_int i) = FcOk i []"
proof (cases "i < 0")
  case True
  have "nat (- i) \<le> 2 ^ (bits - 1)"
    using assms(1) by (simp add: nat_le_iff)
  with True show ?thesis
    by (simp add: from_chars_signed_def show_int_def takeWhile_eq_all_conv [THEN iffD2]
        show_nat_digits dropWhile_eq_Nil_conv [THEN iffD2] not_less)
next
  case False
  obtain c cs where cs: "show_nat (nat i) = c # cs" by (cases "show_nat (nat i)") auto
  then have "c \<noteq> CHR ''-''" using show_nat_avoids(8) [of "nat i"] by auto
  moreover have "nat i < 2 ^ (bits - 1)" using False assms(2) by (simp add: nat_less_iff)
  moreover have "digits_value (c # cs) = nat i" using digits_value_show_nat [of "nat i"] cs by simp
  moreover have "\<forall>x \<in> set (c # cs). is_digit x" using show_nat_digits [of "nat i"] cs by simp
  ultimately show ?thesis using False
    by (simp add: from_chars_signed_def show_int_def cs Let_def takeWhile_eq_all_conv [THEN iffD2]
        dropWhile_eq_Nil_conv [THEN iffD2] del: takeWhile.simps dropWhile.simps)
qed

section \<open>White space, lines and words\<close>

definition is_space :: "char \<Rightarrow> bool" where
  "is_space c \<longleftrightarrow> c \<in> {CHR '' '', CHR 0x09, CHR 0x0A, CHR 0x0B, CHR 0x0C, CHR 0x0D}"

lemma digit_not_space: "is_digit c \<Longrightarrow> \<not> is_space c"
  by (auto simp: is_digit_def is_space_def)

abbreviation nl :: char where
  "nl \<equiv> CHR 0x0A"

text \<open>
  The lines a \<^verbatim>\<open>while (std::getline(in, line))\<close> loop sees: a last line without a line
  feed counts, an empty rest does not.
\<close>

function getlines :: "string \<Rightarrow> string list" where
  "getlines s =
     (if s = [] then []
      else takeWhile (\<lambda>c. c \<noteq> nl) s # getlines (tl (dropWhile (\<lambda>c. c \<noteq> nl) s)))"
  by pat_completeness auto
termination
proof (relation "measure length", simp)
  fix s :: string
  assume "s \<noteq> []"
  moreover have "length (dropWhile (\<lambda>c. c \<noteq> nl) s) \<le> length s" by (rule length_dropWhile_le)
  ultimately have "length (dropWhile (\<lambda>c. c \<noteq> nl) s) - 1 < length s"
    using length_greater_0_conv [of s] by linarith
  then show "(tl (dropWhile (\<lambda>c. c \<noteq> nl) s), s) \<in> measure length"
    by simp
qed

declare getlines.simps [simp del]

lemma getlines_Nil [simp]: "getlines [] = []"
  by (simp add: getlines.simps)

lemma getlines_line [text_simps]: "nl \<notin> set l \<Longrightarrow> getlines (l @ nl # r) = l # getlines r"
proof -
  assume "nl \<notin> set l"
  then have "\<forall>c \<in> set l. c \<noteq> nl" by blast
  then show ?thesis by (subst getlines.simps) simp
qed

lemma getlines_no_nl: "l \<in> set (getlines s) \<Longrightarrow> nl \<notin> set l"
proof (induction s rule: getlines.induct)
  case (1 s)
  show ?case
  proof (cases "s = []")
    case False
    with "1.prems" have "l = takeWhile (\<lambda>c. c \<noteq> nl) s
        \<or> l \<in> set (getlines (tl (dropWhile (\<lambda>c. c \<noteq> nl) s)))"
      by (subst (asm) getlines.simps) simp
    then show ?thesis using False "1.IH" by (auto dest: set_takeWhileD)
  qed (use "1.prems" in simp)
qed

text \<open>\<^verbatim>\<open>in >> word\<close>, repeated: leading white space is skipped, a word ends at white space.\<close>

function words :: "string \<Rightarrow> string list" where
  "words s =
     (let t = dropWhile is_space s
      in if t = [] then []
         else takeWhile (\<lambda>c. \<not> is_space c) t # words (dropWhile (\<lambda>c. \<not> is_space c) t))"
  by pat_completeness auto
termination
proof (relation "measure length", simp)
  fix s t :: string
  assume t: "t = dropWhile is_space s" and ne: "t \<noteq> []"
  then have hd: "\<not> is_space (hd t)" by (metis hd_dropWhile)
  with ne obtain c cs where "t = c # cs" and "\<not> is_space c" by (cases t) auto
  then have "length (dropWhile (\<lambda>c. \<not> is_space c) t) < length t"
    by (simp add: length_dropWhile_le le_imp_less_Suc)
  also have "length t \<le> length s" unfolding t by (rule length_dropWhile_le)
  finally show "(dropWhile (\<lambda>c. \<not> is_space c) t, s) \<in> measure length" by simp
qed

declare words.simps [simp del]

definition c_str :: "string \<Rightarrow> string" where
  "c_str s = takeWhile (\<lambda>c. c \<noteq> CHR 0x00) s"

lemma c_str_id [simp]: "CHR 0x00 \<notin> set s \<Longrightarrow> c_str s = s"
proof -
  assume "CHR 0x00 \<notin> set s"
  then have "\<forall>c \<in> set s. c \<noteq> CHR 0x00" by blast
  then show ?thesis by (simp add: c_str_def takeWhile_eq_all_conv [THEN iffD2])
qed

section \<open>Joining and splitting at a separator\<close>

fun join :: "string \<Rightarrow> string list \<Rightarrow> string" where
  "join sep [] = []"
| "join sep [x] = x"
| "join sep (x # y # xs) = x @ sep @ join sep (y # xs)"

fun split_on :: "char \<Rightarrow> string \<Rightarrow> string list" where
  "split_on c [] = [[]]"
| "split_on c (x # xs) =
     (if x = c then [] # split_on c xs
      else (case split_on c xs of [] \<Rightarrow> [[x]] | g # gs \<Rightarrow> (x # g) # gs))"

lemma split_on_not_Nil [simp]: "split_on c s \<noteq> []"
  by (induction s) (auto split: list.splits)

lemma split_on_single: "c \<notin> set a \<Longrightarrow> split_on c a = [a]"
  by (induction a) auto

lemma split_on_append: "c \<notin> set a \<Longrightarrow> split_on c (a @ c # b) = a # split_on c b"
  by (induction a) auto

lemma split_on_join [text_simps]:
  "xs \<noteq> [] \<Longrightarrow> \<forall>x \<in> set xs. c \<notin> set x \<Longrightarrow> split_on c (join [c] xs) = xs"
  by (induction "[c]" xs rule: join.induct) (auto simp: split_on_single split_on_append)

lemma join_set: "set (join sep xs) \<subseteq> (\<Union>x \<in> set xs. set x) \<union> set sep"
  by (induction sep xs rule: join.induct) auto

end
