(* ===== verification/OsModel.thy ===== *)
theory OsModel
  imports CxxString
begin

text \<open>
  The operating system as the sources see it. Nothing is assumed about it: an \<open>os\<close> is any
  function that answers a call from the whole history of calls and answers so far, so every
  scheduling, every failure and every change made by another process between two calls is
  some \<open>os\<close>. A routine that makes calls takes the history and returns its value with
  the longer history, or \<open>None\<close> where it never returns (a loop that is interrupted for
  ever, a clock that stands still). What a proof needs from the system is a hypothesis on
  the \<open>os\<close>.

  Texts the C library produces (\<^verbatim>\<open>strerror\<close>, \<^verbatim>\<open>gai_strerror\<close>) and the address
  conversions \<^verbatim>\<open>inet_pton\<close> and \<^verbatim>\<open>inet_ntop\<close> are further components of the \<open>os\<close>.
\<close>

section \<open>Calls, answers and histories\<close>

datatype errno =
    E0 | EINTR | EAGAIN | ENOENT | EEXIST | ESRCH | EPERM | EACCES | ECHILD
  | EINPROGRESS | EINVAL | EOTHER nat

datatype file_kind = KReg | KDir | KLnk | KChr | KSock | KOther

datatype open_flag =
    O_RDONLY | O_WRONLY | O_RDWR | O_CREAT | O_EXCL | O_NOFOLLOW | O_APPEND | O_CLOEXEC
  | O_DIRECTORY

text \<open>\<^verbatim>\<open>enum class LogLevel\<close> of \<^verbatim>\<open>log.hpp\<close>.\<close>

datatype log_level = Info | Warning | Progress

fun log_num :: "log_level \<Rightarrow> nat" where
  "log_num Info = 0"
| "log_num Warning = 1"
| "log_num Progress = 2"

text \<open>What a forked child goes on to do: the code of the branch \<^verbatim>\<open>child == 0\<close>.\<close>

datatype child =
    Utility "string list"
  | Core string string string

text \<open>
  The address families and the entries of the list \<^verbatim>\<open>getifaddrs\<close> returns: the name, the
  \<^verbatim>\<open>IFF_UP\<close> flag, and family and raw bytes of the address where there is one.
\<close>

datatype family = AF_UNSPEC | AF_INET | AF_INET6 | AF_OTHER int

record ifaddr =
  ifa_name :: "string option"
  ifa_up :: bool
  ifa_addr :: "(family \<times> byte list) option"

text \<open>The address conversions of the C library.\<close>

record inet =
  pton4 :: "string \<Rightarrow> byte list option"
  pton6 :: "string \<Rightarrow> byte list option"
  ntop4 :: "byte list \<Rightarrow> string option"
  ntop6 :: "byte list \<Rightarrow> string option"

datatype lock_op = LockEx | LockExNb | LockUn

text \<open>
  An entry of the list \<^verbatim>\<open>getaddrinfo\<close> returns: family, socket type, protocol and the raw
  bytes of the address.
\<close>

record addrinfo =
  ai_family :: family
  ai_socktype :: int
  ai_protocol :: int
  ai_addr :: "byte list"

text \<open>
  Sockets, the user database, the daemon's surroundings, and what a forked child calls. What the
  threads of the daemon share (the operation mutex, the name of the active operation, the number
  of clients, the stop flag) is reached by calls as well, so another thread may change it between
  any two of them.
\<close>

datatype net_call =
    NSocketUnix
  | NSocket family int int
  | NConnectUnix int string
  | NConnect int "byte list"
  | NSockError int
  | NGetFlags int
  | NSetFlags int int bool
  | NRecvTimeout int nat
  | NSendTimeout int nat
  | NBind int string
  | NListen int nat
  | NAccept int
  | NPeerCred int
  | NGetAddrInfo string string
  | NPollOne int bool nat

datatype user_call =
    UGetGrNam string
  | UGetPwUid int
  | UGetGroupList string int nat

datatype env_call =
    EGetEnv string
  | EUnsetEnv string
  | EStatSocket int
  | ESockName int
  | ESetCloexec int
  | ESigaction int
  | EIgnorePipe
  | EUmask nat
  | EStderr string
  | EStdout string
  | EGetLine
  | EStopRequested
  | EThread int
  | EEnter
  | ELeave
  | ENotify
  | EAwaitClients
  | ETryLock
  | EUnlock
  | EGetActive
  | ESetActive string
  | EClearActive
  | ESetConnected bool

datatype child_call =
    KDup2 int int
  | KSetsid
  | KGetSecurebits
  | KSetSecurebits int
  | KClearAmbient
  | KClearCapabilities
  | KExecv string "string list"
  | KFexecve int "string list"
  | KExit int

datatype call =
    COpen string "open_flag list" nat
  | CClose int
  | CRead int nat
  | CWrite int string
  | CRecv int nat
  | CSend int string
  | CFchmod int nat
  | CFsync int
  | CRename string string
  | CUnlink string
  | CLstat string
  | CMkdir string nat
  | CChmod string nat
  | CReadFile string
  | CRemove string
  | CRemoveAll string
  | CReadSymlink string
  | CCanonical string
  | CSymlinkStatus string
  | CAbsolute string
  | CRandom
  | CPipe
  | CFork child
  | CPoll "int list" int
  | CNonBlock int
  | CKill int int
  | CWaitpid int bool
  | CNow
  | CSleep nat
  | CGeteuid
  | CGetpid
  | CIfIndex string
  | CGetIfAddrs
  | CMknod string nat nat
  | CFlock int lock_op
  | CLog log_level string
  | CListDir string
  | CExists string
  | CChown string int int
  | CNet net_call
  | CUser user_call
  | CEnv env_call
  | CChild child_call

record resp =
  r_ret :: int
  r_errno :: errno
  r_out :: string
  r_kind :: file_kind
  r_nums :: "int list"
  r_names :: "string list"
  r_addrs :: "addrinfo list"

type_synonym event = "call \<times> resp"

text \<open>Newest event first.\<close>

type_synonym hist = "event list"

record os =
  answer :: "hist \<Rightarrow> call \<Rightarrow> resp"
  strerror :: "errno \<Rightarrow> string"
  gai_strerror :: "int \<Rightarrow> string"
  interfaces :: "hist \<Rightarrow> ifaddr list"
  inet_of :: inet

type_synonym 'a run = "('a \<times> hist) option"

definition sys :: "os \<Rightarrow> call \<Rightarrow> hist \<Rightarrow> resp run" where
  "sys S c h = Some (answer S h c, (c, answer S h c) # h)"

text \<open>
  \<^verbatim>\<open>errno\<close> keeps the code of the last call that failed; calls that succeed leave it
  alone.
\<close>

definition cur_errno :: "hist \<Rightarrow> errno" where
  "cur_errno h =
     (case filter (\<lambda>(c, r). r_ret r < 0) h of [] \<Rightarrow> E0 | (c, r) # _ \<Rightarrow> r_errno r)"

lemma cur_errno_failed [simp]: "r_ret r < 0 \<Longrightarrow> cur_errno ((c, r) # h) = r_errno r"
  by (simp add: cur_errno_def)

lemma cur_errno_succeeded [simp]: "\<not> r_ret r < 0 \<Longrightarrow> cur_errno ((c, r) # h) = cur_errno h"
  by (simp add: cur_errno_def)

section \<open>Weakest preconditions\<close>

text \<open>
  \<open>wp m Q\<close>: if the run \<open>m\<close> returns, \<open>Q\<close> holds of its value and history. That it
  returns is a separate statement, \<open>returns m\<close>.
\<close>

definition wp :: "'a run \<Rightarrow> ('a \<Rightarrow> hist \<Rightarrow> bool) \<Rightarrow> bool" where
  "wp m Q \<longleftrightarrow> (case m of None \<Rightarrow> True | Some (r, h) \<Rightarrow> Q r h)"

definition returns :: "'a run \<Rightarrow> bool" where
  "returns m \<longleftrightarrow> m \<noteq> None"

text \<open>\<open>twp m Q\<close>: the run returns, and \<open>Q\<close> holds of its value and history.\<close>

definition twp :: "'a run \<Rightarrow> ('a \<Rightarrow> hist \<Rightarrow> bool) \<Rightarrow> bool" where
  "twp m Q \<longleftrightarrow> (case m of None \<Rightarrow> False | Some (r, h) \<Rightarrow> Q r h)"

lemma twpI: "returns m \<Longrightarrow> wp m Q \<Longrightarrow> twp m Q"
  by (auto simp: twp_def wp_def returns_def)

lemma twpD: "twp m Q \<Longrightarrow> \<exists>r h. m = Some (r, h) \<and> Q r h"
  by (auto simp: twp_def split: option.splits)

lemma wp_Some [wp_simps]: "wp (Some (r, h)) Q \<longleftrightarrow> Q r h"
  by (simp add: wp_def)

lemma wp_None [wp_simps]: "wp None Q"
  by (simp add: wp_def)

lemma wp_bind [wp_simps]:
  "wp (Option.bind m f) Q \<longleftrightarrow> wp m (\<lambda>r h. wp (f (r, h)) Q)"
  by (cases m) (auto simp: wp_def)

lemma wp_if [wp_simps]: "wp (if b then m else n) Q \<longleftrightarrow> (if b then wp m Q else wp n Q)"
  by simp

lemma wp_case_sum [wp_simps]:
  "wp (case x of Inl e \<Rightarrow> f e | Inr v \<Rightarrow> g v) Q
     \<longleftrightarrow> (case x of Inl e \<Rightarrow> wp (f e) Q | Inr v \<Rightarrow> wp (g v) Q)"
  by (cases x) simp_all

lemma wp_case_option [wp_simps]:
  "wp (case x of None \<Rightarrow> f | Some v \<Rightarrow> g v) Q
     \<longleftrightarrow> (case x of None \<Rightarrow> wp f Q | Some v \<Rightarrow> wp (g v) Q)"
  by (cases x) simp_all

lemma wp_sys [wp_simps]: "wp (sys S c h) Q \<longleftrightarrow> Q (answer S h c) ((c, answer S h c) # h)"
  by (simp add: wp_def sys_def)

text \<open>
  The answer to a call as a name instead of a term: for routines whose proofs only need the sign
  of an answer this keeps the histories in the goals readable.
\<close>

definition answered :: "os \<Rightarrow> hist \<Rightarrow> call \<Rightarrow> resp \<Rightarrow> bool" where
  "answered S h c a \<longleftrightarrow> a = answer S h c"

lemma wp_call: "wp (sys S c h) Q \<longleftrightarrow> (\<forall>a. answered S h c a \<longrightarrow> Q a ((c, a) # h))"
  by (simp add: wp_sys answered_def)

lemma wp_mono: "wp m P \<Longrightarrow> (\<And>r h. P r h \<Longrightarrow> Q r h) \<Longrightarrow> wp m Q"
  by (auto simp: wp_def split: option.splits)

lemma wp_conj: "wp m P \<Longrightarrow> wp m Q \<Longrightarrow> wp m (\<lambda>r h. P r h \<and> Q r h)"
  by (auto simp: wp_def split: option.splits)

lemma wpD: "wp m Q \<Longrightarrow> m = Some (r, h) \<Longrightarrow> Q r h"
  by (simp add: wp_def)

lemma wpI: "(\<And>r h. m = Some (r, h) \<Longrightarrow> Q r h) \<Longrightarrow> wp m Q"
  by (auto simp: wp_def split: option.splits)

lemma returns_Some [simp]: "returns (Some x)"
  by (simp add: returns_def)

lemma returns_sys [simp]: "returns (sys S c h)"
  by (simp add: returns_def sys_def)

lemma returns_bind:
  "returns (Option.bind m f) \<longleftrightarrow> returns m \<and> wp m (\<lambda>r h. returns (f (r, h)))"
  by (cases m) (auto simp: returns_def wp_def)

lemma returnsE: "returns m \<Longrightarrow> (\<And>r h. m = Some (r, h) \<Longrightarrow> P) \<Longrightarrow> P"
  by (auto simp: returns_def)

section \<open>What a run adds to the history\<close>

text \<open>
  \<open>emits P h h'\<close>: \<open>h'\<close> continues \<open>h\<close> by events that all satisfy \<open>P\<close>. It is
  reflexive, transitive and monotone in \<open>P\<close>, so the facts of the parts give those of the
  whole.
\<close>

definition emits :: "(event \<Rightarrow> bool) \<Rightarrow> hist \<Rightarrow> hist \<Rightarrow> bool" where
  "emits P h h' \<longleftrightarrow> (\<exists>es. h' = es @ h \<and> list_all P es)"

lemma emits_refl [simp]: "emits P h h"
  by (auto simp: emits_def)

lemma emits_Cons [simp]: "P e \<Longrightarrow> emits P h h' \<Longrightarrow> emits P h (e # h')"
proof -
  assume "P e" and "emits P h h'"
  then obtain es where "h' = es @ h" "list_all P es" by (auto simp: emits_def)
  with \<open>P e\<close> have "e # h' = (e # es) @ h \<and> list_all P (e # es)" by simp
  then show ?thesis unfolding emits_def by blast
qed

lemma emits_trans: "emits P h h' \<Longrightarrow> emits P h' h'' \<Longrightarrow> emits P h h''"
  unfolding emits_def by (metis append.assoc list_all_append)

lemma emits_mono: "emits P h h' \<Longrightarrow> (\<And>e. P e \<Longrightarrow> Q e) \<Longrightarrow> emits Q h h'"
  unfolding emits_def by (metis list_all_iff)

lemma emits_ConsD: "emits P (e # h) h' \<Longrightarrow> P e \<Longrightarrow> emits P h h'"
  by (rule emits_trans [of P h "e # h"]) simp_all

lemma emits_trans_Cons: "P e \<Longrightarrow> emits P (e # h) h' \<Longrightarrow> emits P h h'"
  by (rule emits_trans [of P h "e # h"]) simp_all

text \<open>
  \<open>along I h h'\<close>: \<open>h'\<close> continues \<open>h\<close>, and \<open>I\<close> holds of every history from \<open>h\<close>
  to \<open>h'\<close>, so at every instant at which the process may be stopped.
\<close>

definition along :: "(hist \<Rightarrow> bool) \<Rightarrow> hist \<Rightarrow> hist \<Rightarrow> bool" where
  "along I h h' \<longleftrightarrow> (\<exists>es. h' = es @ h \<and> (\<forall>k \<le> length es. I (drop k es @ h)))"

lemma along_refl: "I h \<Longrightarrow> along I h h"
  by (auto simp: along_def)

lemma along_Cons: "along I h h' \<Longrightarrow> I (e # h') \<Longrightarrow> along I h (e # h')"
proof -
  assume "along I h h'" and e: "I (e # h')"
  then obtain es where es: "h' = es @ h" and I: "\<forall>k \<le> length es. I (drop k es @ h)"
    by (auto simp: along_def)
  have "\<forall>k \<le> length (e # es). I (drop k (e # es) @ h)"
  proof (intro allI impI)
    fix k assume "k \<le> length (e # es)"
    then show "I (drop k (e # es) @ h)" using I e es by (cases k) auto
  qed
  then show ?thesis unfolding along_def using es by (metis append_Cons)
qed

lemma along_last: "along I h h' \<Longrightarrow> I h'"
  unfolding along_def by (metis drop0 le0)

lemma along_mono: "along I h h' \<Longrightarrow> (\<And>g. I g \<Longrightarrow> J g) \<Longrightarrow> along J h h'"
  unfolding along_def by blast

text \<open>
  \<open>guarded G h h'\<close>: \<open>h'\<close> continues \<open>h\<close> by events each of which was allowed by \<open>G\<close> at the
  instant it happened, that is, given everything that happened before it. This is how
  "only after" is stated.
\<close>

inductive guarded :: "(event \<Rightarrow> hist \<Rightarrow> bool) \<Rightarrow> hist \<Rightarrow> hist \<Rightarrow> bool" for G h where
  guarded_refl [simp, intro]: "guarded G h h"
| guarded_Cons: "guarded G h h' \<Longrightarrow> G e h' \<Longrightarrow> guarded G h (e # h')"

lemma guarded_trans: "guarded G h' h'' \<Longrightarrow> guarded G h h' \<Longrightarrow> guarded G h h''"
  by (induction rule: guarded.induct) (auto intro: guarded_Cons)

lemma guarded_mono: "guarded G h h' \<Longrightarrow> (\<And>e g. G e g \<Longrightarrow> G' e g) \<Longrightarrow> guarded G' h h'"
  by (induction rule: guarded.induct) (auto intro: guarded_Cons)

lemma guarded_ConsD: "guarded G (e # h) h' \<Longrightarrow> G e h \<Longrightarrow> guarded G h h'"
  by (rule guarded_trans [of G "e # h"]) (auto intro: guarded_Cons)

lemma guarded_extends: "guarded G h h' \<Longrightarrow> \<exists>es. h' = es @ h"
  by (induction rule: guarded.induct) auto

lemma emits_guarded: "emits P h h' \<Longrightarrow> (\<And>e g. P e \<Longrightarrow> G e g) \<Longrightarrow> guarded G h h'"
proof -
  assume "emits P h h'" and G: "\<And>e g. P e \<Longrightarrow> G e g"
  then obtain es where es: "h' = es @ h" "list_all P es" by (auto simp: emits_def)
  from es(2) have "guarded G h (es @ h)" by (induction es) (auto intro: guarded_Cons G)
  with es(1) show ?thesis by simp
qed

text \<open>Every event of a guarded history was allowed.\<close>

lemma guardedD: "guarded G h (es @ e # g) \<Longrightarrow> length h \<le> length g \<Longrightarrow> G e g"
proof (induction es)
  case Nil
  then show ?case by (auto elim: guarded.cases)
next
  case (Cons x es)
  then show ?case by (auto elim: guarded.cases)
qed

definition extends :: "hist \<Rightarrow> hist \<Rightarrow> bool" where
  "extends h h' \<longleftrightarrow> (\<exists>es. h' = es @ h)"

lemma extends_refl [simp]: "extends h h"
  by (simp add: extends_def)

lemma extends_Cons [simp]: "extends h h' \<Longrightarrow> extends h (e # h')"
  by (auto simp: extends_def)

lemma extends_trans: "extends h h' \<Longrightarrow> extends h' h'' \<Longrightarrow> extends h h''"
  by (auto simp: extends_def)

lemma guarded_extend: "guarded G h h' \<Longrightarrow> extends h h'"
  using guarded_extends by (auto simp: extends_def)

lemma emits_extend: "emits P h h' \<Longrightarrow> extends h h'"
  by (auto simp: emits_def extends_def)

text \<open>
  \<open>gwp G h m R\<close>: the run \<open>m\<close>, started at \<open>h\<close>, makes only calls that \<open>G\<close> allows at their
  instants, and \<open>R\<close> holds of its value and history. The rules follow the structure of a
  program, one call or one routine at a time.
\<close>

definition gwp :: "(event \<Rightarrow> hist \<Rightarrow> bool) \<Rightarrow> hist \<Rightarrow> 'a run \<Rightarrow> ('a \<Rightarrow> hist \<Rightarrow> bool) \<Rightarrow> bool" where
  "gwp G h m R \<longleftrightarrow> wp m (\<lambda>r h'. guarded G h h' \<and> R r h')"

lemma gwp_ret: "R r h \<Longrightarrow> gwp G h (Some (r, h)) R"
  by (simp add: gwp_def wp_Some)

lemma gwp_None: "gwp G h None R"
  by (simp add: gwp_def wp_None)

lemma gwp_sys: "(\<And>a. answered S h c a \<Longrightarrow> G (c, a) h \<and> R a ((c, a) # h)) \<Longrightarrow> gwp G h (sys S c h) R"
  by (auto simp: gwp_def wp_call intro: guarded_Cons)

lemma gwp_mono: "gwp G h m Q \<Longrightarrow> (\<And>r h'. Q r h' \<Longrightarrow> extends h h' \<Longrightarrow> R r h') \<Longrightarrow> gwp G h m R"
  unfolding gwp_def by (erule wp_mono) (auto dest: guarded_extend)

lemma gwp_weaken: "gwp G h m R \<Longrightarrow> (\<And>e g. G e g \<Longrightarrow> G' e g) \<Longrightarrow> gwp G' h m R"
  unfolding gwp_def by (erule wp_mono) (auto intro: guarded_mono)

lemma gwp_bind:
  assumes m: "gwp G h m Q" and f: "\<And>r h'. Q r h' \<Longrightarrow> extends h h' \<Longrightarrow> gwp G h' (f (r, h')) R"
  shows "gwp G h (Option.bind m f) R"
  unfolding gwp_def wp_bind
proof (rule wp_mono [OF m [unfolded gwp_def]])
  fix r h' assume g: "guarded G h h' \<and> Q r h'"
  then have "wp (f (r, h')) (\<lambda>r h''. guarded G h' h'' \<and> R r h'')"
    using f guarded_extend unfolding gwp_def by blast
  then show "wp (f (r, h')) (\<lambda>r h''. guarded G h h'' \<and> R r h'')"
    by (rule wp_mono) (use g in \<open>auto intro: guarded_trans\<close>)
qed

lemma gwp_call:
  assumes "\<And>a. answered S h c a \<Longrightarrow> G (c, a) h"
    and "\<And>a. answered S h c a \<Longrightarrow> extends h ((c, a) # h) \<Longrightarrow> gwp G ((c, a) # h) (f (a, (c, a) # h)) R"
  shows "gwp G h (Option.bind (sys S c h) f) R"
  by (rule gwp_bind [where Q = "\<lambda>a h'. answered S h c a \<and> h' = (c, a) # h"])
    (auto intro: gwp_sys assms)

lemma gwp_if: "(b \<Longrightarrow> gwp G h m R) \<Longrightarrow> (\<not> b \<Longrightarrow> gwp G h n R) \<Longrightarrow> gwp G h (if b then m else n) R"
  by simp

lemma gwp_sum:
  "(\<And>e. x = Inl e \<Longrightarrow> gwp G h (f e) R) \<Longrightarrow> (\<And>v. x = Inr v \<Longrightarrow> gwp G h (g v) R) \<Longrightarrow>
     gwp G h (case x of Inl e \<Rightarrow> f e | Inr v \<Rightarrow> g v) R"
  by (cases x) auto

lemma gwp_option:
  "(x = None \<Longrightarrow> gwp G h f R) \<Longrightarrow> (\<And>v. x = Some v \<Longrightarrow> gwp G h (g v) R) \<Longrightarrow>
     gwp G h (case x of None \<Rightarrow> f | Some v \<Rightarrow> g v) R"
  by (cases x) auto

lemma gwp_pair: "gwp G h (f a b) R \<Longrightarrow> gwp G h (case (a, b) of (x, y) \<Rightarrow> f x y) R"
  by simp

lemma gwp_split: "gwp G h (f (fst x) (snd x) h') R \<Longrightarrow> gwp G h ((case x of (a, b) \<Rightarrow> f a b) h') R"
  by (simp add: case_prod_unfold)

lemma gwp_Let: "(\<And>x. x = t \<Longrightarrow> gwp G h (f x) R) \<Longrightarrow> gwp G h (let x = t in f x) R"
  by (simp add: Let_def)

lemma gwp_True: "gwp G h m R \<Longrightarrow> gwp G h m (\<lambda>_ _. True)"
  by (erule gwp_mono) simp

lemmas gwp_intros = gwp_ret gwp_call gwp_if gwp_sum gwp_option gwp_pair gwp_split gwp_Let

text \<open>Where the guard does not look at the past, \<open>gwp\<close> is about \<open>emits\<close>.\<close>

lemma guarded_emits: "guarded (\<lambda>e g. P e) h h' \<longleftrightarrow> emits P h h'"
proof
  show "guarded (\<lambda>e g. P e) h h' \<Longrightarrow> emits P h h'"
    by (induction rule: guarded.induct) auto
qed (auto intro: emits_guarded)

lemma gwp_emits: "wp m (\<lambda>_. emits P h) \<Longrightarrow> (\<And>e g. P e \<Longrightarrow> G e g) \<Longrightarrow> gwp G h m (\<lambda>_ _. True)"
  unfolding gwp_def by (erule wp_mono) (auto intro: emits_guarded)

lemma emits_gwp: "gwp (\<lambda>e g. P e) h m R \<Longrightarrow> wp m (\<lambda>_. emits P h)"
  unfolding gwp_def guarded_emits by (erule wp_mono) simp

text \<open>The code of an interruptible loop returns where only finitely many signals arrive.\<close>

fun interrupts :: "hist \<Rightarrow> nat" where
  "interrupts [] = 0"
| "interrupts ((c, r) # h) = (if r_ret r < 0 \<and> r_errno r = EINTR then Suc (interrupts h) else interrupts h)"

definition signals_bounded :: "os \<Rightarrow> nat \<Rightarrow> bool" where
  "signals_bounded S B \<longleftrightarrow>
     (\<forall>h c. B \<le> interrupts h \<longrightarrow> r_ret (answer S h c) < 0 \<longrightarrow> r_errno (answer S h c) \<noteq> EINTR)"

section \<open>Logging\<close>

text \<open>
  \<^verbatim>\<open>log.hpp\<close>: a log callback may be empty. Those of the program write to a control
  connection or to the standard error; \<open>CLog\<close> stands for any other one.
\<close>

type_synonym log_callback = "(log_level \<Rightarrow> string \<Rightarrow> hist \<Rightarrow> unit run) option"

definition emitLog :: "log_callback \<Rightarrow> log_level \<Rightarrow> string \<Rightarrow> hist \<Rightarrow> unit run" where
  "emitLog callback level message h =
     (case callback of None \<Rightarrow> Some ((), h) | Some f \<Rightarrow> f level message h)"

fun log_call :: "call \<Rightarrow> bool" where
  "log_call (CLog l m) = True"
| "log_call (CWrite fd d) = True"
| "log_call (CEnv (EStderr t)) = True"
| "log_call (CEnv (ESetActive t)) = True"
| "log_call (CEnv (ESetConnected b)) = True"
| "log_call _ = False"

text \<open>What the threads of the daemon do to each other, messages apart.\<close>

fun thread_call :: "call \<Rightarrow> bool" where
  "thread_call (CEnv (EThread fd)) = True"
| "thread_call (CEnv EEnter) = True"
| "thread_call (CEnv ELeave) = True"
| "thread_call (CEnv ENotify) = True"
| "thread_call (CEnv EAwaitClients) = True"
| "thread_call (CEnv ETryLock) = True"
| "thread_call (CEnv EUnlock) = True"
| "thread_call (CEnv EGetActive) = True"
| "thread_call (CEnv EClearActive) = True"
| "thread_call _ = False"

abbreviation logging :: "event \<Rightarrow> bool" where
  "logging e \<equiv> log_call (fst e)"

lemma logging_not_thread [simp]: "log_call c \<Longrightarrow> \<not> thread_call c"
  by (cases c rule: log_call.cases) simp_all

text \<open>A callback that comes back and only writes messages.\<close>

definition quiet_logger :: "log_callback \<Rightarrow> bool" where
  "quiet_logger callback \<longleftrightarrow>
     (case callback of None \<Rightarrow> True
      | Some f \<Rightarrow> \<forall>l m h. returns (f l m h) \<and> wp (f l m h) (\<lambda>_. emits logging h))"

lemma emitLog_wp: "quiet_logger L \<Longrightarrow> wp (emitLog L l m h) (\<lambda>_. emits logging h)"
  by (auto simp: emitLog_def quiet_logger_def wp_Some split: option.splits)

lemma emitLog_returns: "quiet_logger L \<Longrightarrow> returns (emitLog L l m h)"
  by (auto simp: emitLog_def quiet_logger_def split: option.splits)

section \<open>Descriptors\<close>

text \<open>The descriptors a history has opened and not closed.\<close>

definition fds_opened :: "event \<Rightarrow> int set" where
  "fds_opened e =
     (case e of
        (COpen p flags mode, r) \<Rightarrow> if 0 \<le> r_ret r then {r_ret r} else {}
      | (CPipe, r) \<Rightarrow> if r_ret r = 0 then set (r_nums r) else {}
      | (CNet NSocketUnix, r) \<Rightarrow> if 0 \<le> r_ret r then {r_ret r} else {}
      | (CNet (NSocket f t p), r) \<Rightarrow> if 0 \<le> r_ret r then {r_ret r} else {}
      | (CNet (NAccept l), r) \<Rightarrow> if 0 \<le> r_ret r then {r_ret r} else {}
      | _ \<Rightarrow> {})"

definition fds_closed :: "event \<Rightarrow> int set" where
  "fds_closed e = (case e of (CClose fd, r) \<Rightarrow> {fd} | _ \<Rightarrow> {})"

fun open_fds :: "hist \<Rightarrow> int set" where
  "open_fds [] = {}"
| "open_fds (e # h) = (open_fds h \<union> fds_opened e) - fds_closed e"

text \<open>The kernel gives a new descriptor a number that is not in use, and a pipe two of them.\<close>

definition fresh_fds :: "os \<Rightarrow> bool" where
  "fresh_fds S \<longleftrightarrow>
     (\<forall>h c. fds_opened (c, answer S h c) \<inter> open_fds h = {} \<and>
        (\<forall>fd \<in> fds_opened (c, answer S h c). 0 \<le> fd)) \<and>
     (\<forall>h. r_ret (answer S h CPipe) = 0 \<longrightarrow>
        (\<exists>a b. r_nums (answer S h CPipe) = [a, b] \<and> a \<noteq> b))"

text \<open>Calls that leave the descriptors alone.\<close>

definition fd_neutral :: "event \<Rightarrow> bool" where
  "fd_neutral e \<longleftrightarrow> fds_opened e = {} \<and> fds_closed e = {}"

lemma open_fds_neutral: "emits fd_neutral h h' \<Longrightarrow> open_fds h' = open_fds h"
proof -
  assume "emits fd_neutral h h'"
  then obtain es where es: "h' = es @ h" "list_all fd_neutral es" by (auto simp: emits_def)
  from es(2) have "open_fds (es @ h) = open_fds h" by (induction es) (auto simp: fd_neutral_def)
  with es(1) show ?thesis by simp
qed

lemmas fd_defs = fds_opened_def fds_closed_def fd_neutral_def


lemma logging_fd_neutral: "log_call c \<Longrightarrow> fd_neutral (c, r)"
  by (cases c rule: log_call.cases) (simp_all add: fd_defs)

end
