(* ===== verification/Filesystem.thy ===== *)
theory Filesystem
  imports OsModel
begin

text \<open>
  \<^verbatim>\<open>src/filesystem.cpp\<close> but for \<^verbatim>\<open>sha256File\<close>: reading a text file, replacing a file
  atomically, creating a directory tree without following symbolic links; and the parts
  of \<^verbatim>\<open>std::filesystem::path\<close> the sources use, on path strings.

  \<open>replay_from\<close> computes what a history has done to the files: what a reader sees now, and what
  may be found after a crash, where contents last until \<^verbatim>\<open>fsync\<close> of the file and directory
  entries until \<^verbatim>\<open>fsync\<close> of the directory. It gives the meaning of "atomic": at every instant
  the target holds its old contents, or the new contents and these are on the disk; and a crash
  leaves what it might have left before, or the new contents.
\<close>

section \<open>Paths\<close>

abbreviation slash :: char where
  "slash \<equiv> CHR ''/''"

definition is_absolute :: "string \<Rightarrow> bool" where
  "is_absolute p \<longleftrightarrow> p \<noteq> [] \<and> hd p = slash"

definition path_append :: "string \<Rightarrow> string \<Rightarrow> string" where
  "path_append p q =
     (if is_absolute q \<or> p = [] then q
      else if last p = slash then p @ q
      else p @ slash # q)"

definition path_filename :: "string \<Rightarrow> string" where
  "path_filename p = rev (takeWhile (\<lambda>c. c \<noteq> slash) (rev p))"

definition parent_path :: "string \<Rightarrow> string" where
  "parent_path p =
     (let d = dropWhile (\<lambda>c. c \<noteq> slash) (rev p); s = dropWhile (\<lambda>c. c = slash) d
      in if s = [] then (if d = [] then [] else [slash]) else rev s)"

definition relative_path :: "string \<Rightarrow> string" where
  "relative_path p = dropWhile (\<lambda>c. c = slash) p"

definition root_path :: "string \<Rightarrow> string" where
  "root_path p = (if is_absolute p then [slash] else [])"

text \<open>The elements of a relative path; a trailing separator gives a last empty element.\<close>

function path_elements :: "string \<Rightarrow> string list" where
  "path_elements p =
     (if p = [] then []
      else takeWhile (\<lambda>c. c \<noteq> slash) p #
        (let t = dropWhile (\<lambda>c. c \<noteq> slash) p
         in if t = [] then []
            else if dropWhile (\<lambda>c. c = slash) t = [] then [[]]
            else path_elements (dropWhile (\<lambda>c. c = slash) t)))"
  by pat_completeness auto
termination
proof (relation "measure length", simp)
  fix p t :: string
  assume t: "t = dropWhile (\<lambda>c. c \<noteq> slash) p" and "t \<noteq> []"
  then have "hd t = slash" using hd_dropWhile [of "\<lambda>c. c \<noteq> slash" p] by simp
  with \<open>t \<noteq> []\<close> obtain ts where ts: "t = slash # ts" by (cases t) auto
  have "length (dropWhile (\<lambda>c. c = slash) t) \<le> length ts"
    unfolding ts by (simp add: length_dropWhile_le)
  also have "\<dots> < length t" by (simp add: ts)
  also have "\<dots> \<le> length p" unfolding t by (rule length_dropWhile_le)
  finally show "(dropWhile (\<lambda>c. c = slash) t, p) \<in> measure length" by simp
qed

declare path_elements.simps [simp del]

lemma filename_no_slash [simp]: "slash \<notin> set (path_filename p)"
  by (auto simp: path_filename_def dest: set_takeWhileD)

lemma filename_append: "slash \<notin> set n \<Longrightarrow> path_filename (path_append d n) = n"
proof -
  assume n: "slash \<notin> set n"
  then have abs: "\<not> is_absolute n" by (cases n) (auto simp: is_absolute_def)
  have all: "\<forall>c \<in> set (rev n). c \<noteq> slash" using n by auto
  show ?thesis
  proof (cases "d = []")
    case True
    with all show ?thesis by (simp add: path_append_def path_filename_def takeWhile_eq_all_conv [THEN iffD2])
  next
    case False
    then obtain d' where "path_append d n = d' @ slash # n"
    proof (cases "last d = slash")
      case True
      with \<open>d \<noteq> []\<close> have "d @ n = butlast d @ slash # n"
        using append_butlast_last_id [of d] by (metis append.assoc append_Cons append_Nil)
      with abs True \<open>d \<noteq> []\<close> show ?thesis by (intro that) (simp add: path_append_def)
    next
      case False
      with abs \<open>d \<noteq> []\<close> show ?thesis by (intro that [of d]) (simp add: path_append_def)
    qed
    with all show ?thesis by (simp add: path_filename_def)
  qed
qed

section \<open>Reading and temporary names\<close>

definition errnoMessage :: "os \<Rightarrow> string \<Rightarrow> hist \<Rightarrow> string" where
  "errnoMessage S operation h = operation @ '': '' @ strerror S (cur_errno h)"

text \<open>
  The stream is opened by its constructor and drained through \<^verbatim>\<open>rdbuf()\<close>: the answer is
  negative where the open failed, zero where the stream is still good or at its end, and
  positive where it is not.
\<close>

definition readTextFile :: "os \<Rightarrow> string \<Rightarrow> hist \<Rightarrow> string result run" where
  "readTextFile S path h = do {
     (input, h) \<leftarrow> sys S (CReadFile path) h;
     if r_ret input < 0 then Some (failure Generic (errnoMessage S ''open'' h), h)
     else if 0 < r_ret input then Some (failure Generic ''read failed'', h)
     else Some (success (r_out input), h)
   }"

definition temporaryPath :: "os \<Rightarrow> string \<Rightarrow> hist \<Rightarrow> string run" where
  "temporaryPath S target h = do {
     (number, h) \<leftarrow> sys S CRandom h;
     Some (path_append (parent_path target)
             (path_filename target @ ''.tmp.'' @ show_nat (nat (r_ret number))), h)
   }"

section \<open>Replacing a file\<close>

partial_function (option) write_loop ::
  "os \<Rightarrow> int \<Rightarrow> string \<Rightarrow> string \<Rightarrow> hist \<Rightarrow> unit result run" where
  "write_loop S fd temporary remaining h =
     (if remaining = [] then Some (success (), h)
      else do {
        (written, h) \<leftarrow> sys S (CWrite fd remaining) h;
        if r_ret written < 0 \<and> r_errno written = EINTR then
          write_loop S fd temporary remaining h
        else if r_ret written \<le> 0 then do {
          (_, h) \<leftarrow> sys S (CClose fd) h;
          (_, h) \<leftarrow> sys S (CUnlink temporary) h;
          Some (failure Generic (errnoMessage S ''write'' h), h)
        }
        else write_loop S fd temporary (drop (nat (r_ret written)) remaining) h
      })"

definition sync_close :: "os \<Rightarrow> int \<Rightarrow> hist \<Rightarrow> bool run" where
  "sync_close S fd h = do {
     (synced, h) \<leftarrow> sys S (CFsync fd) h;
     if r_ret synced \<noteq> 0 then Some (False, h)
     else do {
       (closed, h) \<leftarrow> sys S (CClose fd) h;
       Some (r_ret closed = 0, h)
     }
   }"

definition sync_directory :: "os \<Rightarrow> string \<Rightarrow> hist \<Rightarrow> unit run" where
  "sync_directory S directory h = do {
     (fd, h) \<leftarrow> sys S (COpen directory [O_RDONLY, O_DIRECTORY, O_CLOEXEC] 0) h;
     if 0 \<le> r_ret fd then do {
       (_, h) \<leftarrow> sys S (CFsync (r_ret fd)) h;
       (_, h) \<leftarrow> sys S (CClose (r_ret fd)) h;
       Some ((), h)
     }
     else Some ((), h)
   }"

definition publish :: "os \<Rightarrow> int \<Rightarrow> string \<Rightarrow> string \<Rightarrow> hist \<Rightarrow> unit result run" where
  "publish S fd temporary path h = do {
     (synced, h) \<leftarrow> sync_close S fd h;
     if \<not> synced then do {
       (_, h) \<leftarrow> sys S (CUnlink temporary) h;
       Some (failure Generic (errnoMessage S ''sync'' h), h)
     }
     else do {
       (renamed, h) \<leftarrow> sys S (CRename temporary path) h;
       if r_ret renamed \<noteq> 0 then do {
         (_, h) \<leftarrow> sys S (CUnlink temporary) h;
         Some (failure Generic (errnoMessage S ''rename'' h), h)
       }
       else do {
         (_, h) \<leftarrow> sync_directory S (parent_path path) h;
         Some (success (), h)
       }
     }
   }"

definition writeFileAtomic ::
  "os \<Rightarrow> string \<Rightarrow> string \<Rightarrow> nat \<Rightarrow> hist \<Rightarrow> unit result run" where
  "writeFileAtomic S path contents mode h =
     (if parent_path path = [] then
        Some (failure Generic ''target has no parent directory'', h)
      else do {
        (temporary, h) \<leftarrow> temporaryPath S path h;
        (fd, h) \<leftarrow> sys S (COpen temporary [O_WRONLY, O_CREAT, O_EXCL, O_NOFOLLOW] mode) h;
        if r_ret fd < 0 then
          Some (failure Generic (errnoMessage S ''create temporary file'' h), h)
        else do {
          (changed, h) \<leftarrow> sys S (CFchmod (r_ret fd) mode) h;
          if r_ret changed \<noteq> 0 then do {
            (_, h) \<leftarrow> sys S (CClose (r_ret fd)) h;
            (_, h) \<leftarrow> sys S (CUnlink temporary) h;
            Some (failure Generic (errnoMessage S ''chmod'' h), h)
          }
          else do {
            (written, h) \<leftarrow> write_loop S (r_ret fd) temporary contents h;
            case written of
              Inl e \<Rightarrow> Some (Inl e, h)
            | Inr _ \<Rightarrow> publish S (r_ret fd) temporary path h
          }
        }
      })"

section \<open>Creating directories\<close>

fun ensure_components ::
  "os \<Rightarrow> nat \<Rightarrow> string \<Rightarrow> string list \<Rightarrow> hist \<Rightarrow> unit result run" where
  "ensure_components S mode current [] h = Some (success (), h)"
| "ensure_components S mode current (component # rest) h =
     (if component = ''.'' \<or> component = ''..'' then
        Some (failure Generic ''directory path contains traversal components'', h)
      else do {
        let current = path_append current component;
        (status, h) \<leftarrow> sys S (CLstat current) h;
        if r_ret status = 0 then
          (if r_kind status = KLnk \<or> r_kind status \<noteq> KDir then
             Some (failure Generic (''path component is not a real directory: '' @ current), h)
           else ensure_components S mode current rest h)
        else if cur_errno h \<noteq> ENOENT then
          Some (failure Generic (errnoMessage S ''stat directory'' h), h)
        else do {
          (made, h) \<leftarrow> sys S (CMkdir current mode) h;
          if r_ret made \<noteq> 0 \<and> cur_errno h \<noteq> EEXIST then
            Some (failure Generic (errnoMessage S ''create directory'' h), h)
          else do {
            (status, h) \<leftarrow> sys S (CLstat current) h;
            if r_ret status \<noteq> 0 \<or> r_kind status = KLnk \<or> r_kind status \<noteq> KDir then
              Some (failure Generic
                (''created path component is not a real directory: '' @ current), h)
            else ensure_components S mode current rest h
          }
        }
      })"

definition ensureDirectory :: "os \<Rightarrow> string \<Rightarrow> nat \<Rightarrow> hist \<Rightarrow> unit result run" where
  "ensureDirectory S path mode h =
     (if path = [] then Some (failure Generic ''directory path is empty'', h)
      else do {
        (absolute, h) \<leftarrow>
          (if is_absolute path then Some (success path, h)
           else do {
             (answered, h) \<leftarrow> sys S (CAbsolute path) h;
             Some (if r_ret answered \<noteq> 0 then failure Generic (strerror S (r_errno answered))
                   else success (r_out answered), h)
           });
        case absolute of
          Inl e \<Rightarrow> Some (Inl e, h)
        | Inr absolute_path \<Rightarrow>
            if relative_path absolute_path = [] then
              Some (failure Generic ''refusing to change root directory permissions'', h)
            else do {
              (walked, h) \<leftarrow> ensure_components S mode (root_path absolute_path)
                               (path_elements (relative_path absolute_path)) h;
              case walked of
                Inl e \<Rightarrow> Some (Inl e, h)
              | Inr _ \<Rightarrow> do {
                  (changed, h) \<leftarrow> sys S (CChmod absolute_path mode) h;
                  if r_ret changed \<noteq> 0 then
                    Some (failure Generic (errnoMessage S ''chmod directory'' h), h)
                  else Some (success (), h)
                }
            }
      })"

section \<open>What a history has done to the files\<close>

text \<open>
  File contents by path, the paths of the open descriptors, the paths whose contents have
  reached the disk since they last changed, and for each path what a crash may bring back in
  place of them, because a change of the directory entry has not reached the disk.

  \<open>may_find v p\<close>: what may be found at \<open>p\<close> after a crash. Contents that have not reached the disk
  may be replaced by anything.
\<close>

record vfs =
  vfs_files :: "string \<Rightarrow> string option"
  vfs_fds :: "int \<Rightarrow> string option"
  vfs_synced :: "string set"
  vfs_stale :: "string \<Rightarrow> string option set"

definition may_find :: "vfs \<Rightarrow> string \<Rightarrow> string option set" where
  "may_find v p =
     vfs_stale v p
     \<union> (if p \<in> vfs_synced v \<or> vfs_files v p = None then {vfs_files v p} else UNIV)"

text \<open>The entry of \<open>p\<close> is about to change: what it leads to now may come back.\<close>

definition entry_changed :: "string \<Rightarrow> vfs \<Rightarrow> vfs" where
  "entry_changed p v = v\<lparr>vfs_stale := (vfs_stale v)(p := may_find v p)\<rparr>"

fun vfs_step :: "event \<Rightarrow> vfs \<Rightarrow> vfs" where
  "vfs_step (COpen p flags m, r) v =
     (if r_ret r < 0 then v
      else let v = v\<lparr>vfs_fds := (vfs_fds v)(r_ret r := Some p)\<rparr>
           in if O_EXCL \<in> set flags \<or> O_CREAT \<in> set flags \<and> vfs_files v p = None
              then let v = entry_changed p v
                   in v\<lparr>vfs_files := (vfs_files v)(p := Some []), vfs_synced := vfs_synced v - {p}\<rparr>
              else v)"
| "vfs_step (CWrite fd d, r) v =
     (case vfs_fds v fd of
        None \<Rightarrow> v
      | Some p \<Rightarrow>
          if r_ret r \<le> 0 then v
          else v\<lparr>vfs_files := (vfs_files v)
                   (p := Some ((case vfs_files v p of None \<Rightarrow> [] | Some c \<Rightarrow> c) @ take (nat (r_ret r)) d)),
                 vfs_synced := vfs_synced v - {p}\<rparr>)"
| "vfs_step (CClose fd, r) v = v\<lparr>vfs_fds := (vfs_fds v)(fd := None)\<rparr>"
| "vfs_step (CFsync fd, r) v =
     (case vfs_fds v fd of
        None \<Rightarrow> v
      | Some p \<Rightarrow>
          if r_ret r \<noteq> 0 then v
          else v\<lparr>vfs_synced := insert p (vfs_synced v),
                 vfs_stale := (\<lambda>q. if parent_path q = p then {} else vfs_stale v q)\<rparr>)"
| "vfs_step (CRename a b, r) v =
     (if r_ret r \<noteq> 0 \<or> a = b then v
      else let v = entry_changed a (entry_changed b v)
           in v\<lparr>vfs_files := (vfs_files v)(b := vfs_files v a, a := None),
                vfs_synced := (if a \<in> vfs_synced v then insert b (vfs_synced v) else vfs_synced v - {b})\<rparr>)"
| "vfs_step (CUnlink p, r) v =
     (if r_ret r \<noteq> 0 then v
      else let v = entry_changed p v in v\<lparr>vfs_files := (vfs_files v)(p := None)\<rparr>)"
| "vfs_step (CRemove p, r) v =
     (if r_ret r < 0 then v
      else let v = entry_changed p v in v\<lparr>vfs_files := (vfs_files v)(p := None)\<rparr>)"
| "vfs_step e v = v"

lemma entry_changed_simps [simp]:
  "vfs_files (entry_changed p v) = vfs_files v" "vfs_fds (entry_changed p v) = vfs_fds v"
  "vfs_synced (entry_changed p v) = vfs_synced v"
  "vfs_stale (entry_changed p v) = (vfs_stale v)(p := may_find v p)"
  "may_find (entry_changed p v) = may_find v"
  by (auto simp: entry_changed_def may_find_def fun_eq_iff split: if_splits)

definition replay_from :: "vfs \<Rightarrow> hist \<Rightarrow> vfs" where
  "replay_from v h = foldr vfs_step h v"

lemma replay_from_Cons [simp]: "replay_from v (e # h) = vfs_step e (replay_from v h)"
  by (simp add: replay_from_def)

lemma replay_from_Nil [simp]: "replay_from v [] = v"
  by (simp add: replay_from_def)

abbreviation contents_at :: "vfs \<Rightarrow> hist \<Rightarrow> string \<Rightarrow> string option" where
  "contents_at v h p \<equiv> vfs_files (replay_from v h) p"

text \<open>At this instant \<open>p\<close> is as it was, or holds the new contents, on the disk.\<close>

definition old_or_new :: "vfs \<Rightarrow> string \<Rightarrow> string option \<Rightarrow> string \<Rightarrow> hist \<Rightarrow> bool" where
  "old_or_new v p old new g \<longleftrightarrow>
     contents_at v g p = old
     \<or> contents_at v g p = Some new \<and> p \<in> vfs_synced (replay_from v g)"

text \<open>
  \<open>kept\<close>: \<open>p\<close> holds \<open>old\<close>, and a crash leaves one of the contents \<open>M\<close>. \<open>replaced\<close>: the same where
  \<open>new\<close> may have taken the place of \<open>old\<close>.
\<close>

definition kept :: "vfs \<Rightarrow> string \<Rightarrow> string option \<Rightarrow> string option set \<Rightarrow> hist \<Rightarrow> bool" where
  "kept v p old M g \<longleftrightarrow> contents_at v g p = old \<and> may_find (replay_from v g) p \<subseteq> M"

definition replaced ::
  "vfs \<Rightarrow> string \<Rightarrow> string option \<Rightarrow> string option set \<Rightarrow> string \<Rightarrow> hist \<Rightarrow> bool" where
  "replaced v p old M new g \<longleftrightarrow>
     old_or_new v p old new g \<and> may_find (replay_from v g) p \<subseteq> insert (Some new) M"

lemma kept_replaced: "kept v p old M g \<Longrightarrow> replaced v p old M new g"
  by (auto simp: kept_def replaced_def old_or_new_def)

lemma along_replaced: "along (kept v p old M) h h' \<Longrightarrow> along (replaced v p old M new) h h'"
  by (erule along_mono) (rule kept_replaced)

lemma may_find_other:
  "vfs_files w p = vfs_files v p \<Longrightarrow> p \<in> vfs_synced w \<longleftrightarrow> p \<in> vfs_synced v \<Longrightarrow>
   vfs_stale w p \<subseteq> vfs_stale v p \<Longrightarrow> may_find w p \<subseteq> may_find v p"
  by (auto simp: may_find_def split: if_splits)

lemma kept_event:
  assumes "kept v p old M g"
    and "vfs_files (vfs_step e (replay_from v g)) p = vfs_files (replay_from v g) p"
    and "p \<in> vfs_synced (vfs_step e (replay_from v g)) \<longleftrightarrow> p \<in> vfs_synced (replay_from v g)"
    and "vfs_stale (vfs_step e (replay_from v g)) p \<subseteq> vfs_stale (replay_from v g) p"
  shows "kept v p old M (e # g)"
  using may_find_other [OF assms(2-4)] assms(1,2) by (auto simp: kept_def)

text \<open>Calls on the temporary file do not touch the target.\<close>

lemma kept_path:
  assumes "kept v p old M g" and "tmp \<noteq> p"
  shows "kept v p old M ((CRandom, a) # g)" "kept v p old M ((COpen tmp flags m, a) # g)"
    "kept v p old M ((CFchmod fd m, a) # g)" "kept v p old M ((CClose fd, a) # g)"
    "kept v p old M ((CUnlink tmp, a) # g)"
    "r_ret a \<noteq> 0 \<Longrightarrow> kept v p old M ((CRename tmp p, a) # g)"
  using assms by (auto intro!: kept_event simp: Let_def split: if_splits)

lemma kept_fd:
  assumes "kept v p old M g" and "vfs_fds (replay_from v g) fd \<noteq> Some p"
  shows "kept v p old M ((CWrite fd d, a) # g)" "kept v p old M ((CFsync fd, a) # g)"
  using assms by (auto intro!: kept_event split: option.splits if_splits)

lemma write_loop_wp:
  assumes "vfs_fds (replay_from v h) fd = Some tmp"
    and "contents_at v h tmp = Some acc" and "tmp \<noteq> p"
    and "along (kept v p old M) h0 h"
  shows "wp (write_loop S fd tmp remaining h)
    (\<lambda>r h'. along (kept v p old M) h0 h' \<and>
      (ok r \<longrightarrow> vfs_fds (replay_from v h') fd = Some tmp
         \<and> contents_at v h' tmp = Some (acc @ remaining)))"
proof (rule wpI)
  fix r h'
  assume ret: "write_loop S fd tmp remaining h = Some (r, h')"
  let ?I = "kept v p old M"
  let ?pre = "\<lambda>fd tmp acc h. vfs_fds (replay_from v h) fd = Some tmp \<and>
    contents_at v h tmp = Some acc \<and> tmp \<noteq> p \<and> along ?I h0 h"
  let ?post = "\<lambda>fd tmp acc remaining res. along ?I h0 (snd res) \<and>
    (ok (fst res) \<longrightarrow> vfs_fds (replay_from v (snd res)) fd = Some tmp
       \<and> contents_at v (snd res) tmp = Some (acc @ remaining))"
  have "\<forall>acc. ?pre fd tmp acc h \<longrightarrow> ?post fd tmp acc remaining (r, h')"
  proof (rule write_loop.raw_induct
      [where P = "\<lambda>S fd tmp remaining h res. \<forall>acc. ?pre fd tmp acc h \<longrightarrow> ?post fd tmp acc remaining res",
        OF _ ret], intro allI impI, goal_cases)
    case (1 f S fd tmp remaining h res acc)
    note IH = 1(1) and eq = 1(2) and pre = 1(3)
    let ?a = "answer S h (CWrite fd remaining)"
    let ?h = "(CWrite fd remaining, ?a) # h"
    have old: "kept v p old M h" using pre along_last by blast
    have other: "vfs_fds (replay_from v h) fd \<noteq> Some p" and tmp: "tmp \<noteq> p" using pre by auto
    have old1: "kept v p old M ?h" by (rule kept_fd(1) [OF old other])
    then have al: "along ?I h0 ?h" using pre by (intro along_Cons) auto
    show ?case
    proof (cases "remaining = []")
      case True
      with eq pre show ?thesis by auto
    next
      case False
      consider (intr) "r_ret ?a < 0 \<and> r_errno ?a = EINTR"
        | (fail) "\<not> (r_ret ?a < 0 \<and> r_errno ?a = EINTR)" "r_ret ?a \<le> 0"
        | (some) "0 < r_ret ?a"
        by force
      then show ?thesis
      proof cases
        case intr
        with eq False have "f S fd tmp remaining ?h = Some res" by (simp add: sys_def)
        from IH [OF this] pre al intr show ?thesis by simp
      next
        case fail
        let ?h1 = "(CClose fd, answer S ?h (CClose fd)) # ?h"
        let ?h2 = "(CUnlink tmp, answer S ?h1 (CUnlink tmp)) # ?h1"
        from fail eq False have "res = (failure Generic (errnoMessage S ''write'' ?h2), ?h2)"
          by (auto simp: sys_def)
        moreover have old2: "kept v p old M ?h1"
          by (rule kept_path(4) [OF old1 tmp])
        then have "along ?I h0 ?h1" by (rule along_Cons [OF al])
        then have "along ?I h0 ?h2" by (rule along_Cons) (rule kept_path(5) [OF old2 tmp])
        ultimately show ?thesis by simp
      next
        case some
        with eq False have "f S fd tmp (drop (nat (r_ret ?a)) remaining) ?h = Some res"
          by (simp add: sys_def)
        from IH [OF this, rule_format, of "acc @ take (nat (r_ret ?a)) remaining"] pre al some
        show ?thesis by simp
      qed
    qed
  qed
  with assms show "along ?I h0 h' \<and> (ok r \<longrightarrow> vfs_fds (replay_from v h') fd = Some tmp
         \<and> contents_at v h' tmp = Some (acc @ remaining))"
    by simp
qed

lemma write_loop_returns:
  assumes "signals_bounded S B"
  shows "returns (write_loop S fd tmp remaining h)"
proof (induction "(B - interrupts h) + length remaining" arbitrary: remaining h rule: less_induct)
  case less
  let ?a = "answer S h (CWrite fd remaining)"
  let ?h = "(CWrite fd remaining, ?a) # h"
  show ?case
  proof (cases "remaining = []")
    case True
    then show ?thesis by (subst write_loop.simps) simp
  next
    case False
    consider (intr) "r_ret ?a < 0" "r_errno ?a = EINTR"
      | (fail) "\<not> (r_ret ?a < 0 \<and> r_errno ?a = EINTR)" "r_ret ?a \<le> 0"
      | (some) "0 < r_ret ?a"
      by force
    then show ?thesis
    proof cases
      case intr
      with assms have "interrupts h < B" unfolding signals_bounded_def by (meson leI)
      with intr less have "returns (write_loop S fd tmp remaining ?h)" by simp
      with intr False show ?thesis by (subst write_loop.simps) (simp add: sys_def)
    next
      case fail
      with False show ?thesis by (subst write_loop.simps) (auto simp: sys_def)
    next
      case some
      with False have "length (drop (nat (r_ret ?a)) remaining) < length remaining" by simp
      with some less have "returns (write_loop S fd tmp (drop (nat (r_ret ?a)) remaining) ?h)"
        by simp
      with some False show ?thesis by (subst write_loop.simps) (simp add: sys_def)
    qed
  qed
qed

lemma temporary_neq:
  "path_append (parent_path p) (path_filename p @ ''.tmp.'' @ show_nat n) \<noteq> p"
proof
  assume eq: "path_append (parent_path p) (path_filename p @ ''.tmp.'' @ show_nat n) = p"
  have "slash \<notin> set (path_filename p @ ''.tmp.'' @ show_nat n)" by simp
  from filename_append [OF this, of "parent_path p"] eq
  have "path_filename p = path_filename p @ ''.tmp.'' @ show_nat n" by metis
  then show False by simp
qed

lemma temporaryPath_wp:
  "wp (temporaryPath S p h)
    (\<lambda>tmp h'. tmp \<noteq> p \<and> (\<exists>r. h' = (CRandom, r) # h))"
  using temporary_neq [of p] by (simp add: temporaryPath_def wp_simps)

lemma temporaryPath_returns: "returns (temporaryPath S p h)"
  by (simp add: temporaryPath_def returns_bind wp_simps)

lemma sync_close_wp:
  assumes "vfs_fds (replay_from v h) fd = Some tmp" and "tmp \<noteq> p" and "along (kept v p old M) h0 h"
  shows "wp (sync_close S fd h)
    (\<lambda>b h'. along (kept v p old M) h0 h' \<and>
       vfs_files (replay_from v h') = vfs_files (replay_from v h) \<and>
       (b \<longrightarrow> tmp \<in> vfs_synced (replay_from v h')))"
proof -
  have fd: "vfs_fds (replay_from v h) fd \<noteq> Some p" using assms(1,2) by simp
  note synced = kept_fd(2) [OF along_last [OF assms(3)] fd]
  note closed = kept_path(4) [OF synced assms(2)]
  show ?thesis
    using assms synced closed by (auto simp: sync_close_def wp_simps intro!: along_Cons)
qed

lemma sync_close_returns: "returns (sync_close S fd h)"
  by (simp add: sync_close_def returns_bind wp_simps)

text \<open>
  The history ends with an attempt to bring the entries of \<open>directory\<close> to the disk; the flag says
  whether it succeeded.
\<close>

definition directory_sync :: "string \<Rightarrow> hist \<Rightarrow> bool \<Rightarrow> bool" where
  "directory_sync directory h synced \<longleftrightarrow>
     (\<exists>a g. h = (COpen directory [O_RDONLY, O_DIRECTORY, O_CLOEXEC] 0, a) # g
        \<and> r_ret a < 0 \<and> \<not> synced) \<or>
     (\<exists>a b c g. h = (CClose (r_ret a), c) # (CFsync (r_ret a), b)
          # (COpen directory [O_RDONLY, O_DIRECTORY, O_CLOEXEC] 0, a) # g
        \<and> 0 \<le> r_ret a \<and> (synced \<longleftrightarrow> r_ret b = 0))"

lemma directory_sync_tried:
  "0 \<le> r_ret a \<Longrightarrow> directory_sync d ((CClose (r_ret a), c) # (CFsync (r_ret a), b)
     # (COpen d [O_RDONLY, O_DIRECTORY, O_CLOEXEC] 0, a) # g) (r_ret b = 0)"
  by (simp add: directory_sync_def)

lemma sync_directory_wp:
  assumes "along (replaced v p old M new) h0 h"
    and "contents_at v h p = Some new" and "p \<in> vfs_synced (replay_from v h)"
  shows "wp (sync_directory S (parent_path p) h)
    (\<lambda>_ h'. along (replaced v p old M new) h0 h' \<and> contents_at v h' p = Some new
       \<and> p \<in> vfs_synced (replay_from v h')
       \<and> (\<exists>synced. directory_sync (parent_path p) h' synced \<and>
            (synced \<longrightarrow> may_find (replay_from v h') p = {Some new})))"
proof -
  let ?J = "\<lambda>g. along (replaced v p old M new) h0 g \<and> contents_at v g p = Some new
      \<and> p \<in> vfs_synced (replay_from v g)"
  have step: "?J (e # g)"
    if J: "?J g" and e: "vfs_files (vfs_step e (replay_from v g)) = vfs_files (replay_from v g)"
      "vfs_synced (replay_from v g) \<subseteq> vfs_synced (vfs_step e (replay_from v g))"
      "vfs_stale (vfs_step e (replay_from v g)) p \<subseteq> vfs_stale (replay_from v g) p" for e g
  proof -
    from J e have new: "contents_at v (e # g) p = Some new" "p \<in> vfs_synced (replay_from v (e # g))"
      by auto
    have "may_find (replay_from v (e # g)) p \<subseteq> may_find (replay_from v g) p"
      using J e new by (intro may_find_other) auto
    also have "\<dots> \<subseteq> insert (Some new) M" using J along_last [of _ h0 g] unfolding replaced_def by blast
    finally have "replaced v p old M new (e # g)" using new by (simp add: replaced_def old_or_new_def)
    with J new show ?thesis by (simp add: along_Cons)
  qed
  let ?o = "COpen (parent_path p) [O_RDONLY, O_DIRECTORY, O_CLOEXEC] 0"
  let ?h1 = "(?o, answer S h ?o) # h"
  let ?fd = "r_ret (answer S h ?o)"
  let ?h2 = "(CFsync ?fd, answer S ?h1 (CFsync ?fd)) # ?h1"
  have J1: "?J ?h1" using assms by (intro step) (simp_all add: Let_def)
  have J2: "?J ?h2" by (rule step [OF J1]) (auto split: option.splits if_splits)
  have J3: "?J ((CClose ?fd, a) # ?h2)" for a by (rule step [OF J2]) simp_all
  have found: "may_find (replay_from v ((CClose ?fd, a) # ?h2)) p = {Some new}"
    if "0 \<le> ?fd" "r_ret (answer S ?h1 (CFsync ?fd)) = 0" for a
    using that assms(2,3) by (simp add: may_find_def Let_def)
  show ?thesis
  proof (cases "0 \<le> ?fd")
    case True
    have "\<exists>synced. directory_sync (parent_path p) ((CClose ?fd, a) # ?h2) synced \<and>
        (synced \<longrightarrow> may_find (replay_from v ((CClose ?fd, a) # ?h2)) p = {Some new})" for a
      using directory_sync_tried [OF True] found [OF True] by (intro exI conjI impI)
    with J3 show ?thesis
      unfolding sync_directory_def wp_bind wp_sys prod.case if_P [OF True] wp_Some conj_assoc
      by (simp only: simp_thms)
  next
    case False
    then have "directory_sync (parent_path p) ?h1 False" unfolding directory_sync_def by simp
    then have "\<exists>synced. directory_sync (parent_path p) ?h1 synced \<and>
        (synced \<longrightarrow> may_find (replay_from v ?h1) p = {Some new})" by blast
    with J1 show ?thesis
      unfolding sync_directory_def wp_bind wp_sys prod.case if_not_P [OF False] wp_Some conj_assoc
      by (simp only: simp_thms)
  qed
qed

lemma sync_directory_returns: "returns (sync_directory S d h)"
  by (simp add: sync_directory_def returns_bind wp_simps)

definition atomic_outcome ::
  "vfs \<Rightarrow> string \<Rightarrow> string option \<Rightarrow> string \<Rightarrow> hist \<Rightarrow> unit result \<Rightarrow> hist \<Rightarrow> bool" where
  "atomic_outcome v p old new h r h' \<longleftrightarrow>
     along (old_or_new v p old new) h h' \<and>
     (if ok r then contents_at v h' p = Some new \<and> p \<in> vfs_synced (replay_from v h')
      else contents_at v h' p = old)"

text \<open>The whole outcome, what a crash may leave included.\<close>

definition durable_outcome ::
  "vfs \<Rightarrow> string \<Rightarrow> string option \<Rightarrow> string option set \<Rightarrow> string \<Rightarrow> hist \<Rightarrow> unit result \<Rightarrow> hist \<Rightarrow> bool" where
  "durable_outcome v p old M new h r h' \<longleftrightarrow>
     along (replaced v p old M new) h h' \<and>
     (if ok r then contents_at v h' p = Some new \<and> p \<in> vfs_synced (replay_from v h')
        \<and> (\<exists>synced. directory_sync (parent_path p) h' synced \<and>
             (synced \<longrightarrow> may_find (replay_from v h') p = {Some new}))
      else kept v p old M h')"

lemma durable_atomic: "durable_outcome v p old M new h r h' \<Longrightarrow> atomic_outcome v p old new h r h'"
  using along_mono [of "replaced v p old M new" h h' "old_or_new v p old new"]
  by (simp add: durable_outcome_def atomic_outcome_def kept_def replaced_def split: if_splits)

lemma durable_outcome_failed:
  "along (kept v p old M) h h' \<Longrightarrow> durable_outcome v p old M new h (Inl e) h'"
  using along_last along_replaced by (fastforce simp: durable_outcome_def)

lemma along_old_or_new:
  "along (\<lambda>g. contents_at v g p = old) h h' \<Longrightarrow> along (old_or_new v p old new) h h'"
  by (erule along_mono) (simp add: old_or_new_def)

lemma atomic_outcome_failed:
  "along (\<lambda>g. contents_at v g p = old) h h' \<Longrightarrow> atomic_outcome v p old new h (Inl e) h'"
  using along_last along_old_or_new by (fastforce simp: atomic_outcome_def)

lemma publish_wp:
  assumes "vfs_fds (replay_from v h) fd = Some tmp" and "contents_at v h tmp = Some new"
    and "tmp \<noteq> p" and "along (kept v p old M) h0 h"
  shows "wp (publish S fd tmp p h) (durable_outcome v p old M new h0)"
  unfolding publish_def wp_simps prod.case
proof (rule wp_mono [OF sync_close_wp [OF assms(1,3,4)]], elim conjE, goal_cases)
  case (1 b h1)
  note I = along_last [OF 1(1)]
  have unlinked: "durable_outcome v p old M new h0 (Inl e) ((CUnlink tmp, a) # g)"
    if "along (kept v p old M) h0 g" for a e g
    using kept_path(5) [OF along_last [OF that] assms(3)] that
    by (intro durable_outcome_failed along_Cons)
  show ?case
  proof (cases b)
    case False
    with unlinked [OF 1(1)] show ?thesis by (simp add: wp_simps)
  next
    case True
    let ?r = "answer S h1 (CRename tmp p)" and ?h2 = "(CRename tmp p, answer S h1 (CRename tmp p)) # h1"
    show ?thesis
    proof (cases "r_ret ?r = 0")
      case False
      have "along (kept v p old M) h0 ?h2"
        by (rule along_Cons [OF 1(1) kept_path(6) [OF I assms(3) False]])
      from unlinked [OF this] True False show ?thesis by (simp add: wp_simps)
    next
      case renamed: True
      have new: "contents_at v ?h2 p = Some new" "p \<in> vfs_synced (replay_from v ?h2)"
        using True renamed 1 assms(2,3) by (auto simp: Let_def)
      moreover have "may_find (replay_from v ?h2) p \<subseteq> insert (Some new) M"
        using new I assms(3) renamed by (auto simp: may_find_def Let_def kept_def split: if_splits)
      ultimately have "along (replaced v p old M new) h0 ?h2"
        by (intro along_Cons along_replaced [OF 1(1)]) (auto simp: replaced_def old_or_new_def)
      then have "wp (sync_directory S (parent_path p) ?h2)
          (\<lambda>_. durable_outcome v p old M new h0 (success ()))"
        by (rule wp_mono [OF sync_directory_wp [OF _ new]]) (simp add: durable_outcome_def)
      with True renamed show ?thesis by (simp add: wp_simps)
    qed
  qed
qed

lemma publish_returns: "returns (publish S fd tmp p h)"
  by (auto simp: publish_def returns_bind wp_simps sync_close_returns sync_directory_returns
      intro!: wpI)

lemma writeFileAtomic_durable:
  "wp (writeFileAtomic S p new mode h)
    (durable_outcome v p (contents_at v h p) (may_find (replay_from v h) p) new h)"
proof (cases "parent_path p = []")
  case True
  then show ?thesis
    using durable_outcome_failed [OF along_refl]
    by (simp add: writeFileAtomic_def wp_simps kept_def)
next
  case False
  let ?I = "kept v p (contents_at v h p) (may_find (replay_from v h) p)"
  show ?thesis
    unfolding writeFileAtomic_def wp_simps prod.case if_not_P [OF False]
  proof (rule wp_mono [OF temporaryPath_wp], elim conjE exE, goal_cases)
    case (1 tmp h1 rnd)
    have I1: "?I h1" unfolding 1(2) using 1(1) by (intro kept_path) (simp add: kept_def)
    then have al: "along ?I h h1"
      unfolding 1(2) by (intro along_Cons along_refl) (simp_all add: kept_def)
    show ?case using 1(1) al I1
      by (auto simp: wp_simps Let_def
          intro!: along_Cons kept_path durable_outcome_failed wp_mono [OF write_loop_wp [where acc = "[]"]]
            wp_mono [OF publish_wp [where new = new]] split: sum.splits)
  qed
qed

lemma writeFileAtomic_wp:
  "wp (writeFileAtomic S p new mode h) (atomic_outcome v p (contents_at v h p) new h)"
  by (rule wp_mono [OF writeFileAtomic_durable]) (rule durable_atomic)

lemma writeFileAtomic_returns:
  "signals_bounded S B \<Longrightarrow> returns (writeFileAtomic S p new mode h)"
  by (auto simp: writeFileAtomic_def returns_bind wp_simps temporaryPath_returns
      write_loop_returns publish_returns intro!: wpI split: sum.splits)

section \<open>Directories are created without following links\<close>

text \<open>The paths \<^verbatim>\<open>current\<close> runs through.\<close>

fun walked_paths :: "string \<Rightarrow> string list \<Rightarrow> string list" where
  "walked_paths current [] = []"
| "walked_paths current (component # rest) =
     (let current = path_append current component in current # walked_paths current rest)"

definition seen_directory :: "event list \<Rightarrow> string \<Rightarrow> bool" where
  "seen_directory es q \<longleftrightarrow>
     list_ex (\<lambda>(c, a). c = CLstat q \<and> r_ret a = 0 \<and> r_kind a = KDir) es"

lemma seen_directory_Cons:
  "seen_directory ((c, a) # es) q \<longleftrightarrow>
     c = CLstat q \<and> r_ret a = 0 \<and> r_kind a = KDir \<or> seen_directory es q"
  by (simp add: seen_directory_def)

lemma seen_directory_append [simp]:
  "seen_directory (es @ fs) q \<longleftrightarrow> seen_directory es q \<or> seen_directory fs q"
  by (simp add: seen_directory_def)

text \<open>The events of \<open>h'\<close> since \<open>h\<close>.\<close>

definition since :: "hist \<Rightarrow> hist \<Rightarrow> event list" where
  "since h h' = take (length h' - length h) h'"

lemma since_append [simp]: "since h (es @ h) = es"
  by (simp add: since_def)

text \<open>
  What \<open>ensureDirectory\<close> may call, given what was seen since its start \<open>h\<close>: a path on the way is
  looked at or created only when everything above it was seen to be a real directory, it is
  created with the requested mode and right after it was not found, and the mode of the target
  is set after the whole way was seen.
\<close>

definition way :: "string \<Rightarrow> string list" where
  "way p = walked_paths (root_path p) (path_elements (relative_path p))"

definition seen_above :: "hist \<Rightarrow> string list \<Rightarrow> string \<Rightarrow> hist \<Rightarrow> bool" where
  "seen_above h paths q g \<longleftrightarrow>
     q \<in> set paths \<and> list_all (seen_directory (since h g)) (takeWhile (\<lambda>x. x \<noteq> q) paths)"

definition directory_guard :: "string \<Rightarrow> nat \<Rightarrow> hist \<Rightarrow> event \<Rightarrow> hist \<Rightarrow> bool" where
  "directory_guard p mode h e g \<longleftrightarrow>
     (case fst e of
        CLstat q \<Rightarrow> seen_above h (way p) q g
      | CMkdir q m \<Rightarrow> m = mode \<and> seen_above h (way p) q g \<and>
          (case g of (c, a) # _ \<Rightarrow> c = CLstat q \<and> r_ret a \<noteq> 0 \<and> cur_errno g = ENOENT | [] \<Rightarrow> False)
      | CChmod q m \<Rightarrow> q = p \<and> m = mode \<and> list_all (seen_directory (since h g)) (way p) \<and>
          ''.'' \<notin> set (path_elements (relative_path p)) \<and> ''..'' \<notin> set (path_elements (relative_path p))
      | _ \<Rightarrow> False)"

lemma since_Cons: "extends h g \<Longrightarrow> since h (e # g) = e # since h g"
  by (auto simp: extends_def since_def)

lemma since_mono: "extends h0 h \<Longrightarrow> extends h h' \<Longrightarrow> seen_directory (since h0 h) q \<Longrightarrow> seen_directory (since h0 h') q"
  by (auto simp: extends_def simp flip: append_assoc)

lemma seen_above_prefix:
  assumes "paths = w @ q # rest" and "list_all (seen_directory (since h g)) w"
  shows "seen_above h paths q g"
proof -
  have "set (takeWhile (\<lambda>x. x \<noteq> q) (w @ q # rest)) \<subseteq> set w"
    by (auto simp: takeWhile_append dest: set_takeWhileD)
  with assms show ?thesis by (auto simp: seen_above_def list_all_iff)
qed

lemma ensure_components_gwp:
  assumes "way p = w @ walked_paths current comps" and "extends h0 h"
    and "list_all (seen_directory (since h0 h)) w"
  shows "gwp (directory_guard p mode h0) h (ensure_components S mode current comps h)
    (\<lambda>r h'. ok r \<longrightarrow> list_all (seen_directory (since h0 h')) (way p)
       \<and> ''.'' \<notin> set comps \<and> ''..'' \<notin> set comps)"
  using assms
proof (induction comps arbitrary: current w h)
  case Nil
  then show ?case by (auto intro!: gwp_ret)
next
  case (Cons component rest)
  let ?cur = "path_append current component"
  have way: "way p = w @ ?cur # walked_paths ?cur rest" using Cons.prems(1) by (simp add: Let_def)
  have above: "seen_above h0 (way p) ?cur g" if "extends h g" for g
    using seen_above_prefix [OF way] Cons.prems(2,3) that
    by (auto simp: list_all_iff intro: since_mono)
  have next_dir: "gwp (directory_guard p mode h0) ((CLstat ?cur, a) # g)
      (ensure_components S mode ?cur rest ((CLstat ?cur, a) # g))
      (\<lambda>r h'. ok r \<longrightarrow> list_all (seen_directory (since h0 h')) (way p)
         \<and> ''.'' \<notin> set rest \<and> ''..'' \<notin> set rest)"
    if g: "extends h g" and a: "r_ret a = 0" "r_kind a = KDir" for a g
  proof -
    have x: "extends h0 g" using Cons.prems(2) g by (rule extends_trans)
    have "list_all (seen_directory (since h0 ((CLstat ?cur, a) # g))) (w @ [?cur])"
      using a Cons.prems(2,3) g
      by (auto simp: list_all_iff since_Cons [OF x] seen_directory_Cons intro: since_mono)
    then show ?thesis using way x by (intro Cons.IH [of "w @ [?cur]"]) simp_all
  qed
  have look: "directory_guard p mode h0 (CLstat ?cur, a) g" if "extends h g" for a g
    using above [OF that] by (simp add: directory_guard_def)
  have make: "directory_guard p mode h0 (CMkdir ?cur mode, b) ((CLstat ?cur, a) # g)"
    if "extends h g" "r_ret a \<noteq> 0" "cur_errno ((CLstat ?cur, a) # g) = ENOENT" for a b g
    using above [of "(CLstat ?cur, a) # g"] that by (simp add: directory_guard_def)
  show ?case
    unfolding ensure_components.simps Let_def
    by (intro gwp_intros impI) (auto intro!: next_dir look make)
qed

lemma ensureDirectory_gwp:
  assumes "is_absolute p"
  shows "gwp (directory_guard p mode h) h (ensureDirectory S p mode h)
    (\<lambda>r h'. ok r \<longrightarrow> list_all (seen_directory (since h h')) (way p) \<and> (\<exists>a g. h' = (CChmod p mode, a) # g))"
proof -
  have ne: "p \<noteq> []" using assms by (auto simp: is_absolute_def)
  have walk: "gwp (directory_guard p mode h) h
      (ensure_components S mode (root_path p) (path_elements (relative_path p)) h)
    (\<lambda>r h'. ok r \<longrightarrow> list_all (seen_directory (since h h')) (way p)
       \<and> ''.'' \<notin> set (path_elements (relative_path p)) \<and> ''..'' \<notin> set (path_elements (relative_path p)))"
    by (rule ensure_components_gwp [where w = "[]"]) (simp_all add: way_def)
  show ?thesis
    unfolding ensureDirectory_def if_not_P [OF ne] if_P [OF assms]
    by (simp, intro conjI impI gwp_intros gwp_bind [OF walk])
      (auto simp: directory_guard_def list_all_iff intro: since_mono)
qed

lemma ensure_components_returns: "returns (ensure_components S mode current comps h)"
  by (induction comps arbitrary: current h) (auto simp: returns_bind wp_simps Let_def)

lemma ensureDirectory_returns: "returns (ensureDirectory S path mode h)"
  by (auto simp: ensureDirectory_def returns_bind wp_simps ensure_components_returns
      intro!: wpI split: sum.splits)

section \<open>Calls that leave the files alone\<close>

definition quiet :: "event \<Rightarrow> bool" where
  "quiet e \<longleftrightarrow> (\<forall>v. vfs_step e v = v)"

lemma replay_quiet: "emits quiet h h' \<Longrightarrow> replay_from v h' = replay_from v h"
proof -
  assume "emits quiet h h'"
  then obtain es where es: "h' = es @ h" "list_all quiet es" by (auto simp: emits_def)
  from es(2) have "replay_from v (es @ h) = replay_from v h"
    by (induction es) (auto simp: quiet_def)
  with es(1) show ?thesis by simp
qed

lemma along_quiet:
  assumes "emits quiet h h'" and "I (replay_from v h)"
  shows "along (\<lambda>g. I (replay_from v g)) h h'"
proof -
  from assms(1) obtain es where es: "h' = es @ h" "list_all quiet es" by (auto simp: emits_def)
  have "\<forall>k \<le> length es. I (replay_from v (drop k es @ h))"
  proof (intro allI impI)
    fix k
    have "list_all quiet (drop k es)" using es(2) by (auto simp: list_all_iff dest: in_set_dropD)
    then have "emits quiet h (drop k es @ h)" by (auto simp: emits_def)
    from replay_quiet [OF this] assms(2) show "I (replay_from v (drop k es @ h))" by simp
  qed
  with es(1) show ?thesis by (auto simp: along_def)
qed

lemma quiet_calls [simp, intro]:
  "quiet (CLstat q, a)" "quiet (CMkdir q m, a)" "quiet (CChmod q m, a)" "quiet (CAbsolute q, a)"
  "quiet (CReadFile q, a)" "quiet (CNow, a)" "quiet (CSleep n, a)" "quiet (CLog l t, a)"
  "quiet (CKill i j, a)" "quiet (CWaitpid i b, a)" "quiet (CReadSymlink q, a)"
  "quiet (CCanonical q, a)" "quiet (CSymlinkStatus q, a)" "quiet (CIfIndex q, a)"
  "quiet (CGeteuid, a)" "quiet (CGetpid, a)" "quiet (CFlock i k, a)" "quiet (CRandom, a)"
  "quiet (CListDir q, a)" "quiet (CExists q, a)" "quiet (CChown q i j, a)" "quiet (CNet n', a)"
  "quiet (CUser u, a)" "quiet (CEnv ev, a)" "quiet (CGetIfAddrs, a)" "quiet (CPoll is j, a)"
  "quiet (CNonBlock i, a)" "quiet (CRead i n, a)" "quiet (CRecv i n, a)"
  by (simp_all add: quiet_def)

text \<open>What \<open>ensureDirectory\<close> calls; any property of these events is one of the whole run.\<close>

definition directory_event :: "event \<Rightarrow> bool" where
  "directory_event e =
     (case fst e of CLstat q \<Rightarrow> True | CMkdir q m \<Rightarrow> True | CChmod q m \<Rightarrow> True | CAbsolute q \<Rightarrow> True
      | _ \<Rightarrow> False)"

lemma directory_event_simps [simp]:
  "directory_event (CLstat q, a)" "directory_event (CMkdir q m, a)" "directory_event (CChmod q m, a)"
  "directory_event (CAbsolute q, a)"
  by (simp_all add: directory_event_def)

lemma directory_event_quiet: "directory_event e \<Longrightarrow> quiet e"
  by (cases e) (auto simp: directory_event_def split: call.splits)

lemma directory_event_neutral: "directory_event e \<Longrightarrow> fd_neutral e"
  by (cases e) (auto simp: directory_event_def fd_defs split: call.splits)

lemma ensure_components_emits:
  "wp (ensure_components S mode current comps h) (\<lambda>r h'. emits directory_event h h')"
proof (induction comps arbitrary: current h)
  case Nil
  then show ?case by (simp add: wp_simps)
next
  case (Cons component rest)
  let ?cur = "path_append current component"
  let ?e1 = "(CLstat ?cur, answer S h (CLstat ?cur))"
  let ?e2 = "(CMkdir ?cur mode, answer S (?e1 # h) (CMkdir ?cur mode))"
  let ?e3 = "(CLstat ?cur, answer S (?e2 # ?e1 # h) (CLstat ?cur))"
  have "wp (ensure_components S mode ?cur rest (?e1 # h)) (\<lambda>r h'. emits directory_event h h')"
    by (rule wp_mono [OF Cons.IH]) (erule emits_ConsD, simp)
  moreover have "wp (ensure_components S mode ?cur rest (?e3 # ?e2 # ?e1 # h))
      (\<lambda>r h'. emits directory_event h h')"
    by (rule wp_mono [OF Cons.IH]) (blast dest: emits_ConsD intro: directory_event_simps)
  ultimately show ?case by (simp add: wp_simps Let_def)
qed

lemma ensureDirectory_emits:
  "wp (ensureDirectory S p mode h) (\<lambda>r h'. emits directory_event h h')"
  unfolding ensureDirectory_def
  by (auto simp: wp_simps split: sum.splits
      intro!: wp_mono [OF ensure_components_emits] dest: emits_ConsD)

lemma ensureDirectory_quiet:
  "wp (ensureDirectory S p mode h) (\<lambda>r h'. emits quiet h h')"
  by (rule wp_mono [OF ensureDirectory_emits]) (erule emits_mono, erule directory_event_quiet)

lemma atomic_outcome_after_quiet:
  assumes "emits quiet h0 h" and "atomic_outcome v p old new h r h'"
  shows "atomic_outcome v p old new h0 r h'"
proof -
  from assms(1) obtain es where es: "h = es @ h0" "list_all quiet es" by (auto simp: emits_def)
  from assms(2) obtain fs where fs: "h' = fs @ h"
      "\<forall>k \<le> length fs. old_or_new v p old new (drop k fs @ h)"
    by (auto simp: atomic_outcome_def along_def)
  have base: "old_or_new v p old new h" using fs(2)[rule_format, of "length fs"] by simp
  have "old_or_new v p old new (drop k (fs @ es) @ h0)" for k
  proof (cases "k \<le> length fs")
    case True
    then show ?thesis using fs(2) es(1) by simp
  next
    case False
    then have "drop k (fs @ es) = drop (k - length fs) es" by simp
    moreover have "emits quiet (drop (k - length fs) es @ h0) h"
    proof -
      have "h = take (k - length fs) es @ drop (k - length fs) es @ h0" using es(1) by simp
      moreover have "list_all quiet (take (k - length fs) es)"
        using es(2) by (auto simp: list_all_iff dest: in_set_takeD)
      ultimately show ?thesis unfolding emits_def by blast
    qed
    ultimately show ?thesis using base replay_quiet by (simp add: old_or_new_def)
  qed
  then have "along (old_or_new v p old new) h0 h'"
    using fs(1) es(1) unfolding along_def by (metis append.assoc)
  with assms(2) show ?thesis by (simp add: atomic_outcome_def)
qed

section \<open>Reading what was written\<close>

text \<open>No other process writes the files: a read finds what the own history left there.\<close>

definition reads_faithfully :: "os \<Rightarrow> vfs \<Rightarrow> bool" where
  "reads_faithfully S v \<longleftrightarrow>
     (\<forall>h p. case contents_at v h p of
        None \<Rightarrow> r_ret (answer S h (CReadFile p)) < 0
      | Some t \<Rightarrow> r_ret (answer S h (CReadFile p)) = 0 \<and> r_out (answer S h (CReadFile p)) = t)"

lemma readTextFile_returns: "returns (readTextFile S p h)"
  by (simp add: readTextFile_def returns_bind wp_simps)

lemma readTextFile_wp:
  "wp (readTextFile S p h) (\<lambda>r h'. (\<exists>a. h' = (CReadFile p, a) # h) \<and>
     (reads_faithfully S v \<longrightarrow>
        (case contents_at v h p of None \<Rightarrow> \<not> ok r | Some t \<Rightarrow> r = Inr t)))"
proof -
  have "case contents_at v h p of
        None \<Rightarrow> r_ret (answer S h (CReadFile p)) < 0
      | Some t \<Rightarrow> r_ret (answer S h (CReadFile p)) = 0 \<and> r_out (answer S h (CReadFile p)) = t"
    if "reads_faithfully S v" using that unfolding reads_faithfully_def by blast
  then show ?thesis
    by (auto simp: readTextFile_def wp_simps split: option.splits)
qed

section \<open>A system with working files\<close>

text \<open>
  One process on a machine where every call succeeds at once and files keep what was written
  to them. It satisfies the hypotheses the lemmas on stores and loops make.
\<close>

definition done_resp :: "int \<Rightarrow> string \<Rightarrow> resp" where
  "done_resp n out = \<lparr>r_ret = n, r_errno = E0, r_out = out, r_kind = KDir, r_nums = [],
     r_names = [], r_addrs = []\<rparr>"

definition file_answer :: "vfs \<Rightarrow> hist \<Rightarrow> call \<Rightarrow> resp" where
  "file_answer v h c =
     (case c of
        CReadFile p \<Rightarrow>
          (case contents_at v h p of
             None \<Rightarrow> (done_resp (- 1) [])\<lparr>r_errno := ENOENT\<rparr>
           | Some t \<Rightarrow> done_resp 0 t)
      | COpen p flags mode \<Rightarrow> done_resp 3 []
      | CWrite fd d \<Rightarrow> done_resp (int (length d)) []
      | _ \<Rightarrow> done_resp 0 [])"

definition file_os :: "vfs \<Rightarrow> os" where
  "file_os v =
     \<lparr>answer = file_answer v, strerror = (\<lambda>_. []), gai_strerror = (\<lambda>_. []), interfaces = (\<lambda>_. []),
      inet_of = \<lparr>pton4 = (\<lambda>_. None), pton6 = (\<lambda>_. None), ntop4 = (\<lambda>_. None), ntop6 = (\<lambda>_. None)\<rparr>\<rparr>"

definition empty_vfs :: vfs where
  "empty_vfs = \<lparr>vfs_files = (\<lambda>_. None), vfs_fds = (\<lambda>_. None), vfs_synced = {}, vfs_stale = (\<lambda>_. {})\<rparr>"

lemma file_os_faithful: "reads_faithfully (file_os v) v"
  by (auto simp: reads_faithfully_def file_os_def file_answer_def done_resp_def split: option.splits)

lemma file_os_signals: "signals_bounded (file_os v) 0"
  by (auto simp: signals_bounded_def file_os_def file_answer_def done_resp_def
      split: call.splits option.splits)

text \<open>A kernel that numbers descriptors upwards.\<close>

definition next_fd :: "hist \<Rightarrow> int" where
  "next_fd h = int (Suc (nat (Max (insert 2 (open_fds h)))))"

definition count_answer :: "hist \<Rightarrow> call \<Rightarrow> resp" where
  "count_answer h c =
     (if c = CPipe then (done_resp 0 [])\<lparr>r_nums := [next_fd h, next_fd h + 1]\<rparr>
      else if fds_opened (c, done_resp 0 []) = {} then done_resp 0 []
      else done_resp (next_fd h) [])"

definition count_os :: os where
  "count_os = (file_os empty_vfs)\<lparr>answer := count_answer\<rparr>"


lemma finite_open_fds: "finite (open_fds h)"
  by (induction h) (auto simp: fds_opened_def split: call.splits net_call.splits)

lemma next_fd_new: "next_fd h \<notin> open_fds h" "next_fd h + 1 \<notin> open_fds h" "0 \<le> next_fd h"
proof -
  have below: "x < next_fd h" if "x \<in> open_fds h" for x
  proof -
    have "x \<le> Max (insert 2 (open_fds h))" using that finite_open_fds by simp
    then show ?thesis unfolding next_fd_def by linarith
  qed
  show "next_fd h \<notin> open_fds h" using below by blast
  show "next_fd h + 1 \<notin> open_fds h" using below by force
  show "0 \<le> next_fd h" by (simp add: next_fd_def)
qed

lemma count_os_fresh: "fresh_fds count_os"
proof -
  have sub: "fds_opened (c, count_answer h c) \<subseteq> {next_fd h, next_fd h + 1}" for h c
    by (auto simp: fds_opened_def count_answer_def done_resp_def split: call.splits net_call.splits)
  have "fds_opened (c, count_answer h c) \<inter> open_fds h = {}" "\<forall>fd \<in> fds_opened (c, count_answer h c). 0 \<le> fd"
    for h c using sub [of c h] next_fd_new [of h] by auto
  moreover have "r_nums (count_answer h CPipe) = [next_fd h, next_fd h + 1]" for h
    by (simp add: count_answer_def)
  ultimately show ?thesis by (simp add: fresh_fds_def count_os_def)
qed

lemma count_os_signals: "signals_bounded count_os 0"
  by (auto simp: signals_bounded_def count_os_def count_answer_def done_resp_def next_fd_def)

section \<open>Properties\<close>

text \<open>C1: Replacing a file is atomic, durable as far as the system lets it, and it ends. Whatever
  the system answers, as long as only finitely many signals arrive, \<open>writeFileAtomic\<close> returns. At
  every instant from the call to the return the target has its old contents, or it has the new
  contents and these have reached the disk; a crash at that instant leaves what a crash before the
  call might have left, or the new contents. It reports failure only with the old contents in
  place, also after a crash. It reports success only with the new contents in place and on the
  disk, and after trying to bring the directory entry to the disk as its last step; where the
  system answers that this succeeded, a crash leaves the new contents and nothing else (the code
  ignores a failure there).\<close>

theorem writeFileAtomic_atomic:
  assumes "signals_bounded S B"
  shows "twp (writeFileAtomic S p new mode h) (\<lambda>r h'.
    along (\<lambda>g. (contents_at v g p = contents_at v h p
             \<or> contents_at v g p = Some new \<and> p \<in> vfs_synced (replay_from v g))
           \<and> may_find (replay_from v g) p \<subseteq> insert (Some new) (may_find (replay_from v h) p)) h h' \<and>
    (if ok r then contents_at v h' p = Some new \<and> p \<in> vfs_synced (replay_from v h') \<and>
       (\<exists>synced. directory_sync (parent_path p) h' synced \<and>
          (synced \<longrightarrow> may_find (replay_from v h') p = {Some new}))
     else contents_at v h' p = contents_at v h p
       \<and> may_find (replay_from v h') p \<subseteq> may_find (replay_from v h) p))"
  using twpI [OF writeFileAtomic_returns [OF assms] writeFileAtomic_durable [of S p new mode h v]]
  unfolding durable_outcome_def replaced_def old_or_new_def kept_def .

theorem writeFileAtomic_atomic_witness:
  "twp (writeFileAtomic (file_os empty_vfs) ''/etc/x'' ''port=1'' 416 []) (\<lambda>r h'.
    along (\<lambda>g. (contents_at empty_vfs g ''/etc/x'' = contents_at empty_vfs [] ''/etc/x''
             \<or> contents_at empty_vfs g ''/etc/x'' = Some ''port=1''
               \<and> ''/etc/x'' \<in> vfs_synced (replay_from empty_vfs g))
           \<and> may_find (replay_from empty_vfs g) ''/etc/x''
               \<subseteq> insert (Some ''port=1'') (may_find (replay_from empty_vfs []) ''/etc/x'')) [] h' \<and>
    (if ok r then contents_at empty_vfs h' ''/etc/x'' = Some ''port=1''
         \<and> ''/etc/x'' \<in> vfs_synced (replay_from empty_vfs h') \<and>
         (\<exists>synced. directory_sync (parent_path ''/etc/x'') h' synced \<and>
            (synced \<longrightarrow> may_find (replay_from empty_vfs h') ''/etc/x'' = {Some ''port=1''}))
     else contents_at empty_vfs h' ''/etc/x'' = contents_at empty_vfs [] ''/etc/x''
       \<and> may_find (replay_from empty_vfs h') ''/etc/x'' \<subseteq> may_find (replay_from empty_vfs []) ''/etc/x''))"
  by (rule writeFileAtomic_atomic) (rule file_os_signals)

text \<open>C2: Directories are created without following links. For an absolute path,
  \<open>ensureDirectory\<close> returns, and each of its calls was allowed at its instant: a path on the way
  to the target is looked at or created only after everything above it on the way was seen, in
  this run, to be a directory that is not a symbolic link; it is created only with the requested
  mode and right after it was found not to exist; the only permissions it sets are the requested
  ones on the target, after the whole way was seen in this manner and none of its components is
  \<open>.\<close> or \<open>..\<close>; and nothing else is called. It reports success only after doing so.\<close>

theorem ensureDirectory_follows_no_link:
  assumes "is_absolute p"
  shows "twp (ensureDirectory S p mode h) (\<lambda>r h'.
    guarded (\<lambda>e g. case fst e of
        CLstat q \<Rightarrow> seen_above h (way p) q g
      | CMkdir q m \<Rightarrow> m = mode \<and> seen_above h (way p) q g \<and>
          (case g of (c, a) # _ \<Rightarrow> c = CLstat q \<and> r_ret a \<noteq> 0 \<and> cur_errno g = ENOENT | [] \<Rightarrow> False)
      | CChmod q m \<Rightarrow> q = p \<and> m = mode \<and> list_all (seen_directory (since h g)) (way p) \<and>
          ''.'' \<notin> set (path_elements (relative_path p)) \<and> ''..'' \<notin> set (path_elements (relative_path p))
      | _ \<Rightarrow> False) h h' \<and>
    (ok r \<longrightarrow> list_all (seen_directory (since h h')) (way p) \<and> (\<exists>a g. h' = (CChmod p mode, a) # g)))"
  using twpI [OF ensureDirectory_returns ensureDirectory_gwp [OF assms, unfolded gwp_def]]
  unfolding directory_guard_def [abs_def] .

theorem ensureDirectory_follows_no_link_witness:
  "twp (ensureDirectory (file_os empty_vfs) ''/run/tunproxy'' 448 []) (\<lambda>r h'.
    guarded (\<lambda>e g. case fst e of
        CLstat q \<Rightarrow> seen_above [] (way ''/run/tunproxy'') q g
      | CMkdir q m \<Rightarrow> m = 448 \<and> seen_above [] (way ''/run/tunproxy'') q g \<and>
          (case g of (c, a) # _ \<Rightarrow> c = CLstat q \<and> r_ret a \<noteq> 0 \<and> cur_errno g = ENOENT | [] \<Rightarrow> False)
      | CChmod q m \<Rightarrow> q = ''/run/tunproxy'' \<and> m = 448
          \<and> list_all (seen_directory (since [] g)) (way ''/run/tunproxy'') \<and>
          ''.'' \<notin> set (path_elements (relative_path ''/run/tunproxy''))
          \<and> ''..'' \<notin> set (path_elements (relative_path ''/run/tunproxy''))
      | _ \<Rightarrow> False) [] h' \<and>
    (ok r \<longrightarrow> list_all (seen_directory (since [] h')) (way ''/run/tunproxy'')
       \<and> (\<exists>a g. h' = (CChmod ''/run/tunproxy'' 448, a) # g)))"
  by (rule ensureDirectory_follows_no_link) (simp add: is_absolute_def)

end
