(* ===== verification/Paths.thy ===== *)
theory Paths
  imports Filesystem
begin

text \<open>
  \<^verbatim>\<open>include/tunproxy/paths.hpp\<close> and \<^verbatim>\<open>include/tunproxy/constants.hpp\<close>: the places the
  program works in and its fixed numbers. Durations are in milliseconds.
\<close>

definition kTunInterfaceName :: string where "kTunInterfaceName = ''tunproxy0''"
definition kTunAddress :: string where "kTunAddress = ''198.18.0.1/30''"
definition kTunAddressSpacePrefix :: "byte list" where "kTunAddressSpacePrefix = [198, 18]"
definition kTunAddressSpacePrefixBits :: nat where "kTunAddressSpacePrefixBits = 15"
definition kTunMtu :: nat where "kTunMtu = 1500"
definition kDnsServerAddress :: string where "kDnsServerAddress = ''1.1.1.1''"
definition kDnsServerPort :: nat where "kDnsServerPort = 443"
definition kDnsServerPath :: string where "kDnsServerPath = ''/dns-query''"
definition kDnsServerName :: string where "kDnsServerName = ''cloudflare-dns.com''"
definition kCoreConfigFileName :: string where "kCoreConfigFileName = ''sing-box.json''"
definition kCoreLogFileName :: string where "kCoreLogFileName = ''sing-box.log''"
definition kMaximumInterfaceCidrs :: nat where "kMaximumInterfaceCidrs = 1024"
definition kPollInterval :: nat where "kPollInterval = 100"
definition kTunReadyTimeout :: nat where "kTunReadyTimeout = 8000"
definition kTunReadyQuietPeriod :: nat where "kTunReadyQuietPeriod = 2000"
definition kTunRemovalTimeout :: nat where "kTunRemovalTimeout = 3000"
definition kCoreExecHandshakeTimeout :: nat where "kCoreExecHandshakeTimeout = 5000"
definition kCoreTerminateTimeout :: nat where "kCoreTerminateTimeout = 5000"
definition kCoreKillTimeout :: nat where "kCoreKillTimeout = 2000"
definition kCoreCheckTimeout :: nat where "kCoreCheckTimeout = 10000"
definition kCoreVersionTimeout :: nat where "kCoreVersionTimeout = 10000"
definition kDownloadConnectTimeout :: nat where "kDownloadConnectTimeout = 15000"
definition kDownloadMaxTime :: nat where "kDownloadMaxTime = 600000"
definition kDownloadProcessTimeout :: nat where "kDownloadProcessTimeout = 620000"
definition kDownloadAttempts :: nat where "kDownloadAttempts = 3"
definition kDownloadRetryDelay :: nat where "kDownloadRetryDelay = 1000"
definition kExtractTimeout :: nat where "kExtractTimeout = 60000"
definition kSha256Timeout :: nat where "kSha256Timeout = 30000"
definition kUpstreamProbeTimeout :: nat where "kUpstreamProbeTimeout = 3000"
definition kClientSocketTimeout :: nat where "kClientSocketTimeout = 30000"

lemmas constant_defs =
  kTunInterfaceName_def kTunAddress_def kTunAddressSpacePrefix_def kTunAddressSpacePrefixBits_def
  kTunMtu_def kDnsServerAddress_def kDnsServerPort_def kDnsServerPath_def kDnsServerName_def
  kCoreConfigFileName_def kCoreLogFileName_def kMaximumInterfaceCidrs_def kPollInterval_def
  kTunReadyTimeout_def kTunReadyQuietPeriod_def kTunRemovalTimeout_def
  kCoreExecHandshakeTimeout_def kCoreTerminateTimeout_def kCoreKillTimeout_def
  kCoreCheckTimeout_def kCoreVersionTimeout_def kDownloadConnectTimeout_def kDownloadMaxTime_def
  kDownloadProcessTimeout_def kDownloadAttempts_def kDownloadRetryDelay_def kExtractTimeout_def
  kSha256Timeout_def kUpstreamProbeTimeout_def kClientSocketTimeout_def

record app_paths =
  config_file :: string
  data_dir :: string
  cache_dir :: string
  runtime_dir :: string
  default_config :: string
  tun_device :: string
  tun_sysfs :: string
  curl_executable :: string
  tar_executable :: string
  sha256sum_executable :: string
  tun_interface :: string

definition default_paths :: app_paths where
  "default_paths =
     \<lparr>config_file = ''/etc/tunproxy/config'', data_dir = ''/var/lib/tunproxy'',
      cache_dir = ''/var/cache/tunproxy'', runtime_dir = ''/run/tunproxy'',
      default_config = ''/usr/share/tunproxy/config.default'',
      tun_device = ''/dev/net/tun'', tun_sysfs = ''/sys/class/misc/tun/dev'',
      curl_executable = ''/usr/bin/curl'', tar_executable = ''/usr/bin/tar'',
      sha256sum_executable = ''/usr/bin/sha256sum'', tun_interface = kTunInterfaceName\<rparr>"

definition lock_file :: "app_paths \<Rightarrow> string" where
  "lock_file P = path_append (runtime_dir P) ''lock''"

definition state_file :: "app_paths \<Rightarrow> string" where
  "state_file P = path_append (runtime_dir P) ''state''"

definition control_socket :: "app_paths \<Rightarrow> string" where
  "control_socket P = path_append (runtime_dir P) ''control.sock''"

definition core_config_file :: "app_paths \<Rightarrow> string" where
  "core_config_file P = path_append (runtime_dir P) kCoreConfigFileName"

definition core_log_file :: "app_paths \<Rightarrow> string" where
  "core_log_file P = path_append (runtime_dir P) kCoreLogFileName"


end
