(* ===== verification/Codec.thy ===== *)
theory Codec
  imports Paths
begin

text \<open>
  Two interfaces of the program's data at rest and in transit. \<open>text_codec\<close>: a printer and
  a parser of which the second undoes the first on well-formed values; the upstream URI, the
  configuration file, the runtime state file and the control commands are instances.
  \<open>text_store\<close> adds a file that is replaced atomically: what was saved is what the next
  load finds, and a failed save leaves the old value to be found.
\<close>

section \<open>Printer and parser\<close>

locale text_codec =
  fixes render :: "'a \<Rightarrow> 'b"
    and parse :: "'b \<Rightarrow> 'a result"
    and wf :: "'a \<Rightarrow> bool"
  assumes roundtrip: "wf x \<Longrightarrow> parse (render x) = Inr x"
begin

lemma render_inject: "wf x \<Longrightarrow> wf y \<Longrightarrow> render x = render y \<longleftrightarrow> x = y"
  using roundtrip by (metis sum.inject(2))

lemma render_inj_on: "inj_on render {x. wf x}"
  by (rule inj_onI) (simp add: render_inject)

lemma parse_unique: "wf x \<Longrightarrow> parse (render x) = Inr y \<Longrightarrow> y = x"
  by (simp add: roundtrip)

end

section \<open>A value kept in a file\<close>

text \<open>Both files are saved in this way: the directory first, then the atomic replacement.\<close>

lemma directory_then_write_wp:
  "wp (Option.bind (ensureDirectory S dir m h) (\<lambda>(d, g). case d of Inl e \<Rightarrow> Some (Inl e, g)
      | Inr _ \<Rightarrow> writeFileAtomic S p new mode g)) (atomic_outcome v p (contents_at v h p) new h)"
proof -
  have "wp (writeFileAtomic S p new mode g) (atomic_outcome v p (contents_at v h p) new h)"
    if q: "emits quiet h g" for g
  proof -
    have "contents_at v g p = contents_at v h p" using replay_quiet [OF q] by simp
    with writeFileAtomic_wp [of S p new mode g v]
    have "wp (writeFileAtomic S p new mode g) (atomic_outcome v p (contents_at v h p) new g)" by simp
    then show ?thesis by (rule wp_mono) (rule atomic_outcome_after_quiet [OF q])
  qed
  moreover have "atomic_outcome v p (contents_at v h p) new h (Inl e) g" if q: "emits quiet h g" for g e
    by (rule atomic_outcome_failed)
      (rule along_quiet [OF q, of "\<lambda>w. vfs_files w p = contents_at v h p"], simp)
  ultimately show ?thesis
    by (auto simp: wp_simps split: sum.splits intro!: wp_mono [OF ensureDirectory_quiet])
qed

lemma directory_then_write_returns:
  "signals_bounded S B \<Longrightarrow> returns (Option.bind (ensureDirectory S dir m h) (\<lambda>(d, g). case d of
      Inl e \<Rightarrow> Some (Inl e, g) | Inr _ \<Rightarrow> writeFileAtomic S p new mode g))"
  by (auto simp: returns_bind wp_simps ensureDirectory_returns writeFileAtomic_returns
      intro!: wpI split: sum.splits)

locale text_store = text_codec render parse wf
  for render :: "'a \<Rightarrow> string" and parse :: "string \<Rightarrow> 'a result" and wf :: "'a \<Rightarrow> bool" +
  fixes path :: string
    and save :: "os \<Rightarrow> 'a \<Rightarrow> hist \<Rightarrow> unit result run"
    and load :: "os \<Rightarrow> hist \<Rightarrow> 'a result run"
  assumes save_atomic:
      "wf x \<Longrightarrow> wp (save S x h) (atomic_outcome v path (contents_at v h path) (render x) h)"
    and load_contents:
      "reads_faithfully S v \<Longrightarrow> contents_at v h path = Some t \<Longrightarrow>
         twp (load S h) (\<lambda>r _. \<forall>x. parse t = Inr x \<longrightarrow> r = Inr x)"
begin

lemma save_load:
  assumes "wf x" and "reads_faithfully S v" and "save S x h = Some (Inr (), h')"
  shows "\<exists>h''. load S h' = Some (Inr x, h'')"
proof -
  have "contents_at v h' path = Some (render x)"
    using wpD [OF save_atomic [OF assms(1)] assms(3), of v] by (simp add: atomic_outcome_def)
  from twpD [OF load_contents [OF assms(2) this]] show ?thesis
    using roundtrip [OF assms(1)] by auto
qed

lemma save_fail_keeps:
  assumes "wf x" and "save S x h = Some (Inl e, h')"
  shows "contents_at v h' path = contents_at v h path"
  using wpD [OF save_atomic [OF assms(1)] assms(2), of v] by (simp add: atomic_outcome_def)

lemma crash_keeps:
  assumes "wf x" "wf y" and "contents_at v h path = Some (render y)"
    and "save S x h = Some (r, h')"
  shows "along (\<lambda>g. \<exists>z \<in> {x, y}. contents_at v g path = Some (render z)) h h'"
  using wpD [OF save_atomic [OF assms(1)] assms(4), of v] assms(3)
  unfolding atomic_outcome_def by (auto elim!: along_mono simp: old_or_new_def)

end

end
