(* ===== verification/Process.thy ===== *)
theory Process
  imports Codec
begin

text \<open>
  \<^verbatim>\<open>src/process.cpp\<close> and \<^verbatim>\<open>sha256File\<close> of \<^verbatim>\<open>src/filesystem.cpp\<close>: running a helper
  program with a time limit and capturing its output.

  \<open>runCapture\<close> is the parent; the history is its own. What the forked child goes on to do is
  \<open>utility_child\<close>. The lemmas show that the parent leaves no descriptor behind, and no child but
  one whose last wait failed; when it returns; that it waits without a limit only for a child it
  has just killed; and that a child of a privileged parent gives up its capabilities before it
  becomes the helper.
\<close>

section \<open>Descriptors and output\<close>

record process_output =
  exit_code :: int
  stdout_text :: string
  stderr_text :: string

datatype process_stream = Stdout | Stderr

type_synonym output_callback = "(process_stream \<Rightarrow> string \<Rightarrow> hist \<Rightarrow> unit run) option"

definition closeFd :: "os \<Rightarrow> int \<Rightarrow> hist \<Rightarrow> unit run" where
  "closeFd S fd h =
     (if 0 \<le> fd then do { (_, h) \<leftarrow> sys S (CClose fd) h; Some ((), h) } else Some ((), h))"

fun close_all :: "os \<Rightarrow> int list \<Rightarrow> hist \<Rightarrow> unit run" where
  "close_all S [] h = Some ((), h)"
| "close_all S (fd # fds) h = do { (_, h) \<leftarrow> closeFd S fd h; close_all S fds h }"

definition setNonBlocking :: "os \<Rightarrow> int \<Rightarrow> hist \<Rightarrow> bool run" where
  "setNonBlocking S fd h = do {
     (flags, h) \<leftarrow> sys S (CNet (NGetFlags fd)) h;
     if 0 \<le> r_ret flags then do {
       (changed, h) \<leftarrow> sys S (CNet (NSetFlags fd (r_ret flags) True)) h;
       Some (r_ret changed = 0, h)
     }
     else Some (False, h)
   }"

partial_function (option) readAvailable :: "os \<Rightarrow> int \<Rightarrow> string \<Rightarrow> hist \<Rightarrow> string run" where
  "readAvailable S fd result h = do {
     (count, h) \<leftarrow> sys S (CRead fd 4096) h;
     if 0 < r_ret count then
       readAvailable S fd (result @ take (nat (r_ret count)) (r_out count)) h
     else Some (result, h)
   }"

section \<open>The child\<close>

text \<open>
  \<^verbatim>\<open>SECBIT_NOROOT | SECBIT_NOROOT_LOCKED | SECBIT_NO_SETUID_FIXUP |
  SECBIT_NO_SETUID_FIXUP_LOCKED\<close>.
\<close>

definition required_securebits :: int where
  "required_securebits = 1 + 2 + 4 + 8"

definition dropUtilityCapabilities :: "os \<Rightarrow> hist \<Rightarrow> bool run" where
  "dropUtilityCapabilities S h = do {
     (uid, h) \<leftarrow> sys S CGeteuid h;
     if r_ret uid \<noteq> 0 then Some (True, h)
     else do {
       (current, h) \<leftarrow> sys S (CChild KGetSecurebits) h;
       if r_ret current < 0 then Some (False, h)
       else do {
         (set_ok, h) \<leftarrow>
           (if and (r_ret current) required_securebits \<noteq> required_securebits then do {
              (changed, h) \<leftarrow> sys S (CChild (KSetSecurebits required_securebits)) h;
              Some (r_ret changed = 0, h)
            }
            else Some (True, h));
         if \<not> set_ok then Some (False, h)
         else do {
           (cleared, h) \<leftarrow> sys S (CChild KClearAmbient) h;
           if r_ret cleared \<noteq> 0 \<and> cur_errno h \<noteq> EINVAL then Some (False, h)
           else do {
             (dropped, h) \<leftarrow> sys S (CChild KClearCapabilities) h;
             Some (r_ret dropped = 0, h)
           }
         }
       }
     }
   }"

text \<open>\<^verbatim>\<open>execv\<close> comes back only where it failed; \<^verbatim>\<open>_exit\<close> ends the child.\<close>

definition utility_child ::
  "os \<Rightarrow> int \<times> int \<Rightarrow> int \<times> int \<Rightarrow> string list \<Rightarrow> hist \<Rightarrow> unit run" where
  "utility_child S out_pipe err_pipe arguments h = do {
     (_, h) \<leftarrow> sys S (CChild (KDup2 (snd out_pipe) 1)) h;
     (_, h) \<leftarrow> sys S (CChild (KDup2 (snd err_pipe) 2)) h;
     (_, h) \<leftarrow> close_all S [fst out_pipe, snd out_pipe, fst err_pipe, snd err_pipe] h;
     (dropped, h) \<leftarrow> dropUtilityCapabilities S h;
     if \<not> dropped then do {
       (_, h) \<leftarrow> sys S (CChild (KExit 126)) h;
       Some ((), h)
     }
     else do {
       (replaced, h) \<leftarrow> sys S (CChild (KExecv (hd arguments) arguments)) h;
       if r_ret replaced < 0 then do {
         (_, h) \<leftarrow> sys S (CChild (KExit 127)) h;
         Some ((), h)
       }
       else Some ((), h)
     }
   }"

section \<open>The parent\<close>

definition deliver :: "output_callback \<Rightarrow> string \<Rightarrow> string \<Rightarrow> hist \<Rightarrow> unit run" where
  "deliver callback stdout_chunk stderr_chunk h =
     (case callback of
        None \<Rightarrow> Some ((), h)
      | Some f \<Rightarrow> do {
          (_, h) \<leftarrow> (if stdout_chunk \<noteq> [] then f Stdout stdout_chunk h else Some ((), h));
          if stderr_chunk \<noteq> [] then f Stderr stderr_chunk h else Some ((), h)
        })"

definition wait_status :: "resp \<Rightarrow> int" where
  "wait_status r = (case r_nums r of [] \<Rightarrow> 0 | s # _ \<Rightarrow> s)"

text \<open>
  The clock counts nanoseconds. The result is the wait status where the child ended in time, and what
  was read.
\<close>

partial_function (option) capture_loop ::
  "os \<Rightarrow> int \<Rightarrow> int \<Rightarrow> int \<Rightarrow> int \<Rightarrow> output_callback \<Rightarrow> string \<Rightarrow> string \<Rightarrow> hist
     \<Rightarrow> (int option \<times> string \<times> string) run" where
  "capture_loop S child out_fd err_fd deadline callback out err h = do {
     (now, h) \<leftarrow> sys S CNow h;
     if \<not> r_ret now < deadline then Some ((None, out, err), h)
     else do {
       (stdout_chunk, h) \<leftarrow> readAvailable S out_fd [] h;
       (stderr_chunk, h) \<leftarrow> readAvailable S err_fd [] h;
       (_, h) \<leftarrow> deliver callback stdout_chunk stderr_chunk h;
       (waited, h) \<leftarrow> sys S (CWaitpid child True) h;
       if r_ret waited = child then
         Some ((Some (wait_status waited), out @ stdout_chunk, err @ stderr_chunk), h)
       else if r_ret waited < 0 \<and> r_errno waited \<noteq> EINTR then
         Some ((None, out @ stdout_chunk, err @ stderr_chunk), h)
       else do {
         (_, h) \<leftarrow> sys S (CPoll [out_fd, err_fd] 25) h;
         capture_loop S child out_fd err_fd deadline callback
           (out @ stdout_chunk) (err @ stderr_chunk) h
       }
     }
   }"

text \<open>\<^verbatim>\<open>WIFEXITED\<close>, \<^verbatim>\<open>WEXITSTATUS\<close>, \<^verbatim>\<open>WIFSIGNALED\<close> and \<^verbatim>\<open>WTERMSIG\<close>; the field starts at - 1.\<close>

definition exit_code_of :: "int \<Rightarrow> int" where
  "exit_code_of status =
     (if status mod 128 = 0 then (status div 256) mod 256
      else if status mod 128 \<noteq> 127 then 128 + status mod 128
      else - 1)"

definition capture_child ::
  "os \<Rightarrow> int \<Rightarrow> int \<times> int \<Rightarrow> int \<times> int \<Rightarrow> nat \<Rightarrow> output_callback \<Rightarrow> hist \<Rightarrow> process_output result run" where
  "capture_child S child out_pipe err_pipe timeout callback h = do {
     (_, h) \<leftarrow> close_all S [snd out_pipe, snd err_pipe] h;
     (set_out, h) \<leftarrow> setNonBlocking S (fst out_pipe) h;
     (set_both, h) \<leftarrow> (if set_out then setNonBlocking S (fst err_pipe) h else Some (False, h));
     if \<not> set_both then do {
       (_, h) \<leftarrow> sys S (CKill child 9) h;
       (_, h) \<leftarrow> sys S (CWaitpid child False) h;
       (_, h) \<leftarrow> close_all S [fst out_pipe, fst err_pipe] h;
       Some (failure Generic (''fcntl failed: '' @ strerror S (cur_errno h)), h)
     }
     else do {
       (started, h) \<leftarrow> sys S CNow h;
       ((exited, out, err), h) \<leftarrow> capture_loop S child (fst out_pipe) (fst err_pipe)
          (r_ret started + int timeout * 1000000) callback [] [] h;
       case exited of
         None \<Rightarrow> do {
           (_, h) \<leftarrow> sys S (CKill child 9) h;
           (_, h) \<leftarrow> sys S (CWaitpid child False) h;
           (_, h) \<leftarrow> close_all S [fst out_pipe, fst err_pipe] h;
           Some (failure Generic ''process timed out'', h)
         }
       | Some status \<Rightarrow> do {
           (stdout_chunk, h) \<leftarrow> readAvailable S (fst out_pipe) [] h;
           (stderr_chunk, h) \<leftarrow> readAvailable S (fst err_pipe) [] h;
           (_, h) \<leftarrow> deliver callback stdout_chunk stderr_chunk h;
           (_, h) \<leftarrow> close_all S [fst out_pipe, fst err_pipe] h;
           Some (success \<lparr>exit_code = exit_code_of status, stdout_text = out @ stdout_chunk,
             stderr_text = err @ stderr_chunk\<rparr>, h)
         }
     }
   }"

definition pipe_of :: "resp \<Rightarrow> int \<times> int" where
  "pipe_of r = (case r_nums r of a # b # _ \<Rightarrow> (a, b) | _ \<Rightarrow> (- 1, - 1))"

definition runCapture ::
  "os \<Rightarrow> string list \<Rightarrow> nat \<Rightarrow> output_callback \<Rightarrow> hist \<Rightarrow> process_output result run" where
  "runCapture S arguments timeout callback h =
     (if arguments = [] \<or> hd arguments = [] then
        Some (failure InvalidArguments ''empty process command'', h)
      else do {
        (out_made, h) \<leftarrow> sys S CPipe h;
        if r_ret out_made \<noteq> 0 then
          Some (failure Generic (''pipe failed: '' @ strerror S (cur_errno h)), h)
        else do {
          let out_pipe = pipe_of out_made;
          (err_made, h) \<leftarrow> sys S CPipe h;
          if r_ret err_made \<noteq> 0 then do {
            (_, h) \<leftarrow> close_all S [fst out_pipe, snd out_pipe] h;
            Some (failure Generic (''pipe failed: '' @ strerror S (cur_errno h)), h)
          }
          else do {
            let err_pipe = pipe_of err_made;
            (child, h) \<leftarrow> sys S (CFork (Utility arguments)) h;
            if r_ret child < 0 then do {
              (_, h) \<leftarrow> close_all S [fst out_pipe, snd out_pipe, fst err_pipe, snd err_pipe] h;
              Some (failure Generic (''fork failed: '' @ strerror S (cur_errno h)), h)
            }
            else capture_child S (r_ret child) out_pipe err_pipe timeout callback h
          }
        }
      })"

section \<open>The checksum of a file\<close>

definition sha256File :: "os \<Rightarrow> string \<Rightarrow> string \<Rightarrow> hist \<Rightarrow> string result run" where
  "sha256File S path sha256sum h = do {
     (ran, h) \<leftarrow> runCapture S [sha256sum, ''--'', path] kSha256Timeout None h;
     case ran of
       Inl e \<Rightarrow> Some (Inl e, h)
     | Inr result \<Rightarrow>
         if exit_code result \<noteq> 0 then
           Some (failure Generic (''sha256sum failed: '' @ stderr_text result), h)
         else
           let text = stdout_text result; separator = find_str ''  '' text
           in if separator \<noteq> Some 64 \<or> length text < 64 then
                Some (failure Generic ''invalid sha256sum output'', h)
              else Some (success (take 64 text), h)
   }"

section \<open>What the parent leaves behind\<close>

text \<open>The children that were forked and that no wait has answered yet.\<close>

definition child_born :: "event \<Rightarrow> int set" where
  "child_born e = (case e of (CFork c, r) \<Rightarrow> if 0 < r_ret r then {r_ret r} else {} | _ \<Rightarrow> {})"

definition child_waited :: "event \<Rightarrow> int set" where
  "child_waited e =
     (case e of (CWaitpid p nohang, r) \<Rightarrow> if r_ret r = p then {p} else {} | _ \<Rightarrow> {})"

fun children :: "hist \<Rightarrow> int set" where
  "children [] = {}"
| "children (e # h) = (children h \<union> child_born e) - child_waited e"

definition fresh_children :: "os \<Rightarrow> bool" where
  "fresh_children S \<longleftrightarrow>
     (\<forall>h c. r_ret (answer S h (CFork c)) \<noteq> 0 \<and> r_ret (answer S h (CFork c)) \<notin> children h)"

lemmas child_defs = child_born_def child_waited_def

text \<open>Events that change neither descriptors nor children.\<close>

definition neutral :: "event \<Rightarrow> bool" where
  "neutral e \<longleftrightarrow> fd_neutral e \<and> child_born e = {} \<and> child_waited e = {}"

lemma neutral_calls [simp, intro]:
  "neutral (CRead fd n, a)" "neutral (CNow, a)" "neutral (CPoll fds t, a)" "neutral (CKill p s, a)"
  "neutral (CNet (NGetFlags fd), a)" "neutral (CNet (NSetFlags fd f b), a)" "neutral (CLog l m, a)"
  "neutral (CSleep n, a)"
  by (simp_all add: neutral_def fd_defs child_defs)

lemma logging_neutral: "log_call c \<Longrightarrow> neutral (c, r)"
  by (cases c rule: log_call.cases) (simp_all add: neutral_def fd_defs child_defs)

lemma neutral_keeps: "emits neutral h h' \<Longrightarrow> open_fds h' = open_fds h \<and> children h' = children h"
proof -
  assume "emits neutral h h'"
  then obtain es where es: "h' = es @ h" "list_all neutral es" by (auto simp: emits_def)
  from es(2) have "open_fds (es @ h) = open_fds h \<and> children (es @ h) = children h"
    by (induction es) (auto simp: neutral_def fd_neutral_def)
  with es(1) show ?thesis by simp
qed

definition quiet_callback :: "output_callback \<Rightarrow> bool" where
  "quiet_callback cb \<longleftrightarrow>
     (case cb of None \<Rightarrow> True
      | Some f \<Rightarrow> \<forall>s t h. returns (f s t h) \<and> wp (f s t h) (\<lambda>_ h'. emits logging h h'))"

text \<open>The bytes read from a descriptor.\<close>

fun read_bytes :: "int \<Rightarrow> hist \<Rightarrow> string" where
  "read_bytes fd [] = []"
| "read_bytes fd (e # h) = read_bytes fd h @
     (case e of (CRead f n, r) \<Rightarrow> if f = fd then take (nat (r_ret r)) (r_out r) else [] | _ \<Rightarrow> [])"

definition not_read :: "int \<Rightarrow> event \<Rightarrow> bool" where
  "not_read fd e \<longleftrightarrow> (case fst e of CRead f n \<Rightarrow> f \<noteq> fd | _ \<Rightarrow> True)"

lemma logging_not_read: "log_call c \<Longrightarrow> not_read fd (c, r)"
  by (cases c rule: log_call.cases) (simp_all add: not_read_def)

lemma not_read_keeps: "emits (not_read fd) h h' \<Longrightarrow> read_bytes fd h' = read_bytes fd h"
proof -
  assume "emits (not_read fd) h h'"
  then obtain es where es: "h' = es @ h" "list_all (not_read fd) es" by (auto simp: emits_def)
  from es(2) have "read_bytes fd (es @ h) = read_bytes fd h"
    by (induction es) (auto simp: not_read_def split: prod.splits call.splits)
  with es(1) show ?thesis by simp
qed

text \<open>What an operation of the parent does to descriptors, children and the two outputs.\<close>

definition same_io :: "hist \<Rightarrow> hist \<Rightarrow> bool" where
  "same_io h h' \<longleftrightarrow> extends h h' \<and> open_fds h' = open_fds h \<and> children h' = children h"

lemma same_io_refl [simp]: "same_io h h"
  by (simp add: same_io_def)

lemma same_io_trans: "same_io h h' \<Longrightarrow> same_io h' h'' \<Longrightarrow> same_io h h''"
  by (auto simp: same_io_def intro: extends_trans)

lemma same_io_Cons: "same_io h h' \<Longrightarrow> neutral e \<Longrightarrow> same_io h (e # h')"
  by (auto simp: same_io_def neutral_def fd_neutral_def)

lemma readAvailable_wp:
  "wp (readAvailable S fd acc h) (\<lambda>r h'. same_io h h' \<and>
     (\<exists>x. r = acc @ x \<and> read_bytes fd h' = read_bytes fd h @ x) \<and>
     (\<forall>fd'. fd' \<noteq> fd \<longrightarrow> read_bytes fd' h' = read_bytes fd' h))"
proof (rule wpI)
  fix r h' assume ret: "readAvailable S fd acc h = Some (r, h')"
  let ?post = "\<lambda>fd acc h res. same_io h (snd res) \<and>
     (\<exists>x. fst res = acc @ x \<and> read_bytes fd (snd res) = read_bytes fd h @ x) \<and>
     (\<forall>fd'. fd' \<noteq> fd \<longrightarrow> read_bytes fd' (snd res) = read_bytes fd' h)"
  have "?post fd acc h (r, h')"
  proof (rule readAvailable.raw_induct [where P = "\<lambda>S fd acc h res. ?post fd acc h res", OF _ ret], goal_cases)
    case (1 f S fd acc h res)
    note IH = 1(1) and eq = 1(2)
    let ?a = "answer S h (CRead fd 4096)"
    let ?h = "(CRead fd 4096, ?a) # h" and ?x = "take (nat (r_ret ?a)) (r_out ?a)"
    have io: "same_io h ?h" by (rule same_io_Cons) simp_all
    show ?case
    proof (cases "0 < r_ret ?a")
      case False
      with eq io show ?thesis by (auto simp: sys_def)
    next
      case True
      with eq have "f S fd (acc @ ?x) ?h = Some res" by (simp add: sys_def)
      from IH [OF this] same_io_trans [OF io] show ?thesis by auto
    qed
  qed
  then show "same_io h h' \<and> (\<exists>x. r = acc @ x \<and> read_bytes fd h' = read_bytes fd h @ x) \<and>
     (\<forall>fd'. fd' \<noteq> fd \<longrightarrow> read_bytes fd' h' = read_bytes fd' h)" by simp
qed

lemma deliver_wp:
  assumes "quiet_callback cb"
  shows "wp (deliver cb a b h) (\<lambda>_ h'. same_io h h' \<and> (\<forall>fd. read_bytes fd h' = read_bytes fd h))"
proof -
  have logs: "same_io g g' \<and> (\<forall>fd. read_bytes fd g' = read_bytes fd g)"
    if "emits logging g g'" for g g'
  proof -
    have "emits neutral g g'" using that by (rule emits_mono) (metis logging_neutral prod.collapse)
    moreover have "emits (not_read fd) g g'" for fd
      using that by (rule emits_mono) (metis logging_not_read prod.collapse)
    ultimately show ?thesis using neutral_keeps not_read_keeps by (auto simp: same_io_def intro: emits_extend)
  qed
  show ?thesis
  proof (cases cb)
    case None
    then show ?thesis by (simp add: deliver_def wp_Some)
  next
    case (Some f)
    have f: "wp (f s t g) (\<lambda>_ g'. same_io g g' \<and> (\<forall>fd. read_bytes fd g' = read_bytes fd g))" for s t g
    proof -
      have "wp (f s t g) (\<lambda>_. emits logging g)"
        using assms Some by (simp add: quiet_callback_def)
      then show ?thesis by (rule wp_mono) (rule logs)
    qed
    show ?thesis unfolding deliver_def Some option.case wp_bind prod.case wp_if
      by (auto simp: wp_Some intro!: wp_mono [OF f] intro: same_io_trans)
  qed
qed

lemma capture_loop_wp:
  assumes "quiet_callback cb" and "o_fd \<noteq> e_fd"
  shows "wp (capture_loop S child o_fd e_fd deadline cb out err h) (\<lambda>(ex, out', err') h'.
     extends h h' \<and> open_fds h' = open_fds h \<and> children h' = (if ex = None then children h else children h - {child}) \<and>
     (\<exists>x. out' = out @ x \<and> read_bytes o_fd h' = read_bytes o_fd h @ x) \<and>
     (\<exists>y. err' = err @ y \<and> read_bytes e_fd h' = read_bytes e_fd h @ y))"
proof (rule wpI, clarify)
  fix ex out' err' h' assume ret: "capture_loop S child o_fd e_fd deadline cb out err h = Some ((ex, out', err'), h')"
  let ?post = "\<lambda>child o_fd e_fd out err h res. extends h (snd res) \<and>
     open_fds (snd res) = open_fds h \<and>
     children (snd res) = (if fst (fst res) = None then children h else children h - {child}) \<and>
     (\<exists>x. fst (snd (fst res)) = out @ x \<and> read_bytes o_fd (snd res) = read_bytes o_fd h @ x) \<and>
     (\<exists>y. snd (snd (fst res)) = err @ y \<and> read_bytes e_fd (snd res) = read_bytes e_fd h @ y)"
  have "quiet_callback cb \<and> o_fd \<noteq> e_fd \<longrightarrow> ?post child o_fd e_fd out err h ((ex, out', err'), h')"
  proof (rule capture_loop.raw_induct [where P = "\<lambda>S child o_fd e_fd deadline cb out err h res.
        quiet_callback cb \<and> o_fd \<noteq> e_fd \<longrightarrow> ?post child o_fd e_fd out err h res", OF _ ret], intro impI, goal_cases)
    case (1 f S child o_fd e_fd deadline cb out err h res)
    note IH = 1(1) and eq = 1(2) and cb = 1(3)
    let ?h1 = "(CNow, answer S h CNow) # h"
    have io1: "same_io h ?h1" by (rule same_io_Cons) simp_all
    show ?case
    proof (cases "r_ret (answer S h CNow) < deadline")
      case False
      with eq have "res = ((None, out, err), ?h1)" by (auto simp: sys_def)
      with io1 show ?thesis by (auto simp: same_io_def)
    next
      case True
      from eq True obtain oc h2 ec h3 h4 where
        o: "readAvailable S o_fd [] ?h1 = Some (oc, h2)" and e: "readAvailable S e_fd [] h2 = Some (ec, h3)"
        and d: "deliver cb oc ec h3 = Some ((), h4)"
        and rest: "do {
            (waited, h) \<leftarrow> sys S (CWaitpid child True) h4;
            if r_ret waited = child then Some ((Some (wait_status waited), out @ oc, err @ ec), h)
            else if r_ret waited < 0 \<and> r_errno waited \<noteq> EINTR then Some ((None, out @ oc, err @ ec), h)
            else do {
              (_, h) \<leftarrow> sys S (CPoll [o_fd, e_fd] 25) h;
              f S child o_fd e_fd deadline cb (out @ oc) (err @ ec) h
            }
          } = Some res"
        by (auto simp: sys_def bind_eq_Some_conv)
      have io: "same_io h h4" and ro: "read_bytes o_fd h4 = read_bytes o_fd h @ oc"
        and re: "read_bytes e_fd h4 = read_bytes e_fd h @ ec"
        using wpD [OF readAvailable_wp o] wpD [OF readAvailable_wp e] wpD [OF deliver_wp d] cb
          same_io_trans [OF io1] by (auto intro: same_io_trans)
      let ?w = "answer S h4 (CWaitpid child True)"
      let ?h5 = "(CWaitpid child True, ?w) # h4"
      show ?thesis
      proof (cases "r_ret ?w = child")
        case True
        with rest have "res = ((Some (wait_status ?w), out @ oc, err @ ec), ?h5)" by (simp add: sys_def)
        with True io ro re show ?thesis by (auto simp: same_io_def fd_defs child_defs)
      next
        case more: False
        have io5: "same_io h ?h5" using io more by (auto simp: same_io_def fd_defs child_defs)
        show ?thesis
        proof (cases "r_ret ?w < 0 \<and> r_errno ?w \<noteq> EINTR")
          case True
          with more rest have "res = ((None, out @ oc, err @ ec), ?h5)" by (simp add: sys_def)
          with io5 ro re show ?thesis by (auto simp: same_io_def)
        next
          case False
          let ?h6 = "(CPoll [o_fd, e_fd] 25, answer S ?h5 (CPoll [o_fd, e_fd] 25)) # ?h5"
          from more False rest have "f S child o_fd e_fd deadline cb (out @ oc) (err @ ec) ?h6 = Some res"
            by (auto simp: sys_def split: if_splits)
          from IH [OF this] cb have p: "?post child o_fd e_fd (out @ oc) (err @ ec) ?h6 res" by blast
          have "same_io h ?h6" using io5 by (rule same_io_Cons) simp
          moreover have "read_bytes o_fd ?h6 = read_bytes o_fd h @ oc"
            "read_bytes e_fd ?h6 = read_bytes e_fd h @ ec" using ro re by simp_all
          ultimately show ?thesis using p extends_trans [of h ?h6] unfolding same_io_def
            by (metis append.assoc)
        qed
      qed
    qed
  qed
  with assms show "extends h h' \<and> open_fds h' = open_fds h \<and> children h' = (if ex = None then children h else children h - {child}) \<and>
     (\<exists>x. out' = out @ x \<and> read_bytes o_fd h' = read_bytes o_fd h @ x) \<and>
     (\<exists>y. err' = err @ y \<and> read_bytes e_fd h' = read_bytes e_fd h @ y)" by simp
qed

lemma close_all_wp:
  assumes "\<forall>fd \<in> set fds. 0 \<le> fd"
  shows "wp (close_all S fds h) (\<lambda>_ h'. extends h h' \<and> open_fds h' = open_fds h - set fds \<and> children h' = children h \<and>
    (\<forall>fd. read_bytes fd h' = read_bytes fd h))"
  using assms
proof (induction fds arbitrary: h)
  case Nil
  then show ?case by (simp add: wp_Some)
next
  case (Cons fd fds)
  let ?h = "(CClose fd, answer S h (CClose fd)) # h"
  have h: "open_fds ?h = open_fds h - {fd}" "children ?h = children h"
    by (auto simp: fd_defs child_defs)
  have "wp (close_all S fds ?h) (\<lambda>_ h'. extends h h' \<and> open_fds h' = open_fds h - set (fd # fds) \<and> children h' = children h \<and>
    (\<forall>fd. read_bytes fd h' = read_bytes fd h))"
    by (rule wp_mono [OF Cons.IH]) (use Cons.prems h extends_trans [of h ?h] in auto)
  then show ?case using Cons.prems by (simp add: closeFd_def wp_bind wp_sys wp_Some)
qed

lemma close_all_returns: "returns (close_all S fds h)"
  by (induction fds arbitrary: h) (auto simp: closeFd_def returns_bind wp_simps)

lemma setNonBlocking_wp:
  "wp (setNonBlocking S fd h) (\<lambda>_ h'. same_io h h' \<and> (\<forall>fd. read_bytes fd h' = read_bytes fd h))"
  by (auto simp: setNonBlocking_def wp_simps intro!: same_io_Cons)

lemma setNonBlocking_returns: "returns (setNonBlocking S fd h)"
  by (simp add: setNonBlocking_def returns_bind wp_simps)

text \<open>
  The last, blocking wait for a killed child, between \<open>h\<close> and \<open>h'\<close>, answered something else than
  the child: the call failed, and the child stays behind.
\<close>

definition wait_failed :: "int \<Rightarrow> hist \<Rightarrow> hist \<Rightarrow> bool" where
  "wait_failed child h h' \<longleftrightarrow>
     (\<exists>k w g. extends h g \<and> extends ((CWaitpid child False, w) # (CKill child 9, k) # g) h' \<and>
        r_ret w \<noteq> child)"

lemma wait_failed_mono: "wait_failed child h h' \<Longrightarrow> extends h0 h \<Longrightarrow> wait_failed child h0 h'"
  unfolding wait_failed_def using extends_trans by blast

text \<open>The parent's part, as one statement about what is left.\<close>

definition settled :: "int \<Rightarrow> int \<times> int \<Rightarrow> int \<times> int \<Rightarrow> hist \<Rightarrow> process_output result \<Rightarrow> hist \<Rightarrow> bool" where
  "settled child p q h r h' \<longleftrightarrow>
     open_fds h' = open_fds h - {fst p, snd p, fst q, snd q} \<and>
     (children h' = children h - {child} \<or>
        \<not> ok r \<and> children h' = children h \<and> wait_failed child h h') \<and>
     (case r of Inl e \<Rightarrow> err_code e = Generic
      | Inr out \<Rightarrow> read_bytes (fst p) h' = read_bytes (fst p) h @ stdout_text out \<and>
          read_bytes (fst q) h' = read_bytes (fst q) h @ stderr_text out)"

lemma settled_failed:
  assumes "open_fds g = open_fds h - {snd p, snd q}" and "children g = children h" and grown: "extends h g"
    and "0 \<le> fst p" "0 \<le> fst q" and "\<And>k. err_code (e k) = Generic"
  shows "wp (do {
        (_, h) \<leftarrow> sys S (CKill child 9) g;
        (_, h) \<leftarrow> sys S (CWaitpid child False) h;
        (_, h) \<leftarrow> close_all S [fst p, fst q] h;
        Some (Inl (e h), h)
      }) (settled child p q h)"
proof -
  let ?g1 = "(CKill child 9, answer S g (CKill child 9)) # g"
  let ?g2 = "(CWaitpid child False, answer S ?g1 (CWaitpid child False)) # ?g1"
  have o: "open_fds ?g2 = open_fds g" by (simp add: fd_defs)
  have c: "children ?g2 = children g - {child} \<or>
      children ?g2 = children g \<and> r_ret (answer S ?g1 (CWaitpid child False)) \<noteq> child"
    by (auto simp: child_defs)
  have f: "wait_failed child h h'" if "extends ?g2 h'" "r_ret (answer S ?g1 (CWaitpid child False)) \<noteq> child" for h'
    using grown that unfolding wait_failed_def by blast
  have "wp (close_all S [fst p, fst q] ?g2) (\<lambda>_ h'. settled child p q h (Inl (e h')) h')"
    by (rule wp_mono [OF close_all_wp]) (use assms o c f in \<open>auto simp: settled_def simp del: open_fds.simps children.simps\<close>)
  then show ?thesis by (simp only: wp_bind wp_sys wp_Some prod.case)
qed

lemma capture_child_wp:
  assumes cb: "quiet_callback cb" and fds: "distinct [fst p, snd p, fst q, snd q]"
    "0 \<le> fst p" "0 \<le> snd p" "0 \<le> fst q" "0 \<le> snd q"
  shows "wp (capture_child S child p q timeout cb h) (settled child p q h)"
proof -
  let ?after = "\<lambda>g. extends h g \<and> open_fds g = open_fds h - {snd p, snd q} \<and> children g = children h \<and>
    (\<forall>fd. read_bytes fd g = read_bytes fd h)"
  have keep: "?after g'" if "?after g" "same_io g g' \<and> (\<forall>fd. read_bytes fd g' = read_bytes fd g)" for g g'
    using that by (auto simp: same_io_def intro: extends_trans)
  have tail: "wp (do {
       (started, h) \<leftarrow> sys S CNow g;
       ((exited, out, err), h) \<leftarrow> capture_loop S child (fst p) (fst q)
          (r_ret started + int timeout * 1000000) cb [] [] h;
       case exited of
         None \<Rightarrow> do {
           (_, h) \<leftarrow> sys S (CKill child 9) h;
           (_, h) \<leftarrow> sys S (CWaitpid child False) h;
           (_, h) \<leftarrow> close_all S [fst p, fst q] h;
           Some (failure Generic ''process timed out'', h)
         }
       | Some status \<Rightarrow> do {
           (stdout_chunk, h) \<leftarrow> readAvailable S (fst p) [] h;
           (stderr_chunk, h) \<leftarrow> readAvailable S (fst q) [] h;
           (_, h) \<leftarrow> deliver cb stdout_chunk stderr_chunk h;
           (_, h) \<leftarrow> close_all S [fst p, fst q] h;
           Some (success \<lparr>exit_code = exit_code_of status, stdout_text = out @ stdout_chunk,
             stderr_text = err @ stderr_chunk\<rparr>, h)
         }
      }) (settled child p q h)" if g: "?after g" for g
    unfolding wp_bind wp_sys prod.case
  proof (rule wp_mono [OF capture_loop_wp [OF cb]], goal_cases)
    case 1
    then show ?case using fds(1) by simp
  next
    case (2 res g2)
    obtain ex out err where res: "res = (ex, out, err)" by (cases res)
    let ?g1 = "(CNow, answer S g CNow) # g"
    have g1: "open_fds ?g1 = open_fds g" "children ?g1 = children g" by (auto simp: fd_defs child_defs)
    have x2: "extends h g2" using 2 g unfolding res by (auto intro: extends_trans [of h ?g1])
    have o2: "open_fds g2 = open_fds h - {snd p, snd q}"
      and c2: "children g2 = (if ex = None then children h else children h - {child})"
      and r2: "read_bytes (fst p) g2 = read_bytes (fst p) h @ out" "read_bytes (fst q) g2 = read_bytes (fst q) h @ err"
      using 2 g g1 unfolding res by (auto simp: fd_defs child_defs)
    show ?case
    proof (cases ex)
      case None
      have "wp (do {
        (_, h) \<leftarrow> sys S (CKill child 9) g2;
        (_, h) \<leftarrow> sys S (CWaitpid child False) h;
        (_, h) \<leftarrow> close_all S [fst p, fst q] h;
        Some (Inl (makeError Generic ''process timed out''), h)
      }) (settled child p q h)"
        using o2 c2 x2 None fds by (intro settled_failed) simp_all
      then show ?thesis unfolding res None prod.case option.case by (simp only: wp_bind wp_sys prod.case)
    next
      case (Some status)
      show ?thesis unfolding res Some prod.case option.case wp_bind
      proof (rule wp_mono [OF readAvailable_wp], goal_cases)
        case (1 oc g3)
        note g3 = 1
        show ?case
        proof (rule wp_mono [OF readAvailable_wp], goal_cases)
          case (1 ec g4)
          note g4 = 1
          show ?case
          proof (rule wp_mono [OF deliver_wp [OF cb]], goal_cases)
            case (1 u g5)
            note g5 = 1
            have o5: "open_fds g5 = open_fds g2" "children g5 = children g2"
              using g3 g4 g5 by (auto simp: same_io_def)
            have r5: "read_bytes (fst p) g5 = read_bytes (fst p) g2 @ oc"
              "read_bytes (fst q) g5 = read_bytes (fst q) g2 @ ec"
              using g3 g4 g5 fds(1) by auto
            show ?case
              by (rule wp_mono [OF close_all_wp])
                (use o5 r5 o2 c2 r2 Some fds in \<open>auto simp: wp_Some settled_def\<close>)
          qed
        qed
      qed
    qed
  qed
  show ?thesis
    unfolding capture_child_def wp_bind prod.case
  proof (rule wp_mono [OF close_all_wp], goal_cases)
    case 1
    then show ?case using fds by simp
  next
    case (2 u g)
    have g: "?after g" using 2 by auto
    show ?case
    proof (rule wp_mono [OF setNonBlocking_wp], goal_cases)
      case (1 b g2)
      have g2: "?after g2" using keep [OF g 1] .
      have both: "wp (if b then setNonBlocking S (fst q) g2 else Some (False, g2)) (\<lambda>_ g3. ?after g3)"
        using g2 by (auto simp: wp_Some same_io_def intro!: wp_mono [OF setNonBlocking_wp] intro: extends_trans)
      show ?case
      proof (rule wp_mono [OF both], goal_cases)
        case (1 c g3)
        note g3 = 1
        show ?case
        proof (cases c)
          case True
          then show ?thesis using tail [OF g3] by (simp only: wp_bind simp_thms if_False prod.case)
        next
          case False
          have "wp (do {
            (_, h) \<leftarrow> sys S (CKill child 9) g3;
            (_, h) \<leftarrow> sys S (CWaitpid child False) h;
            (_, h) \<leftarrow> close_all S [fst p, fst q] h;
            Some (Inl (makeError Generic (''fcntl failed: '' @ strerror S (cur_errno h))), h)
            }) (settled child p q h)"
            using g3 fds by (intro settled_failed) simp_all
          with False show ?thesis by (simp only: wp_bind simp_thms if_True prod.case)
        qed
      qed
    qed
  qed
qed

text \<open>
  All that a run of a helper leaves behind is its result: descriptors and children are as before,
  but for a killed child that the wait for it did not get, and the texts are what was read from
  the two pipes, whose numbers were not in use before.
\<close>

definition leaves_nothing :: "hist \<Rightarrow> process_output result \<Rightarrow> hist \<Rightarrow> bool" where
  "leaves_nothing h r h' \<longleftrightarrow>
     open_fds h' = open_fds h \<and>
     (children h' = children h \<or>
        \<not> ok r \<and> (\<exists>child. children h' = insert child (children h) \<and> wait_failed child h h')) \<and>
     (case r of Inl e \<Rightarrow> err_code e \<in> {Generic, InvalidArguments}
      | Inr out \<Rightarrow> \<exists>a b. a \<notin> open_fds h \<and> b \<notin> open_fds h \<and>
          read_bytes a h' = read_bytes a h @ stdout_text out \<and>
          read_bytes b h' = read_bytes b h @ stderr_text out)"

lemma fresh_pipe:
  assumes "fresh_fds S" and "r_ret (answer S h CPipe) = 0"
  obtains a b where "pipe_of (answer S h CPipe) = (a, b)" "a \<noteq> b" "0 \<le> a" "0 \<le> b"
    "a \<notin> open_fds h" "b \<notin> open_fds h"
    "open_fds ((CPipe, answer S h CPipe) # h) = insert a (insert b (open_fds h))"
proof -
  from assms obtain a b where ab: "r_nums (answer S h CPipe) = [a, b]" "a \<noteq> b"
    unfolding fresh_fds_def by blast
  have o: "fds_opened (CPipe, answer S h CPipe) = {a, b}" using assms(2) ab by (simp add: fds_opened_def)
  have "{a, b} \<inter> open_fds h = {}" "\<forall>fd \<in> {a, b}. 0 \<le> fd"
    using assms(1) unfolding fresh_fds_def by (metis o)+
  with ab o show thesis by (intro that [of a b]) (auto simp: pipe_of_def fds_closed_def)
qed

lemma settled_nothing:
  assumes "settled child p q g r h'" and "open_fds g - {fst p, snd p, fst q, snd q} = open_fds h"
    and "children g = insert child (children h)" and "child \<notin> children h" and x: "extends h g"
    and "fst p \<notin> open_fds h" "fst q \<notin> open_fds h" and "\<And>fd. read_bytes fd g = read_bytes fd h"
  shows "leaves_nothing h r h'"
proof -
  have "children g - {child} = children h" using assms(3,4) by simp
  with assms(1) have c: "children h' = children h \<or>
      \<not> ok r \<and> (\<exists>child. children h' = insert child (children h) \<and> wait_failed child h h')"
    unfolding settled_def assms(3) using wait_failed_mono [OF _ x] by auto
  with assms show ?thesis unfolding settled_def leaves_nothing_def by (auto split: sum.splits)
qed

lemma runCapture_wp:
  assumes fds: "fresh_fds S" and ch: "fresh_children S" and cb: "quiet_callback cb"
  shows "wp (runCapture S arguments timeout cb h) (leaves_nothing h)"
proof (cases "arguments = [] \<or> hd arguments = []")
  case True
  then show ?thesis by (simp add: runCapture_def wp_Some leaves_nothing_def)
next
  case args: False
  let ?a1 = "answer S h CPipe"
  let ?h1 = "(CPipe, ?a1) # h"
  let ?a2 = "answer S ?h1 CPipe"
  let ?h2 = "(CPipe, ?a2) # ?h1"
  let ?f = "CFork (Utility arguments)"
  let ?c = "answer S ?h2 ?f"
  let ?h3 = "(?f, ?c) # ?h2"
  have born: "children ?h1 = children h" "children ?h2 = children h" by (auto simp: child_defs)
  show ?thesis
  proof (cases "r_ret ?a1 = 0")
    case False
    then show ?thesis using args born
      by (simp add: runCapture_def Let_def wp_bind wp_sys wp_Some leaves_nothing_def fd_defs)
  next
    case True
    obtain a b where p: "pipe_of ?a1 = (a, b)" "a \<noteq> b" "0 \<le> a" "0 \<le> b" "a \<notin> open_fds h" "b \<notin> open_fds h"
      "open_fds ?h1 = insert a (insert b (open_fds h))" by (rule fresh_pipe [OF fds True])
    show ?thesis
    proof (cases "r_ret ?a2 = 0")
      case False
      have o2: "open_fds ?h2 = open_fds ?h1" using False by (simp add: fd_defs)
      have "wp (close_all S [a, b] ?h2) (\<lambda>_ h'. leaves_nothing h
          (failure Generic (''pipe failed: '' @ strerror S (cur_errno h'))) h')"
        by (rule wp_mono [OF close_all_wp]) (use p o2 born in \<open>auto simp: leaves_nothing_def\<close>)
      with True False args p(1) show ?thesis
        by (simp add: runCapture_def Let_def wp_bind wp_sys wp_Some del: close_all.simps)
    next
      case ok2: True
      obtain c d where q: "pipe_of ?a2 = (c, d)" "c \<noteq> d" "0 \<le> c" "0 \<le> d" "c \<notin> open_fds ?h1" "d \<notin> open_fds ?h1"
        "open_fds ?h2 = insert c (insert d (open_fds ?h1))" by (rule fresh_pipe [OF fds ok2])
      have o3: "open_fds ?h3 = open_fds ?h2" by (simp add: fd_defs)
      have remaining: "open_fds ?h3 - {a, b, c, d} = open_fds h" using p q unfolding o3 by auto
      have cut: "open_fds ?h3 - set [a, b, c, d] = open_fds h" using remaining by simp
      show ?thesis
      proof (cases "r_ret ?c < 0")
        case True
        have "wp (close_all S [a, b, c, d] ?h3) (\<lambda>_ h'. leaves_nothing h
          (failure Generic (''fork failed: '' @ strerror S (cur_errno h'))) h')"
        proof (rule wp_mono [OF close_all_wp], goal_cases)
          case (2 u g)
          have "children ?h3 = children h" using True by (auto simp: child_defs)
          with 2 show ?case unfolding cut by (simp add: leaves_nothing_def)
        qed (use p q in simp)
        with True ok2 \<open>r_ret ?a1 = 0\<close> args p(1) q(1) show ?thesis
          by (simp add: runCapture_def Let_def wp_bind wp_sys wp_Some del: close_all.simps)
      next
        case False
        have new: "r_ret ?c \<noteq> 0" "r_ret ?c \<notin> children h"
          using ch born(2) unfolding fresh_children_def by metis+
        with False have "children ?h3 = insert (r_ret ?c) (children h)" using born by (auto simp: child_defs)
        then have i3: "children ?h3 = insert (r_ret ?c) (children h)" .
        have r3: "read_bytes fd ?h3 = read_bytes fd h" for fd by simp
        have "wp (capture_child S (r_ret ?c) (a, b) (c, d) timeout cb ?h3) (leaves_nothing h)"
        proof (rule wp_mono [OF capture_child_wp [OF cb]], goal_cases)
          case (6 r g)
          show ?case
            by (rule settled_nothing [OF 6 _ i3 new(2)]) (use remaining p q r3 in simp_all)
        qed (use p q in auto)
        with False ok2 \<open>r_ret ?a1 = 0\<close> args p(1) q(1) show ?thesis
          by (simp add: runCapture_def Let_def wp_bind wp_sys wp_Some)
      qed
    qed
  qed
qed

section \<open>The parent comes back\<close>

text \<open>
  Every reading of the clock shows a later nanosecond, and the helper writes only so much: after
  \<open>N\<close> reads that brought something, the pipes are empty.
\<close>

fun clock_reads :: "hist \<Rightarrow> nat" where
  "clock_reads [] = 0"
| "clock_reads (e # h) = (if fst e = CNow then Suc (clock_reads h) else clock_reads h)"

definition ticking :: "os \<Rightarrow> bool" where
  "ticking S \<longleftrightarrow> (\<forall>h. int (clock_reads h) \<le> r_ret (answer S h CNow))"

fun full_reads :: "hist \<Rightarrow> nat" where
  "full_reads [] = 0"
| "full_reads ((c, r) # h) =
     (case c of CRead fd n \<Rightarrow> if 0 < r_ret r then Suc (full_reads h) else full_reads h
      | _ \<Rightarrow> full_reads h)"

definition output_bounded :: "os \<Rightarrow> nat \<Rightarrow> bool" where
  "output_bounded S N \<longleftrightarrow>
     (\<forall>h fd n. N \<le> full_reads h \<longrightarrow> r_ret (answer S h (CRead fd n)) \<le> 0)"

text \<open>Events that are no reading of the clock.\<close>

definition timeless :: "event \<Rightarrow> bool" where
  "timeless e \<longleftrightarrow> fst e \<noteq> CNow"

lemma timeless_keeps: "emits timeless h h' \<Longrightarrow> clock_reads h' = clock_reads h"
proof -
  assume "emits timeless h h'"
  then obtain es where es: "h' = es @ h" "list_all timeless es" by (auto simp: emits_def)
  from es(2) have "clock_reads (es @ h) = clock_reads h"
    by (induction es) (auto simp: timeless_def)
  with es(1) show ?thesis by simp
qed

lemma readAvailable_returns:
  assumes "output_bounded S N"
  shows "returns (readAvailable S fd acc h)"
proof (induction "N - full_reads h" arbitrary: acc h rule: less_induct)
  case less
  let ?a = "answer S h (CRead fd 4096)"
  have "returns (readAvailable S fd (acc @ take (nat (r_ret ?a)) (r_out ?a)) ((CRead fd 4096, ?a) # h))"
    if "0 < r_ret ?a"
  proof (rule less)
    have "full_reads h < N" using assms that unfolding output_bounded_def by (meson not_le_imp_less not_less)
    with that show "N - full_reads ((CRead fd 4096, ?a) # h) < N - full_reads h" by simp
  qed
  then show ?case by (subst readAvailable.simps) (simp add: returns_bind wp_sys)
qed

lemma readAvailable_timeless: "wp (readAvailable S fd acc h) (\<lambda>_. emits timeless h)"
proof (rule wpI)
  fix r h' assume ret: "readAvailable S fd acc h = Some (r, h')"
  have "emits timeless h (snd (r, h'))"
  proof (rule readAvailable.raw_induct [where P = "\<lambda>S fd acc h res. emits timeless h (snd res)", OF _ ret], goal_cases)
    case (1 f S fd acc h res)
    let ?a = "answer S h (CRead fd 4096)"
    let ?h = "(CRead fd 4096, ?a) # h"
    show ?case
    proof (cases "0 < r_ret ?a")
      case True
      with 1(2) have "f S fd (acc @ take (nat (r_ret ?a)) (r_out ?a)) ?h = Some res" by (simp add: sys_def)
      from 1(1) [OF this] show ?thesis by (rule emits_trans_Cons [rotated]) (simp add: timeless_def)
    qed (use 1(2) in \<open>auto simp: sys_def timeless_def\<close>)
  qed
  then show "emits timeless h h'" by simp
qed

lemma deliver_timeless: "quiet_callback cb \<Longrightarrow> wp (deliver cb a b h) (\<lambda>_. emits timeless h)"
  and deliver_returns: "quiet_callback cb \<Longrightarrow> returns (deliver cb a b h)"
proof -
  assume cb: "quiet_callback cb"
  have f: "wp (f s t g) (\<lambda>_. emits timeless g)" "returns (f s t g)" if "cb = Some f" for f s t g
  proof -
    have "wp (f s t g) (\<lambda>_. emits logging g)" and r: "returns (f s t g)"
      using cb that by (simp_all add: quiet_callback_def)
    then show "wp (f s t g) (\<lambda>_. emits timeless g)"
      by (auto elim!: wp_mono emits_mono simp: timeless_def)
    show "returns (f s t g)" by (rule r)
  qed
  show "returns (deliver cb a b h)"
    by (cases cb) (auto simp: deliver_def returns_bind f intro!: wpI)
  show "wp (deliver cb a b h) (\<lambda>_. emits timeless h)"
  proof (cases cb)
    case (Some f)
    show ?thesis unfolding deliver_def Some option.case wp_bind prod.case wp_if
      by (auto simp: wp_Some intro!: wp_mono [OF f(1) [OF Some]] intro: emits_trans)
  qed (simp add: deliver_def wp_Some)
qed

lemma capture_loop_returns:
  assumes "ticking S" and "output_bounded S N" and cb: "quiet_callback cb"
  shows "returns (capture_loop S child o_fd e_fd deadline cb out err h)"
proof (induction "nat (deadline - int (clock_reads h))" arbitrary: out err h rule: less_induct)
  case less
  let ?h1 = "(CNow, answer S h CNow) # h"
  show ?case
  proof (cases "r_ret (answer S h CNow) < deadline")
    case False
    then show ?thesis by (subst capture_loop.simps) (simp add: returns_bind wp_sys)
  next
    case True
    have "int (clock_reads h) \<le> r_ret (answer S h CNow)" using assms(1) by (simp add: ticking_def)
    with True have early: "int (clock_reads h) < deadline" by simp
    note ret = readAvailable_returns [OF assms(2)] deliver_returns [OF cb]
    have step: "returns (capture_loop S child o_fd e_fd deadline cb out' err' g)"
      if "emits timeless ?h1 g" for out' err' g
      using early timeless_keeps [OF that] by (intro less) simp
    show ?thesis
      by (subst capture_loop.simps)
        (auto simp: returns_bind wp_sys wp_simps True ret
          intro!: wp_mono [OF readAvailable_timeless] wp_mono [OF deliver_timeless [OF cb]] step
          intro: emits_trans simp: timeless_def)
  qed
qed

lemma runCapture_returns:
  assumes "ticking S" and "output_bounded S N" and "quiet_callback cb"
  shows "returns (runCapture S arguments timeout cb h)"
proof -
  note ret = readAvailable_returns [OF assms(2)] deliver_returns [OF assms(3)] close_all_returns
    setNonBlocking_returns capture_loop_returns [OF assms]
  show ?thesis
    unfolding runCapture_def capture_child_def Let_def
    by (auto simp: returns_bind ret wp_simps simp del: close_all.simps split: option.splits intro!: wpI)
qed

text \<open>A helper that never stops writing keeps the loop in \<open>readAvailable\<close>, whatever the time limit.\<close>

lemma readAvailable_stuck:
  assumes "\<forall>h. 0 < r_ret (answer S h (CRead fd 4096))"
  shows "readAvailable S fd acc h = None"
proof (rule ccontr)
  assume "readAvailable S fd acc h \<noteq> None"
  then obtain res where "readAvailable S fd acc h = Some res" by auto
  then have "\<not> (\<forall>h. 0 < r_ret (answer S h (CRead fd 4096)))"
    by (rule readAvailable.raw_induct [rotated]) (auto simp: sys_def split: if_splits)
  with assms show False by simp
qed

section \<open>What the child gives up\<close>

text \<open>
  The privileges of a process as the kernel keeps them: its user, its secure bits, the ambient set
  and the permitted sets. \<open>privileges\<close> plays the calls of the child.
\<close>

record privileges =
  pr_root :: bool
  pr_securebits :: int
  pr_ambient :: bool
  pr_capable :: bool

fun child_step :: "child_call \<Rightarrow> privileges \<Rightarrow> privileges" where
  "child_step (KSetSecurebits b) p = p\<lparr>pr_securebits := b\<rparr>"
| "child_step KClearAmbient p = p\<lparr>pr_ambient := False\<rparr>"
| "child_step KClearCapabilities p = p\<lparr>pr_capable := False, pr_ambient := False\<rparr>"
| "child_step _ p = p"

fun privileges_of :: "privileges \<Rightarrow> hist \<Rightarrow> privileges" where
  "privileges_of p [] = p"
| "privileges_of p ((c, r) # h) =
     (case c of
        CChild k \<Rightarrow> if r_ret r = 0 then child_step k (privileges_of p h) else privileges_of p h
      | _ \<Rightarrow> privileges_of p h)"

text \<open>The kernel answers from these privileges.\<close>

definition answers_privileges :: "os \<Rightarrow> privileges \<Rightarrow> bool" where
  "answers_privileges S p \<longleftrightarrow>
     (\<forall>h. (r_ret (answer S h CGeteuid) = 0 \<longleftrightarrow> pr_root p) \<and>
        (0 \<le> r_ret (answer S h (CChild KGetSecurebits)) \<longrightarrow>
           r_ret (answer S h (CChild KGetSecurebits)) = pr_securebits (privileges_of p h)))"

text \<open>
  Harmless: not root, or without capabilities and with the bits that keep an \<^verbatim>\<open>execve\<close> of root
  from getting them back.
\<close>

definition harmless :: "privileges \<Rightarrow> bool" where
  "harmless p \<longleftrightarrow> \<not> pr_root p \<or> \<not> pr_capable p \<and> \<not> pr_ambient p \<and>
     and (pr_securebits p) required_securebits = required_securebits"

lemma child_step_root [simp]: "pr_root (child_step k p) = pr_root p"
  by (cases k) simp_all

lemma privileges_root [simp]: "pr_root (privileges_of p es) = pr_root p"
proof (induction es)
  case (Cons e es)
  obtain c r where "e = (c, r)" by (cases e)
  with Cons show ?case by (cases c) simp_all
qed simp

fun execs :: "call \<Rightarrow> bool" where
  "execs (CChild (KExecv path arguments)) = True"
| "execs _ = False"

definition execs_harmless :: "privileges \<Rightarrow> event \<Rightarrow> hist \<Rightarrow> bool" where
  "execs_harmless p e h \<longleftrightarrow> (execs (fst e) \<longrightarrow> harmless (privileges_of p h))"

lemma close_all_closes: "wp (close_all S fds h) (\<lambda>_. emits (\<lambda>e. \<exists>fd. fst e = CClose fd) h)"
proof (induction fds arbitrary: h)
  case (Cons fd fds)
  let ?P = "\<lambda>e::event. \<exists>fd. fst e = CClose fd"
  have "wp (close_all S fds (e # h)) (\<lambda>_. emits ?P h)" if "?P e" for e
    by (rule wp_mono [OF Cons.IH]) (rule emits_trans_Cons [where P = ?P, OF that])
  with Cons show ?case by (simp add: closeFd_def wp_bind wp_sys wp_Some)
qed (simp add: wp_Some)


lemma dropUtilityCapabilities_wp:
  assumes "answers_privileges S p"
  shows "wp (dropUtilityCapabilities S h) (\<lambda>b h'. guarded (execs_harmless p) h h' \<and>
    (b \<longrightarrow> harmless (privileges_of p h')))"
proof -
  have G: "guarded (execs_harmless p) h (e # g)"
    if "\<not> execs (fst e)" "guarded (execs_harmless p) h g" for e g
    using that by (intro guarded_Cons) (simp_all add: execs_harmless_def)
  have root: "answered S g CGeteuid a \<Longrightarrow> r_ret a = 0 \<longleftrightarrow> pr_root p" for g a
    using assms by (simp add: answers_privileges_def answered_def)
  have secure: "answered S g (CChild KGetSecurebits) a \<Longrightarrow> \<not> r_ret a < 0 \<Longrightarrow>
      r_ret a = pr_securebits (privileges_of p g)" for g a
    using assms by (simp add: answers_privileges_def answered_def)
  show ?thesis
    unfolding dropUtilityCapabilities_def wp_bind wp_call prod.case wp_if wp_Some
    by (intro conjI impI allI) (auto simp: G harmless_def dest: root secure split: if_splits)
qed

lemma utility_child_wp:
  assumes "answers_privileges S p"
  shows "wp (utility_child S out_pipe err_pipe arguments h) (\<lambda>_ h'. guarded (execs_harmless p) h h')"
proof -
  have G: "guarded (execs_harmless p) h (e # g)"
    if "guarded (execs_harmless p) h g" "execs (fst e) \<longrightarrow> harmless (privileges_of p g)" for e g
    using that by (intro guarded_Cons) (simp_all add: execs_harmless_def)
  let ?start = "(CChild (KDup2 (snd err_pipe) 2), answer S ((CChild (KDup2 (snd out_pipe) 1),
    answer S h (CChild (KDup2 (snd out_pipe) 1))) # h) (CChild (KDup2 (snd err_pipe) 2))) #
    (CChild (KDup2 (snd out_pipe) 1), answer S h (CChild (KDup2 (snd out_pipe) 1))) # h"
  show ?thesis
    unfolding utility_child_def wp_bind prod.case wp_sys
  proof (rule wp_mono [OF close_all_closes], goal_cases)
    case (1 u g)
    have "guarded (execs_harmless p) ?start g" by (rule emits_guarded [OF 1]) (auto simp: execs_harmless_def)
    then have g: "guarded (execs_harmless p) h g" by (rule guarded_trans) (simp add: G)
    show ?case
    proof (rule wp_mono [OF dropUtilityCapabilities_wp [OF assms]], goal_cases)
      case (1 b g2)
      then have "guarded (execs_harmless p) h g2" using g by (auto intro: guarded_trans)
      with 1 show ?case unfolding wp_if wp_bind wp_call wp_Some prod.case by (auto simp: G)
    qed
  qed
qed

section \<open>The calls of a run\<close>

text \<open>
  A wait without a limit for \<open>p\<close> is due: \<^verbatim>\<open>SIGKILL\<close> was just sent to \<open>p\<close>, or such a wait was just
  interrupted, or a read of four bytes, the handshake with a new core, has just brought something
  else than the end of the pipe (so the core reported that it did not start).
\<close>

fun wait_due :: "int \<Rightarrow> hist \<Rightarrow> bool" where
  "wait_due p ((CKill q s, a) # h) \<longleftrightarrow> q = p \<and> s = 9"
| "wait_due p ((CWaitpid q nohang, a) # h) \<longleftrightarrow>
     q = p \<and> \<not> nohang \<and> r_ret a < 0 \<and> r_errno a = EINTR \<and> wait_due p h"
| "wait_due p ((CClose fd, a) # e # h) \<longleftrightarrow> fst e = CRead fd 4 \<and> r_ret (snd e) \<noteq> 0"
| "wait_due p h \<longleftrightarrow> False"

fun parent_call :: "call \<Rightarrow> bool" where
  "parent_call (CClose fd) = True"
| "parent_call (CRead fd n) = True"
| "parent_call CNow = True"
| "parent_call (CPoll fds t) = (0 \<le> t)"
| "parent_call (CWaitpid p nohang) = nohang"
| "parent_call (CNet (NGetFlags fd)) = True"
| "parent_call (CNet (NSetFlags fd f b)) = True"
| "parent_call c = log_call c"

text \<open>
  Only the helper asked for is started, only a child not yet waited for is killed, and only a child
  just killed is waited for without a limit.
\<close>

definition helper_call :: "string list \<Rightarrow> call \<Rightarrow> hist \<Rightarrow> bool" where
  "helper_call arguments c h \<longleftrightarrow>
     parent_call c \<or> c = CPipe \<or> c = CFork (Utility arguments) \<or>
     (\<exists>p. c = CKill p 9 \<and> p \<in> children h) \<or> (\<exists>p. c = CWaitpid p False \<and> wait_due p h)"

abbreviation helping :: "event \<Rightarrow> hist \<Rightarrow> bool" where
  "helping \<equiv> \<lambda>e g. parent_call (fst e)"

abbreviation helper_guard :: "string list \<Rightarrow> event \<Rightarrow> hist \<Rightarrow> bool" where
  "helper_guard arguments \<equiv> \<lambda>e g. helper_call arguments (fst e) g"

lemma logging_parent: "log_call c \<Longrightarrow> parent_call c"
  by (cases c rule: log_call.cases) simp_all

lemma parent_helper: "parent_call c \<Longrightarrow> helper_call arguments c h"
  by (simp add: helper_call_def)

lemma readAvailable_calls: "gwp helping h (readAvailable S fd acc h) (\<lambda>_ _. True)"
proof -
  have "emits (\<lambda>e. parent_call (fst e)) h (snd res)" if ret: "readAvailable S fd acc h = Some res" for res
  proof (rule readAvailable.raw_induct [where P = "\<lambda>S fd acc h res. emits (\<lambda>e. parent_call (fst e)) h (snd res)", OF _ ret], goal_cases)
    case (1 f S fd acc h res)
    let ?a = "answer S h (CRead fd 4096)"
    let ?h = "(CRead fd 4096, ?a) # h"
    show ?case
    proof (cases "0 < r_ret ?a")
      case True
      with 1(2) have "f S fd (acc @ take (nat (r_ret ?a)) (r_out ?a)) ?h = Some res" by (simp add: sys_def)
      from 1(1) [OF this] show ?thesis by (rule emits_trans_Cons [rotated]) simp
    qed (use 1(2) in \<open>auto simp: sys_def\<close>)
  qed
  then show ?thesis unfolding gwp_def guarded_emits by (force intro: wpI)
qed

lemma deliver_calls: "quiet_callback cb \<Longrightarrow> gwp helping h (deliver cb a b h) (\<lambda>_ _. True)"
proof -
  assume cb: "quiet_callback cb"
  have "gwp helping g (f s t g) (\<lambda>_ _. True)" if "cb = Some f" for f s t g
    using cb that by (auto simp: quiet_callback_def intro!: gwp_emits [of _ logging] logging_parent)
  then show ?thesis
    unfolding deliver_def by (intro gwp_intros gwp_bind [where Q = "\<lambda>_ _. True"] TrueI; simp)
qed

lemma capture_loop_calls:
  assumes cb: "quiet_callback cb"
  shows "gwp helping h (capture_loop S child o_fd e_fd deadline cb out err h) (\<lambda>_ _. True)"
proof -
  have "quiet_callback cb \<longrightarrow> emits (\<lambda>e. parent_call (fst e)) h (snd res)"
    if ret: "capture_loop S child o_fd e_fd deadline cb out err h = Some res" for res
  proof (rule capture_loop.raw_induct [where P = "\<lambda>S child o_fd e_fd deadline cb out err h res.
        quiet_callback cb \<longrightarrow> emits (\<lambda>e. parent_call (fst e)) h (snd res)", OF _ ret], intro impI, goal_cases)
    case (1 f S child o_fd e_fd deadline cb out err h res)
    have rec: "gwp helping g (f S child o_fd e_fd deadline cb x y g) (\<lambda>_ _. True)" for x y g
      unfolding gwp_def guarded_emits using 1(1,3) by (force intro: wpI)
    have "gwp helping h (do {
     (now, h) \<leftarrow> sys S CNow h;
     if \<not> r_ret now < deadline then Some ((None, out, err), h)
     else do {
       (stdout_chunk, h) \<leftarrow> readAvailable S o_fd [] h;
       (stderr_chunk, h) \<leftarrow> readAvailable S e_fd [] h;
       (_, h) \<leftarrow> deliver cb stdout_chunk stderr_chunk h;
       (waited, h) \<leftarrow> sys S (CWaitpid child True) h;
       if r_ret waited = child then
         Some ((Some (wait_status waited), out @ stdout_chunk, err @ stderr_chunk), h)
       else if r_ret waited < 0 \<and> r_errno waited \<noteq> EINTR then
         Some ((None, out @ stdout_chunk, err @ stderr_chunk), h)
       else do {
         (_, h) \<leftarrow> sys S (CPoll [o_fd, e_fd] 25) h;
         f S child o_fd e_fd deadline cb (out @ stdout_chunk) (err @ stderr_chunk) h
       }
     }
   }) (\<lambda>_ _. True)"
      by (intro gwp_intros rec gwp_bind [OF readAvailable_calls] gwp_bind [OF deliver_calls [OF 1(3)]] TrueI) simp_all
    then show ?case unfolding 1(2) gwp_def guarded_emits by (cases res) (simp add: wp_Some)
  qed
  with cb show ?thesis unfolding gwp_def guarded_emits by (force intro: wpI)
qed

lemma close_all_calls: "gwp helping h (close_all S fds h) (\<lambda>_ _. True)"
  by (rule gwp_emits [OF close_all_closes]) auto

lemma setNonBlocking_calls: "gwp helping h (setNonBlocking S fd h) (\<lambda>_ _. True)"
  unfolding setNonBlocking_def by (intro gwp_intros TrueI) simp_all

lemma gwp_conj: "gwp G h m R \<Longrightarrow> wp m Q \<Longrightarrow> gwp G h m (\<lambda>r h'. R r h' \<and> Q r h')"
  unfolding gwp_def by (drule wp_conj, assumption, erule wp_mono) simp

lemma helper_of: "gwp helping h m R \<Longrightarrow> gwp (helper_guard args) h m R"
  by (erule gwp_weaken) (rule parent_helper)

lemmas readAvailable_helper = helper_of [OF readAvailable_calls]
lemmas deliver_helper = helper_of [OF deliver_calls]
lemmas close_all_helper = helper_of [OF close_all_calls]

lemma closing_children: "emits (\<lambda>e. \<exists>fd. fst e = CClose fd) h h' \<Longrightarrow> children h' = children h"
proof -
  assume "emits (\<lambda>e. \<exists>fd. fst e = CClose fd) h h'"
  then obtain es where es: "h' = es @ h" "list_all (\<lambda>e. \<exists>fd. fst e = CClose fd) es" by (auto simp: emits_def)
  have "child_born e = {} \<and> child_waited e = {}" if "\<exists>fd. fst e = CClose fd" for e
    using that by (cases e) (auto simp: child_defs)
  with es(2) have "children (es @ h) = children h" by (induction es) auto
  with es(1) show ?thesis by simp
qed

lemma close_all_children:
  "gwp (helper_guard args) h (close_all S fds h) (\<lambda>_ h'. children h' = children h)"
proof -
  have "wp (close_all S fds h) (\<lambda>_ h'. children h' = children h)"
    by (rule wp_mono [OF close_all_closes]) (rule closing_children)
  from gwp_conj [OF close_all_helper this] show ?thesis by (rule gwp_mono) simp
qed

lemma setNonBlocking_children:
  "gwp (helper_guard args) h (setNonBlocking S fd h) (\<lambda>_ h'. children h' = children h)"
  by (rule gwp_mono [OF gwp_conj [OF helper_of [OF setNonBlocking_calls] setNonBlocking_wp]])
    (auto simp: same_io_def)

lemma capture_loop_children:
  assumes "quiet_callback cb" and "o_fd \<noteq> e_fd"
  shows "gwp (helper_guard args) h (capture_loop S child o_fd e_fd deadline cb out err h)
    (\<lambda>(ex, _, _) h'. ex = None \<longrightarrow> children h' = children h)"
  by (rule gwp_mono [OF gwp_conj [OF helper_of [OF capture_loop_calls [OF assms(1)]]
        capture_loop_wp [OF assms]]]) auto

lemma kill_wait_helper:
  assumes "child \<in> children h"
  shows "gwp (helper_guard args) h (do {
        (_, h) \<leftarrow> sys S (CKill child 9) h;
        (_, h) \<leftarrow> sys S (CWaitpid child False) h;
        (_, h) \<leftarrow> close_all S fds h;
        Some (e h, h)
      }) (\<lambda>_ _. True)"
  by (intro gwp_intros gwp_bind [OF close_all_helper] TrueI) (use assms in \<open>simp_all add: helper_call_def\<close>)

lemma capture_child_calls:
  assumes cb: "quiet_callback cb" and child: "child \<in> children h" and fds: "fst p \<noteq> fst q"
  shows "gwp (helper_guard args) h (capture_child S child p q timeout cb h) (\<lambda>_ _. True)"
proof -
  have both: "gwp (helper_guard args) g (if b then setNonBlocking S fd g else Some (False, g))
      (\<lambda>_ h'. children h' = children g)" for b fd g
    by (intro gwp_if setNonBlocking_children gwp_ret) simp
  show ?thesis
    unfolding capture_child_def
    by (intro gwp_if gwp_option gwp_split gwp_pair gwp_ret gwp_bind [OF close_all_children]
        gwp_bind [OF setNonBlocking_children] gwp_bind [OF both] kill_wait_helper
        gwp_bind [OF capture_loop_children [OF cb fds]] gwp_bind [OF readAvailable_helper]
        gwp_bind [OF deliver_helper [OF cb]] gwp_call [where c = CNow];
      (simp add: helper_call_def; fail)?) (use child in \<open>auto simp: child_defs\<close>)
qed

lemma fork_answered:
  assumes "fresh_children S" and "answered S h (CFork c) a" and "\<not> r_ret a < 0"
  shows "r_ret a \<in> children ((CFork c, a) # h)"
proof -
  have "r_ret a \<noteq> 0" using assms by (simp add: fresh_children_def answered_def)
  with assms(3) show ?thesis by (simp add: child_defs)
qed

lemma pipes_answered:
  assumes fresh: "fresh_fds S" and a: "answered S h CPipe a" "r_ret a = 0"
    and b: "answered S ((CPipe, a) # h) CPipe b" "r_ret b = 0"
  shows "fst (pipe_of a) \<noteq> fst (pipe_of b)"
proof -
  obtain x y where p: "pipe_of a = (x, y)" "open_fds ((CPipe, a) # h) = insert x (insert y (open_fds h))"
    using fresh_pipe [OF fresh, of h] a unfolding answered_def by metis
  obtain u v where q: "pipe_of b = (u, v)" "u \<notin> open_fds ((CPipe, a) # h)"
    using fresh_pipe [OF fresh, of "(CPipe, a) # h"] b unfolding answered_def by metis
  from p q show ?thesis by auto
qed

lemma runCapture_calls:
  assumes fresh: "fresh_fds S" "fresh_children S" and cb: "quiet_callback cb"
  shows "gwp (helper_guard args) h (runCapture S args timeout cb h) (\<lambda>_ _. True)"
  unfolding runCapture_def Let_def
  by (intro gwp_ret gwp_if gwp_call gwp_bind [OF close_all_helper] gwp_pair TrueI capture_child_calls [OF cb])
    (simp_all add: helper_call_def fork_answered [OF fresh(2)] pipes_answered [OF fresh(1)]
      del: children.simps)

text \<open>The kernel numbers descriptors and processes freshly.\<close>

definition fresh_kernel :: "os \<Rightarrow> bool" where
  "fresh_kernel S \<longleftrightarrow> fresh_fds S \<and> fresh_children S"

lemma no_callback [simp]: "quiet_callback None"
  by (simp add: quiet_callback_def)

lemma runCapture_guard:
  assumes "fresh_kernel S" and "quiet_callback cb"
    and "\<And>e g. parent_call (fst e) \<or> fst e = CPipe \<Longrightarrow> G e g"
    and "\<And>e g p. fst e = CKill p 9 \<Longrightarrow> p \<in> children g \<Longrightarrow> G e g"
    and "\<And>e g p. fst e = CWaitpid p False \<Longrightarrow> wait_due p g \<Longrightarrow> G e g"
    and "\<And>e g. fst e = CFork (Utility a) \<Longrightarrow> extends h g \<Longrightarrow> G e g"
  shows "gwp G h (runCapture S a t cb h) (\<lambda>_ _. True)"
proof -
  have "guarded (\<lambda>e g. helper_call a (fst e) g \<and> extends h g) h h'" if "guarded (helper_guard a) h h'" for h'
    using that by (induction rule: guarded.induct) (auto intro: guarded_Cons dest: guarded_extend)
  then have "gwp (\<lambda>e g. helper_call a (fst e) g \<and> extends h g) h (runCapture S a t cb h) (\<lambda>_ _. True)"
    using runCapture_calls [of S cb a h t] assms(1,2) unfolding gwp_def fresh_kernel_def by (auto elim: wp_mono)
  then show ?thesis by (rule gwp_weaken) (auto simp: helper_call_def intro: assms(3-6))
qed

section \<open>A kernel with processes\<close>

text \<open>
  Descriptors and process ids are numbered upwards, the clock ticks, pipes are empty and every child
  has ended.
\<close>

definition next_pid :: "hist \<Rightarrow> int" where
  "next_pid h = int (Suc (nat (Max (insert 0 (children h)))))"

definition helper_answer :: "hist \<Rightarrow> call \<Rightarrow> resp" where
  "helper_answer h c =
     (case c of
        CFork k \<Rightarrow> done_resp (next_pid h) []
      | CNow \<Rightarrow> done_resp (int (clock_reads h)) []
      | CWaitpid p nohang \<Rightarrow> done_resp p []
      | CRead fd n \<Rightarrow> done_resp 0 []
      | _ \<Rightarrow> count_answer h c)"

definition helper_os :: os where
  "helper_os = count_os\<lparr>answer := helper_answer\<rparr>"

lemma finite_children: "finite (children h)"
  by (induction h) (auto simp: child_born_def split: call.splits)

lemma next_pid_new: "next_pid h \<notin> children h" "0 < next_pid h"
proof -
  have "x < next_pid h" if "x \<in> children h" for x
  proof -
    have "x \<le> Max (insert 0 (children h))" using that finite_children by simp
    then show ?thesis unfolding next_pid_def by linarith
  qed
  then show "next_pid h \<notin> children h" by blast
  show "0 < next_pid h" by (simp add: next_pid_def)
qed

lemma helper_os_fresh_children: "fresh_children helper_os"
  using next_pid_new by (simp add: fresh_children_def helper_os_def helper_answer_def done_resp_def less_imp_neq [symmetric])

lemma helper_os_fresh: "fresh_fds helper_os"
proof -
  have eq: "fds_opened (c, helper_answer h c) = fds_opened (c, count_answer h c)" for h c
    by (cases c) (simp_all add: helper_answer_def fds_opened_def)
  have pipe: "helper_answer h CPipe = count_answer h CPipe" for h by (simp add: helper_answer_def)
  show ?thesis using count_os_fresh by (simp add: fresh_fds_def helper_os_def count_os_def eq pipe)
qed

lemma helper_os_kernel: "fresh_kernel helper_os"
  using helper_os_fresh helper_os_fresh_children by (simp add: fresh_kernel_def)

lemma helper_os_ticking: "ticking helper_os"
  by (simp add: ticking_def helper_os_def helper_answer_def done_resp_def)

lemma helper_os_output: "output_bounded helper_os 0"
  by (simp add: output_bounded_def helper_os_def helper_answer_def done_resp_def)


section \<open>Properties\<close>



text \<open>C20: A helper program never runs with the daemon's privileges. Whatever calls of the child
  fail, the forked child becomes the program only at an instant at which it is not root, or has an
  empty capability set and locked secure bits that keep the program from getting capabilities
  back.\<close>

theorem utility_child_execs_harmless:
  assumes "answers_privileges S p"
  shows "wp (utility_child S out_pipe err_pipe arguments h)
    (\<lambda>_ h'. guarded (\<lambda>e g. if execs (fst e) then harmless (privileges_of p g) else True) h h')"
  using utility_child_wp [OF assms] unfolding execs_harmless_def by simp

definition root_answer :: "privileges \<Rightarrow> hist \<Rightarrow> call \<Rightarrow> resp" where
  "root_answer p h c =
     (case c of
        CGeteuid \<Rightarrow> done_resp (if pr_root p then 0 else 1000) []
      | CChild KGetSecurebits \<Rightarrow> done_resp (pr_securebits (privileges_of p h)) []
      | _ \<Rightarrow> done_resp 0 [])"

theorem utility_child_execs_harmless_witness:
  "wp (utility_child (count_os\<lparr>answer := root_answer \<lparr>pr_root = True, pr_securebits = 0, pr_ambient = True, pr_capable = True\<rparr>\<rparr>)
        (3, 4) (5, 6) [''/usr/bin/curl''] [])
    (\<lambda>_ h'. guarded (\<lambda>e g. if execs (fst e) then harmless (privileges_of \<lparr>pr_root = True, pr_securebits = 0, pr_ambient = True, pr_capable = True\<rparr> g) else True) [] h')"
  by (rule utility_child_execs_harmless) (simp add: answers_privileges_def root_answer_def done_resp_def)

text \<open>C21: The time limit does not bound a helper that keeps writing. If every read of its standard
  output brings more, the capturing loop never returns, however small the limit, once its first
  look at the clock was before the deadline.\<close>

theorem capture_never_ends_on_endless_output:
  assumes "\<forall>h. 0 < r_ret (answer S h (CRead out_fd 4096))"
    and "r_ret (answer S h CNow) < deadline"
  shows "capture_loop S child out_fd err_fd deadline cb out err h = None"
  using assms(2) by (subst capture_loop.simps) (simp add: sys_def readAvailable_stuck [OF assms(1)])

theorem capture_never_ends_on_endless_output_witness:
  "capture_loop (file_os empty_vfs\<lparr>answer := \<lambda>h c. done_resp (case c of CRead fd n \<Rightarrow> int n | _ \<Rightarrow> 0) ''y''\<rparr>)
     7 3 5 1 None [] [] [] = None"
  by (rule capture_never_ends_on_endless_output) (simp_all add: done_resp_def)

end
