(* ===== verification/CoreManager.thy ===== *)
theory CoreManager
  imports Process
begin

text \<open>
  \<^verbatim>\<open>src/core_manager.cpp\<close> and the pinned release of
  \<^verbatim>\<open>include/tunproxy/core_manifest.hpp\<close>: downloading, verifying and installing the core.

  The lemmas say what may be executed and installed when: a downloaded file becomes the core,
  or is run at all, only after the checksum helper gave the pinned checksum for it.
\<close>

section \<open>The release\<close>

record core_manifest =
  cm_version :: string
  cm_revision :: string
  cm_asset_name :: string
  cm_download_url :: string
  cm_archive_size :: "64 word"
  cm_archive_sha256 :: string
  cm_binary_member :: string
  cm_binary_size :: "64 word"
  cm_binary_sha256 :: string
  cm_license_member :: string
  cm_license_sha256 :: string

definition kSingBoxRelease :: core_manifest where
  "kSingBoxRelease =
     \<lparr>cm_version = ''1.13.18'',
      cm_revision = ''45ca32dcb966f07f97fc888fe8586e359dbe8405'',
      cm_asset_name = ''sing-box-1.13.18-linux-amd64.tar.gz'',
      cm_download_url = ''https://github.com/SagerNet/sing-box/releases/download/v1.13.18/'' @
        ''sing-box-1.13.18-linux-amd64.tar.gz'',
      cm_archive_size = 23922330,
      cm_archive_sha256 = ''d34d987ed6ae39ca3760269264fb502b867e5477db45518c829b07776245c495'',
      cm_binary_member = ''sing-box-1.13.18-linux-amd64/sing-box'',
      cm_binary_size = 58102016,
      cm_binary_sha256 = ''8cb29c5b743fbda33502a2b6d49cf66ce13f5d1a41fcd0afc53fff17184ccf8e'',
      cm_license_member = ''sing-box-1.13.18-linux-amd64/LICENSE'',
      cm_license_sha256 = ''650d5e3b99a446fb38e820fa87a49562e0c79eab868fff58618ac487a58e554c''\<rparr>"

record core_info =
  ci_executable :: string
  ci_version :: string
  ci_revision :: string

section \<open>Helpers\<close>

definition processFailureDetail :: "process_output result \<Rightarrow> string" where
  "processFailureDetail process =
     (case process of
        Inl e \<Rightarrow> err_message e
      | Inr out \<Rightarrow>
          if stderr_text out \<noteq> [] then stderr_text out
          else ''process exited with status '' @ show_int (exit_code out))"

text \<open>The destructor of \<^verbatim>\<open>TemporaryTree\<close>.\<close>

definition remove_tree :: "os \<Rightarrow> string \<Rightarrow> hist \<Rightarrow> unit run" where
  "remove_tree S path h = do { (_, h) \<leftarrow> sys S (CRemoveAll path) h; Some ((), h) }"

text \<open>\<^verbatim>\<open>lstat\<close> answers the kind, the owner and the size.\<close>

definition st_uid :: "resp \<Rightarrow> int" where
  "st_uid r = (case r_nums r of u # _ \<Rightarrow> u | _ \<Rightarrow> 0)"

definition st_size :: "resp \<Rightarrow> int" where
  "st_size r = (case r_nums r of _ # s # _ \<Rightarrow> s | _ \<Rightarrow> 0)"

definition regularFileSize :: "os \<Rightarrow> string \<Rightarrow> hist \<Rightarrow> (64 word) result run" where
  "regularFileSize S path h = do {
     (status, h) \<leftarrow> sys S (CLstat path) h;
     if r_ret status \<noteq> 0 \<or> r_kind status \<noteq> KReg then
       Some (failure CoreVerificationFailure ''core file is missing or is not a regular file'', h)
     else do {
       (foreign, h) \<leftarrow>
         (if st_uid status \<noteq> 0 then do {
            (uid, h) \<leftarrow> sys S CGeteuid h;
            Some (r_ret uid = 0, h)
          }
          else Some (False, h));
       if foreign then Some (failure CoreVerificationFailure ''core file is not owned by root'', h)
       else Some (success (word_of_int (st_size status)), h)
     }
   }"

definition renameReplacing :: "os \<Rightarrow> string \<Rightarrow> string \<Rightarrow> hist \<Rightarrow> unit result run" where
  "renameReplacing S source destination h = do {
     (renamed, h) \<leftarrow> sys S (CRename source destination) h;
     if r_ret renamed \<noteq> 0 then
       Some (failure CoreVerificationFailure ''atomic core replacement failed'', h)
     else do {
       (directory, h) \<leftarrow> sys S (COpen (parent_path destination) [O_RDONLY, O_DIRECTORY, O_CLOEXEC] 0) h;
       if 0 \<le> r_ret directory then do {
         (_, h) \<leftarrow> sys S (CFsync (r_ret directory)) h;
         (_, h) \<leftarrow> sys S (CClose (r_ret directory)) h;
         Some (success (), h)
       }
       else Some (success (), h)
     }
   }"

definition startsWith :: "string \<Rightarrow> string \<Rightarrow> bool" where
  "startsWith t prefix \<longleftrightarrow> take (length prefix) t = prefix"

fun remove_entries ::
  "os \<Rightarrow> string \<Rightarrow> string \<Rightarrow> file_kind \<Rightarrow> string list \<Rightarrow> hist \<Rightarrow> unit run" where
  "remove_entries S directory prefix expected [] h = Some ((), h)"
| "remove_entries S directory prefix expected (name # names) h =
     (if \<not> startsWith name prefix then remove_entries S directory prefix expected names h
      else do {
        let entry = path_append directory name;
        (status, h) \<leftarrow> sys S (CSymlinkStatus entry) h;
        if r_ret status \<noteq> 0 \<or> r_kind status \<noteq> expected then
          remove_entries S directory prefix expected names h
        else do {
          (_, h) \<leftarrow> sys S (if expected = KDir then CRemoveAll entry else CRemove entry) h;
          remove_entries S directory prefix expected names h
        }
      })"

definition removeStaleArtifacts ::
  "os \<Rightarrow> string \<Rightarrow> string \<Rightarrow> file_kind \<Rightarrow> hist \<Rightarrow> unit run" where
  "removeStaleArtifacts S directory prefix expected h = do {
     (entries, h) \<leftarrow> sys S (CListDir directory) h;
     if r_ret entries \<noteq> 0 then Some ((), h)
     else remove_entries S directory prefix expected (r_names entries) h
   }"

section \<open>Verification\<close>

text \<open>The members \<^verbatim>\<open>paths_\<close> and \<^verbatim>\<open>manifest_\<close> are the arguments \<open>P\<close> and \<open>M\<close>.\<close>

definition cores_directory :: "app_paths \<Rightarrow> string" where
  "cores_directory P = path_append (data_dir P) ''cores''"

definition coreDirectory :: "app_paths \<Rightarrow> core_manifest \<Rightarrow> string" where
  "coreDirectory P M = path_append (cores_directory P) (cm_version M)"

definition corePath :: "app_paths \<Rightarrow> core_manifest \<Rightarrow> string" where
  "corePath P M = path_append (coreDirectory P M) ''sing-box''"

definition verifyCandidate ::
  "os \<Rightarrow> app_paths \<Rightarrow> core_manifest \<Rightarrow> string \<Rightarrow> hist \<Rightarrow> core_info result run" where
  "verifyCandidate S P M executable h = do {
     (file_size, h) \<leftarrow> regularFileSize S executable h;
     if file_size \<noteq> Inr (cm_binary_size M) then
       Some (failure CoreVerificationFailure ''sing-box binary size mismatch'', h)
     else do {
       (hash, h) \<leftarrow> sha256File S executable (sha256sum_executable P) h;
       if hash \<noteq> Inr (cm_binary_sha256 M) then
         Some (failure CoreVerificationFailure ''sing-box binary checksum mismatch'', h)
       else do {
         (version, h) \<leftarrow> runCapture S [executable, ''version''] kCoreVersionTimeout None h;
         case version of
           Inl e \<Rightarrow> Some (failure CoreVerificationFailure
             ''cannot execute verified sing-box version command'', h)
         | Inr out \<Rightarrow>
             if exit_code out \<noteq> 0 then Some (failure CoreVerificationFailure
               ''cannot execute verified sing-box version command'', h)
             else if find_str (''sing-box version '' @ cm_version M) (stdout_text out) = None
                 \<or> find_str (''Revision: '' @ cm_revision M) (stdout_text out) = None
             then Some (failure CoreVerificationFailure ''sing-box version or revision mismatch'', h)
             else Some (success \<lparr>ci_executable = executable, ci_version = cm_version M,
               ci_revision = cm_revision M\<rparr>, h)
       }
     }
   }"

definition license_path :: "app_paths \<Rightarrow> core_manifest \<Rightarrow> string" where
  "license_path P M = path_append (coreDirectory P M) ''LICENSE''"

definition verifyInstalledCore ::
  "os \<Rightarrow> app_paths \<Rightarrow> core_manifest \<Rightarrow> hist \<Rightarrow> core_info result run" where
  "verifyInstalledCore S P M h = do {
     (license_hash, h) \<leftarrow> sha256File S (license_path P M) (sha256sum_executable P) h;
     if license_hash \<noteq> Inr (cm_license_sha256 M) then
       Some (failure CoreVerificationFailure ''sing-box license is missing or invalid'', h)
     else verifyCandidate S P M (corePath P M) h
   }"

section \<open>Download and installation\<close>

definition part_name :: "core_manifest \<Rightarrow> string" where
  "part_name M = cm_asset_name M @ ''.part.''"

text \<open>The durations are given to \<^verbatim>\<open>curl\<close> in seconds.\<close>

definition curl_arguments :: "app_paths \<Rightarrow> core_manifest \<Rightarrow> string \<Rightarrow> string list" where
  "curl_arguments P M archive =
     [curl_executable P, ''--fail'', ''--progress-bar'', ''--location'', ''--proto'', ''=https'',
      ''--tlsv1.2'', ''--connect-timeout'', show_nat (kDownloadConnectTimeout div 1000),
      ''--max-time'', show_nat (kDownloadMaxTime div 1000), ''--output'', archive, cm_download_url M]"

definition download_progress :: "log_callback \<Rightarrow> output_callback" where
  "download_progress L =
     Some (\<lambda>stream chunk h. if stream = Stderr then emitLog L Progress chunk h else Some ((), h))"

definition download_note :: "core_manifest \<Rightarrow> nat \<Rightarrow> string" where
  "download_note M attempt =
     ''Downloading sing-box '' @ cm_version M @
     (if attempt = 0 then []
      else '' (attempt '' @ show_nat (attempt + 1) @ ''/'' @ show_nat kDownloadAttempts @ '')'')"

definition download_done :: "process_output result \<Rightarrow> bool" where
  "download_done r \<longleftrightarrow> (case r of Inl e \<Rightarrow> False | Inr out \<Rightarrow> exit_code out = 0)"

text \<open>\<open>left\<close> attempts remain; the sum of \<open>attempt\<close> and \<open>left\<close> is \<open>kDownloadAttempts\<close>.\<close>

fun download_attempts ::
  "os \<Rightarrow> app_paths \<Rightarrow> core_manifest \<Rightarrow> log_callback \<Rightarrow> string \<Rightarrow> nat \<Rightarrow> nat
     \<Rightarrow> process_output result \<Rightarrow> hist \<Rightarrow> process_output result run" where
  "download_attempts S P M L archive attempt 0 download h = Some (download, h)"
| "download_attempts S P M L archive attempt (Suc left) download h = do {
     (_, h) \<leftarrow> emitLog L Info (download_note M attempt) h;
     (_, h) \<leftarrow> sys S (CRemove archive) h;
     (download, h) \<leftarrow> runCapture S (curl_arguments P M archive) kDownloadProcessTimeout
       (download_progress L) h;
     (_, h) \<leftarrow> emitLog L Progress [nl] h;
     if download_done download then Some (download, h)
     else do {
       (_, h) \<leftarrow> emitLog L Warning (''download failed: '' @ processFailureDetail download) h;
       (_, h) \<leftarrow> (if attempt + 1 < kDownloadAttempts then do {
           (_, h) \<leftarrow> sys S (CSleep kDownloadRetryDelay) h;
           Some ((), h)
         }
         else Some ((), h));
       download_attempts S P M L archive (attempt + 1) left download h
     }
   }"

definition tar_arguments :: "app_paths \<Rightarrow> core_manifest \<Rightarrow> string \<Rightarrow> string \<Rightarrow> string list" where
  "tar_arguments P M archive staging =
     [tar_executable P, ''--extract'', ''--gzip'', ''--file'', archive, ''--directory'', staging,
      ''--strip-components=1'', ''--no-same-owner'', ''--no-same-permissions'', ''--'',
      cm_binary_member M, cm_license_member M]"

definition extract_detail :: "process_output result \<Rightarrow> string" where
  "extract_detail r = (case r of Inl e \<Rightarrow> err_message e | Inr out \<Rightarrow> stderr_text out)"

text \<open>From the extracted candidate to the installed core.\<close>

definition install_core ::
  "os \<Rightarrow> app_paths \<Rightarrow> core_manifest \<Rightarrow> log_callback \<Rightarrow> string \<Rightarrow> hist \<Rightarrow> core_info result run" where
  "install_core S P M L staging h = do {
     let candidate = path_append staging ''sing-box'';
     (changed, h) \<leftarrow> sys S (CChmod candidate 493) h;
     if r_ret changed \<noteq> 0 then
       Some (failure CoreVerificationFailure ''cannot set sing-box executable permissions'', h)
     else do {
       (verified, h) \<leftarrow> verifyCandidate S P M candidate h;
       if \<not> ok verified then Some (verified, h)
       else do {
         (license_hash, h) \<leftarrow> sha256File S (path_append staging ''LICENSE'') (sha256sum_executable P) h;
         if license_hash \<noteq> Inr (cm_license_sha256 M) then
           Some (failure CoreVerificationFailure ''sing-box license checksum mismatch'', h)
         else do {
           (installed_license, h) \<leftarrow>
             renameReplacing S (path_append staging ''LICENSE'') (license_path P M) h;
           case installed_license of Inl e \<Rightarrow> Some (Inl e, h)
           | Inr _ \<Rightarrow> do {
               (installed, h) \<leftarrow> renameReplacing S candidate (corePath P M) h;
               case installed of Inl e \<Rightarrow> Some (Inl e, h)
               | Inr _ \<Rightarrow> do {
                   (_, h) \<leftarrow> emitLog L Info (''sing-box '' @ cm_version M @ '' installed'') h;
                   verifyInstalledCore S P M h
                 }
             }
         }
       }
     }
   }"

definition download_and_install ::
  "os \<Rightarrow> app_paths \<Rightarrow> core_manifest \<Rightarrow> log_callback \<Rightarrow> string \<Rightarrow> string \<Rightarrow> hist \<Rightarrow> core_info result run" where
  "download_and_install S P M L archive staging h = do {
     (download, h) \<leftarrow> download_attempts S P M L archive 0 kDownloadAttempts
       (failure CoreDownloadFailure ''download not attempted'') h;
     if \<not> download_done download then
       Some (failure CoreDownloadFailure
         (''sing-box download failed: '' @ processFailureDetail download), h)
     else do {
       (archive_size, h) \<leftarrow> regularFileSize S archive h;
       if archive_size \<noteq> Inr (cm_archive_size M) then
         Some (failure CoreVerificationFailure ''sing-box archive size mismatch'', h)
       else do {
         (archive_hash, h) \<leftarrow> sha256File S archive (sha256sum_executable P) h;
         if archive_hash \<noteq> Inr (cm_archive_sha256 M) then
           Some (failure CoreVerificationFailure ''sing-box archive checksum mismatch'', h)
         else do {
           (extract, h) \<leftarrow> runCapture S (tar_arguments P M archive staging) kExtractTimeout None h;
           if \<not> download_done extract then
             Some (failure CoreVerificationFailure
               (''cannot extract verified sing-box archive: '' @ extract_detail extract), h)
           else install_core S P M L staging h
         }
       }
     }
   }"

text \<open>File modes, octal in the source: \<open>0700 = 448\<close>, \<open>0750 = 488\<close>, \<open>0755 = 493\<close>.\<close>

definition repairCore ::
  "os \<Rightarrow> app_paths \<Rightarrow> core_manifest \<Rightarrow> log_callback \<Rightarrow> hist \<Rightarrow> core_info result run" where
  "repairCore S P M L h = do {
     (cache_directory, h) \<leftarrow> ensureDirectory S (cache_dir P) 448 h;
     case cache_directory of Inl e \<Rightarrow> Some (Inl e, h)
     | Inr _ \<Rightarrow> do {
         (cores, h) \<leftarrow> ensureDirectory S (cores_directory P) 488 h;
         case cores of Inl e \<Rightarrow> Some (Inl e, h)
         | Inr _ \<Rightarrow> do {
             (version_directory, h) \<leftarrow> ensureDirectory S (coreDirectory P M) 488 h;
             case version_directory of Inl e \<Rightarrow> Some (Inl e, h)
             | Inr _ \<Rightarrow> do {
                 (_, h) \<leftarrow> removeStaleArtifacts S (coreDirectory P M) ''.staging.'' KDir h;
                 (_, h) \<leftarrow> removeStaleArtifacts S (cache_dir P) (part_name M) KReg h;
                 (pid, h) \<leftarrow> sys S CGetpid h;
                 let suffix = show_int (r_ret pid);
                 let archive = path_append (cache_dir P) (part_name M @ suffix);
                 let staging = path_append (coreDirectory P M) (''.staging.'' @ suffix);
                 (made, h) \<leftarrow> sys S (CMkdir staging 448) h;
                 if r_ret made \<noteq> 0 then
                   Some (failure CoreDownloadFailure ''cannot create core staging directory'', h)
                 else do {
                   (core, h) \<leftarrow> download_and_install S P M L archive staging h;
                   (_, h) \<leftarrow> remove_tree S archive h;
                   (_, h) \<leftarrow> remove_tree S staging h;
                   Some (core, h)
                 }
               }
           }
       }
   }"

definition ensureCore ::
  "os \<Rightarrow> app_paths \<Rightarrow> core_manifest \<Rightarrow> log_callback \<Rightarrow> hist \<Rightarrow> core_info result run" where
  "ensureCore S P M L h = do {
     (installed, h) \<leftarrow> verifyInstalledCore S P M h;
     case installed of
       Inr info \<Rightarrow> Some (success info, h)
     | Inl e \<Rightarrow> do {
         (_, h) \<leftarrow> emitLog L Warning (''sing-box '' @ cm_version M @
           '' missing or failed verification: '' @ err_message e) h;
         repairCore S P M L h
       }
   }"

section \<open>What may be executed and installed\<close>

text \<open>The checksum helper was run on \<open>path\<close> and gave \<open>expected\<close>, before \<open>h\<close>.\<close>

definition hash_seen :: "os \<Rightarrow> app_paths \<Rightarrow> string \<Rightarrow> string \<Rightarrow> hist \<Rightarrow> bool" where
  "hash_seen S P path expected h \<longleftrightarrow>
     (\<exists>g g'. sha256File S path (sha256sum_executable P) g = Some (Inr expected, g') \<and> extends g' h)"

lemma hash_seen_mono: "hash_seen S P path expected h \<Longrightarrow> extends h h' \<Longrightarrow> hash_seen S P path expected h'"
  unfolding hash_seen_def using extends_trans by blast

text \<open>
  The calls that matter: a program started is one of the three tools, the archive is extracted
  only after its checksum was seen, and a file is run as the core or moved into the place of the
  core or its license only after its own was seen. Files are only opened for reading, only
  children not yet waited for are killed, and only where \<open>wait_due\<close> says so is a child waited for
  without a limit. No lock is taken or given up.
\<close>

fun core_ok :: "os \<Rightarrow> app_paths \<Rightarrow> core_manifest \<Rightarrow> call \<Rightarrow> hist \<Rightarrow> bool" where
  "core_ok S P M (CFork (Utility a)) h \<longleftrightarrow>
     (\<exists>path. a = [sha256sum_executable P, ''--'', path]) \<or>
     (\<exists>archive. a = curl_arguments P M archive) \<or>
     (\<exists>archive staging. a = tar_arguments P M archive staging \<and>
        hash_seen S P archive (cm_archive_sha256 M) h) \<or>
     (\<exists>core. a = [core, ''version''] \<and> hash_seen S P core (cm_binary_sha256 M) h)"
| "core_ok S P M (CFork (Core a b c)) h \<longleftrightarrow> False"
| "core_ok S P M (CRename a b) h \<longleftrightarrow>
     b = corePath P M \<and> hash_seen S P a (cm_binary_sha256 M) h \<or>
     b = license_path P M \<and> hash_seen S P a (cm_license_sha256 M) h"
| "core_ok S P M (COpen p flags m) h \<longleftrightarrow> set flags \<inter> {O_WRONLY, O_RDWR, O_CREAT, O_APPEND} = {}"
| "core_ok S P M (CKill p s) h \<longleftrightarrow> s = 9 \<and> p \<in> children h"
| "core_ok S P M (CWaitpid p nohang) h \<longleftrightarrow> nohang \<or> wait_due p h"
| "core_ok S P M (CPoll fds t) h \<longleftrightarrow> 0 \<le> t"
| "core_ok S P M (CFlock fd op) h \<longleftrightarrow> False"
| "core_ok S P M (CEnv e) h \<longleftrightarrow> \<not> thread_call (CEnv e)"
| "core_ok S P M _ h \<longleftrightarrow> True"

abbreviation core_guard :: "os \<Rightarrow> app_paths \<Rightarrow> core_manifest \<Rightarrow> event \<Rightarrow> hist \<Rightarrow> bool" where
  "core_guard S P M \<equiv> \<lambda>e g. core_ok S P M (fst e) g"

lemma parent_core_ok: "parent_call c \<Longrightarrow> core_ok S P M c g"
  by (cases c rule: parent_call.cases) simp_all

lemma logging_core_ok: "log_call c \<Longrightarrow> core_ok S P M c g"
  by (cases c rule: log_call.cases) simp_all

lemma emitLog_core:
  "quiet_logger L \<Longrightarrow> gwp (core_guard S P M) h (emitLog L l m h) (\<lambda>_ _. True)"
  by (rule gwp_emits [OF emitLog_wp]) (auto intro: logging_core_ok)

lemma directory_core:
  "gwp (core_guard S P M) h (ensureDirectory S p mode h) (\<lambda>_ _. True)"
  by (rule gwp_emits [OF ensureDirectory_emits])
    (auto simp: directory_event_def split: call.splits)

lemma runCapture_core:
  assumes "fresh_kernel S" and "quiet_callback cb"
    and "\<And>g. extends h g \<Longrightarrow> core_ok S P M (CFork (Utility a)) g"
  shows "gwp (core_guard S P M) h (runCapture S a t cb h) (\<lambda>_ _. True)"
  by (rule runCapture_guard [OF assms(1,2)]) (auto simp del: core_ok.simps(1) simp: assms(3) parent_core_ok)

lemma sha256File_core:
  assumes "fresh_kernel S"
  shows "gwp (core_guard S P M) h (sha256File S path (sha256sum_executable P) h)
     (\<lambda>r h'. \<forall>expected. r = Inr expected \<longrightarrow> hash_seen S P path expected h')"
proof -
  have "gwp (core_guard S P M) h (sha256File S path (sha256sum_executable P) h) (\<lambda>_ _. True)"
    unfolding sha256File_def by (intro gwp_intros gwp_bind [OF runCapture_core [OF assms]] TrueI) auto
  then show ?thesis unfolding gwp_def
    by (auto simp: wp_def hash_seen_def split: option.splits intro: extends_refl)
qed

lemma regularFileSize_core:
  "gwp (core_guard S P M) h (regularFileSize S path h) (\<lambda>_ _. True)"
  unfolding regularFileSize_def
  by (intro gwp_intros gwp_bind [where m = "if _ then _ else _" and Q = "\<lambda>_ _. True"] TrueI) simp_all

lemma renameReplacing_core:
  assumes "core_ok S P M (CRename a b) h"
  shows "gwp (core_guard S P M) h (renameReplacing S a b h) (\<lambda>_ _. True)"
  unfolding renameReplacing_def by (intro gwp_intros TrueI) (use assms in auto)


lemma remove_entries_core:
  "gwp (core_guard S P M) h (remove_entries S d p k names h) (\<lambda>_ _. True)"
  by (induction names arbitrary: h) (auto intro!: gwp_intros simp: Let_def)

lemma removeStale_core:
  "gwp (core_guard S P M) h (removeStaleArtifacts S d p k h) (\<lambda>_ _. True)"
  unfolding removeStaleArtifacts_def by (intro gwp_intros remove_entries_core TrueI) simp_all

lemma remove_tree_core: "gwp (core_guard S P M) h (remove_tree S p h) (\<lambda>_ _. True)"
  unfolding remove_tree_def by (intro gwp_intros TrueI) simp_all

lemma verifyCandidate_core:
  assumes "fresh_kernel S"
  shows "gwp (core_guard S P M) h (verifyCandidate S P M path h)
     (\<lambda>r h'. \<forall>info. r = Inr info \<longrightarrow> hash_seen S P path (cm_binary_sha256 M) h' \<and>
        info = \<lparr>ci_executable = path, ci_version = cm_version M, ci_revision = cm_revision M\<rparr>)"
  unfolding verifyCandidate_def
  by (intro gwp_intros gwp_bind [OF regularFileSize_core] gwp_bind [OF sha256File_core [OF assms]]
      gwp_bind [OF runCapture_core [OF assms]]) (auto intro: hash_seen_mono)

lemma verifyInstalledCore_core:
  assumes "fresh_kernel S"
  shows "gwp (core_guard S P M) h (verifyInstalledCore S P M h)
     (\<lambda>r h'. \<forall>info. r = Inr info \<longrightarrow> hash_seen S P (corePath P M) (cm_binary_sha256 M) h' \<and>
        hash_seen S P (license_path P M) (cm_license_sha256 M) h' \<and>
        info = \<lparr>ci_executable = corePath P M, ci_version = cm_version M, ci_revision = cm_revision M\<rparr>)"
  unfolding verifyInstalledCore_def
  by (intro gwp_intros gwp_bind [OF sha256File_core [OF assms]] gwp_mono [OF verifyCandidate_core [OF assms]])
    (auto intro: hash_seen_mono)

lemma download_progress_quiet: "quiet_logger L \<Longrightarrow> quiet_callback (download_progress L)"
  by (auto simp: quiet_callback_def download_progress_def wp_Some emitLog_wp emitLog_returns)

lemma download_attempts_core:
  assumes k: "fresh_kernel S" and L: "quiet_logger L"
  shows "gwp (core_guard S P M) h (download_attempts S P M L archive attempt left d h) (\<lambda>_ _. True)"
proof (induction left arbitrary: attempt d h)
  case 0
  then show ?case by (simp add: gwp_ret)
next
  case (Suc left)
  show ?case unfolding download_attempts.simps
    by (intro gwp_intros gwp_bind [OF emitLog_core [OF L]] Suc.IH TrueI
        gwp_bind [OF runCapture_core [OF k download_progress_quiet [OF L]]]
        gwp_bind [where m = "if _ then _ else _" and Q = "\<lambda>_ _. True"]) auto
qed

lemma install_core_core:
  assumes k: "fresh_kernel S" and L: "quiet_logger L"
  shows "gwp (core_guard S P M) h (install_core S P M L staging h)
     (\<lambda>r h'. \<forall>info. r = Inr info \<longrightarrow> hash_seen S P (corePath P M) (cm_binary_sha256 M) h' \<and>
        hash_seen S P (license_path P M) (cm_license_sha256 M) h' \<and>
        info = \<lparr>ci_executable = corePath P M, ci_version = cm_version M, ci_revision = cm_revision M\<rparr>)"
  unfolding install_core_def
  by (intro gwp_intros gwp_bind [OF verifyCandidate_core [OF k]] gwp_bind [OF sha256File_core [OF k]]
      gwp_bind [OF renameReplacing_core] gwp_bind [OF emitLog_core [OF L]] verifyInstalledCore_core [OF k];
    simp?) (auto elim!: okE intro: hash_seen_mono [OF hash_seen_mono])

definition core_verified :: "os \<Rightarrow> app_paths \<Rightarrow> core_manifest \<Rightarrow> core_info result \<Rightarrow> hist \<Rightarrow> bool" where
  "core_verified S P M r h \<longleftrightarrow>
     (case r of Inl e \<Rightarrow> True
      | Inr info \<Rightarrow> hash_seen S P (corePath P M) (cm_binary_sha256 M) h \<and>
          hash_seen S P (license_path P M) (cm_license_sha256 M) h \<and>
          info = \<lparr>ci_executable = corePath P M, ci_version = cm_version M, ci_revision = cm_revision M\<rparr>)"

lemma core_verified_Inl [simp]: "core_verified S P M (Inl e) h"
  by (simp add: core_verified_def)

lemma core_verified_mono: "core_verified S P M r h \<Longrightarrow> extends h h' \<Longrightarrow> core_verified S P M r h'"
  by (auto simp: core_verified_def intro: hash_seen_mono split: sum.splits)

lemma core_verifiedI:
  "\<forall>info. r = Inr info \<longrightarrow> hash_seen S P (corePath P M) (cm_binary_sha256 M) h \<and>
        hash_seen S P (license_path P M) (cm_license_sha256 M) h \<and>
        info = \<lparr>ci_executable = corePath P M, ci_version = cm_version M, ci_revision = cm_revision M\<rparr> \<Longrightarrow>
   core_verified S P M r h"
  by (auto simp: core_verified_def split: sum.splits)

lemmas verifyInstalled_verified = gwp_mono [OF verifyInstalledCore_core core_verifiedI]
lemmas install_verified = gwp_mono [OF install_core_core core_verifiedI]

lemma download_and_install_core:
  assumes k: "fresh_kernel S" and L: "quiet_logger L"
  shows "gwp (core_guard S P M) h (download_and_install S P M L archive staging h) (core_verified S P M)"
  unfolding download_and_install_def
  by (intro gwp_intros gwp_bind [OF download_attempts_core [OF assms]] gwp_bind [OF regularFileSize_core]
      gwp_bind [OF sha256File_core [OF k]] gwp_bind [OF runCapture_core [OF k]] install_verified [OF assms]; simp?)
    (auto intro: hash_seen_mono)

lemma repairCore_core:
  assumes k: "fresh_kernel S" and L: "quiet_logger L"
  shows "gwp (core_guard S P M) h (repairCore S P M L h) (core_verified S P M)"
  unfolding repairCore_def
  by (intro gwp_intros gwp_bind [OF directory_core] gwp_bind [OF removeStale_core]
      gwp_bind [OF download_and_install_core [OF assms]] gwp_bind [OF remove_tree_core]; simp?)
    (auto intro: core_verified_mono [OF core_verified_mono])

lemma ensureCore_core:
  assumes k: "fresh_kernel S" and L: "quiet_logger L"
  shows "gwp (core_guard S P M) h (ensureCore S P M L h) (core_verified S P M)"
  unfolding ensureCore_def
  by (intro gwp_intros gwp_bind [OF verifyInstalled_verified [OF k]] gwp_bind [OF emitLog_core [OF L]]
      repairCore_core [OF assms]; simp?)

section \<open>It ends\<close>

lemma sha256File_returns:
  "ticking S \<Longrightarrow> output_bounded S N \<Longrightarrow> returns (sha256File S path exe h)"
  unfolding sha256File_def
  by (auto simp: returns_bind runCapture_returns wp_simps Let_def split: sum.splits intro!: wpI)

lemma verifyCandidate_returns:
  "ticking S \<Longrightarrow> output_bounded S N \<Longrightarrow> returns (verifyCandidate S P M path h)"
  unfolding verifyCandidate_def regularFileSize_def
  by (auto simp: returns_bind runCapture_returns sha256File_returns wp_sys intro!: wpI split: sum.splits)

lemma verifyInstalledCore_returns:
  "ticking S \<Longrightarrow> output_bounded S N \<Longrightarrow> returns (verifyInstalledCore S P M h)"
  unfolding verifyInstalledCore_def
  by (auto simp: returns_bind sha256File_returns verifyCandidate_returns intro!: wpI)

lemma download_attempts_returns:
  assumes "ticking S" and "output_bounded S N" and "quiet_logger L"
  shows "returns (download_attempts S P M L archive attempt left d h)"
proof (induction left arbitrary: attempt d h)
  case (Suc left)
  then show ?case
    by (auto simp: returns_bind emitLog_returns [OF assms(3)] intro!: wpI
        runCapture_returns [OF assms(1,2) download_progress_quiet [OF assms(3)]])
qed simp

lemma install_core_returns:
  assumes "ticking S" and "output_bounded S N" and "quiet_logger L"
  shows "returns (install_core S P M L staging h)"
  unfolding install_core_def renameReplacing_def Let_def
  by (auto simp: returns_bind emitLog_returns [OF assms(3)] split: sum.splits
      intro!: wpI sha256File_returns [OF assms(1,2)] verifyCandidate_returns [OF assms(1,2)]
      verifyInstalledCore_returns [OF assms(1,2)])

lemma remove_entries_returns: "returns (remove_entries S d p k names h)"
  by (induction names arbitrary: h) (auto simp: returns_bind Let_def intro!: wpI)

lemma repairCore_returns:
  assumes "ticking S" and "output_bounded S N" and "quiet_logger L"
  shows "returns (repairCore S P M L h)"
proof -
  have "returns (download_and_install S P M L archive staging h)" for archive staging h
    unfolding download_and_install_def regularFileSize_def
    by (auto simp: returns_bind intro!: wpI sha256File_returns [OF assms(1,2)] install_core_returns [OF assms]
        runCapture_returns [OF assms(1,2) no_callback] download_attempts_returns [OF assms])
  then show ?thesis
    unfolding repairCore_def removeStaleArtifacts_def remove_tree_def Let_def
    by (auto simp: returns_bind ensureDirectory_returns remove_entries_returns intro!: wpI split: sum.splits)
qed

lemma ensureCore_returns:
  assumes "ticking S" and "output_bounded S N" and "quiet_logger L"
  shows "returns (ensureCore S P M L h)"
  unfolding ensureCore_def
  by (auto simp: returns_bind emitLog_returns [OF assms(3)] split: sum.splits
      intro!: wpI verifyInstalledCore_returns [OF assms(1,2)] repairCore_returns [OF assms])

lemma no_logger: "quiet_logger None"
  by (simp add: quiet_logger_def)

section \<open>Properties\<close>

text \<open>C25: Only a verified core is run or installed. Where the clock ticks and the helpers' output
  is finite, \<open>ensureCore\<close> returns, whatever fails. The only programs it starts are the checksum
  tool, \<^verbatim>\<open>curl\<close> with the fixed arguments, \<^verbatim>\<open>tar\<close> on an archive whose checksum was seen to be
  the pinned one, and a core whose checksum was; nothing is moved to the core's or the license's
  place unless its own checksum was seen; and it succeeds only with the installed core whose
  checksum, and that of its license, were seen in place.\<close>

theorem only_verified_core_runs:
  assumes "fresh_kernel S" and "ticking S" and "output_bounded S N" and "quiet_logger L"
  shows "twp (ensureCore S P M L h) (\<lambda>r h'. guarded (core_guard S P M) h h' \<and> core_verified S P M r h')"
  using twpI [OF ensureCore_returns [OF assms(2-4)] ensureCore_core [OF assms(1,4), unfolded gwp_def]] .

theorem only_verified_core_runs_witness:
  "twp (ensureCore helper_os default_paths kSingBoxRelease None [])
     (\<lambda>r h'. guarded (core_guard helper_os default_paths kSingBoxRelease) [] h' \<and>
        core_verified helper_os default_paths kSingBoxRelease r h')"
  by (rule only_verified_core_runs [OF helper_os_kernel helper_os_ticking helper_os_output no_logger])

text \<open>C26: Cleaning up follows no link and touches only leftovers. \<open>removeStaleArtifacts\<close> returns, and
  removes an entry of the directory only if its name has the prefix and only right after the entry
  itself, not what it may link to, was seen to be of the expected kind; real directories are
  removed as trees, anything else as a single file.\<close>

theorem cleanup_follows_no_link:
  "twp (removeStaleArtifacts S directory prefix expected h) (\<lambda>_ h'.
     guarded (\<lambda>e g. case fst e of
          CRemoveAll p \<Rightarrow> expected = KDir \<and> (\<exists>name r g'. p = path_append directory name \<and>
            startsWith name prefix \<and> g = (CSymlinkStatus p, r) # g' \<and> r_ret r = 0 \<and> r_kind r = KDir)
        | CRemove p \<Rightarrow> expected \<noteq> KDir \<and> (\<exists>name r g'. p = path_append directory name \<and>
            startsWith name prefix \<and> g = (CSymlinkStatus p, r) # g' \<and> r_ret r = 0 \<and> r_kind r = expected)
        | CSymlinkStatus p \<Rightarrow> True
        | CListDir p \<Rightarrow> p = directory
        | _ \<Rightarrow> False) h h')"
  (is "twp _ (\<lambda>_ h'. guarded ?G h h')")
proof (rule twpI)
  have "gwp ?G h (remove_entries S directory prefix expected names h) (\<lambda>_ _. True)" for names h
    by (induction names arbitrary: h) (auto intro!: gwp_intros simp: Let_def)
  then have "gwp ?G h (removeStaleArtifacts S directory prefix expected h) (\<lambda>_ _. True)"
    unfolding removeStaleArtifacts_def by (intro gwp_intros TrueI; simp)
  then show "wp (removeStaleArtifacts S directory prefix expected h) (\<lambda>_ h'. guarded ?G h h')"
    unfolding gwp_def by simp
  show "returns (removeStaleArtifacts S directory prefix expected h)"
    by (auto simp: removeStaleArtifacts_def returns_bind remove_entries_returns intro!: wpI)
qed

end
