(* ===== verification/Config.thy ===== *)
theory Config
  imports Codec
begin

text \<open>
  \<^verbatim>\<open>src/config.cpp\<close>: the upstream the user configured, its URI form and its file form, and
  the manager that loads and saves it. The file is a sequence of \<open>key=value\<close> lines.
\<close>

section \<open>Data\<close>

record upstream =
  protocol :: string
  host :: string
  port :: u16

definition default_upstream :: upstream where
  "default_upstream = \<lparr>protocol = ''socks5'', host = ''127.0.0.1'', port = 10808\<rparr>"

section \<open>Validation\<close>

definition trim :: "string \<Rightarrow> string" where
  "trim value =
     (let value = dropWhile is_space value
      in rev (dropWhile is_space (rev value)))"

definition isValidHost :: "string \<Rightarrow> bool" where
  "isValidHost h =
     (if h = [] \<or> 253 < length h
         \<or> (\<exists>c \<in> set h. c \<in> {CHR 0x0D, CHR 0x0A, CHR 0x09, CHR '' ''}) then False
      else h \<noteq> ''.'' \<and> find_char CHR ''/'' h = None)"

definition parsePort :: "string \<Rightarrow> u16 result" where
  "parsePort text =
     (case from_chars_unsigned (2 ^ 32 - 1) text of
        FcOk value rest \<Rightarrow>
          if rest \<noteq> [] \<or> value = 0 \<or> 65535 < value
          then failure InvalidConfiguration ''port must be 1..65535''
          else success (word_of_nat value)
      | _ \<Rightarrow> failure InvalidConfiguration ''port must be 1..65535'')"

definition validateUpstream :: "upstream \<Rightarrow> upstream result" where
  "validateUpstream u =
     (if protocol u \<noteq> ''socks5'' then
        failure InvalidConfiguration ''only socks5 upstream is supported''
      else if \<not> isValidHost (host u) then
        failure InvalidConfiguration ''host is empty or contains invalid characters''
      else if port u = 0 then failure InvalidConfiguration ''port must be 1..65535''
      else success u)"

section \<open>The URI form\<close>

definition split_authority :: "string \<Rightarrow> (string \<times> string) result" where
  "split_authority authority =
     (if hd authority = CHR ''['' then
        (case find_char CHR '']'' authority of
           None \<Rightarrow> failure InvalidConfiguration ''invalid bracketed IPv6 upstream''
         | Some closing \<Rightarrow>
             if length authority < closing + 2 \<or> authority ! (closing + 1) \<noteq> CHR '':'' then
               failure InvalidConfiguration ''invalid bracketed IPv6 upstream''
             else success (take (closing - 1) (drop 1 authority), drop (closing + 2) authority))
      else
        (case rfind_char CHR '':'' authority of
           None \<Rightarrow> failure InvalidConfiguration ''upstream port is missing''
         | Some separator \<Rightarrow>
             let host_text = take separator authority;
                 port_text = drop (separator + 1) authority
             in if find_char CHR '':'' host_text \<noteq> None then
                  failure InvalidConfiguration
                    ''IPv6 upstream addresses must be enclosed in brackets''
                else success (host_text, port_text)))"

definition parseUpstreamUri :: "string \<Rightarrow> upstream result" where
  "parseUpstreamUri uri =
     (case find_str ''://'' uri of
        None \<Rightarrow> failure InvalidConfiguration ''upstream must be protocol://host:port''
      | Some scheme_end \<Rightarrow>
          let authority = drop (scheme_end + 3) uri
          in if authority = [] then failure InvalidConfiguration ''upstream host is empty''
             else (case split_authority authority of
               Inl e \<Rightarrow> Inl e
             | Inr (host_text, port_text) \<Rightarrow>
                 (case parsePort port_text of
                    Inl e \<Rightarrow> Inl e
                  | Inr p \<Rightarrow>
                      validateUpstream
                        (default_upstream\<lparr>protocol := take scheme_end uri,
                           host := host_text, port := p\<rparr>))))"

definition formatUpstreamUri :: "upstream \<Rightarrow> string" where
  "formatUpstreamUri u =
     (let ipv6 = (find_char CHR '':'' (host u) \<noteq> None)
      in protocol u @ ''://'' @
         (if ipv6 then ''['' @ host u @ '']'' else host u) @
         '':'' @ show_nat (unat (port u)))"

section \<open>The file form\<close>

record load_state =
  ls_upstream :: upstream
  protocol_seen :: bool
  host_seen :: bool
  port_seen :: bool

definition load_init :: load_state where
  "load_init = \<lparr>ls_upstream = default_upstream, protocol_seen = False, host_seen = False,
     port_seen = False\<rparr>"

definition load_line :: "string \<Rightarrow> load_state \<Rightarrow> load_state result" where
  "load_line raw st =
     (let line = trim raw
      in if line = [] \<or> hd line = CHR ''#'' then success st
         else (case find_char CHR ''='' line of
           None \<Rightarrow> failure InvalidConfiguration ''invalid config line''
         | Some separator \<Rightarrow>
             let key = trim (take separator line); value = trim (drop (separator + 1) line)
             in if key = ''protocol'' then
                  success (st\<lparr>ls_upstream := (ls_upstream st)\<lparr>protocol := value\<rparr>,
                              protocol_seen := True\<rparr>)
                else if key = ''host'' then
                  success (st\<lparr>ls_upstream := (ls_upstream st)\<lparr>host := value\<rparr>, host_seen := True\<rparr>)
                else if key = ''port'' then
                  (case parsePort value of
                     Inl e \<Rightarrow> Inl e
                   | Inr p \<Rightarrow>
                       success (st\<lparr>ls_upstream := (ls_upstream st)\<lparr>port := p\<rparr>, port_seen := True\<rparr>))
                else failure InvalidConfiguration (''unknown config key: '' @ key)))"

fun load_lines :: "string list \<Rightarrow> load_state \<Rightarrow> load_state result" where
  "load_lines [] st = success st"
| "load_lines (line # rest) st =
     (case load_line line st of Inl e \<Rightarrow> Inl e | Inr st' \<Rightarrow> load_lines rest st')"

definition parse_config :: "string \<Rightarrow> upstream result" where
  "parse_config contents =
     (case load_lines (getlines contents) load_init of
        Inl e \<Rightarrow> Inl e
      | Inr st \<Rightarrow>
          if \<not> protocol_seen st \<or> \<not> host_seen st \<or> \<not> port_seen st then
            failure InvalidConfiguration ''config must contain protocol, host, and port''
          else validateUpstream (ls_upstream st))"

definition config_text :: "upstream \<Rightarrow> string" where
  "config_text u =
     ''protocol='' @ protocol u @ [nl] @
     ''host='' @ host u @ [nl] @
     ''port='' @ show_nat (unat (port u)) @ [nl]"

definition load_config :: "os \<Rightarrow> app_paths \<Rightarrow> hist \<Rightarrow> upstream result run" where
  "load_config S P h = do {
     (contents, h) \<leftarrow> readTextFile S (config_file P) h;
     case contents of
       Inl e \<Rightarrow> Some (failure InvalidConfiguration (''cannot read config: '' @ err_message e), h)
     | Inr text \<Rightarrow> Some (parse_config text, h)
   }"

text \<open>File modes, octal in the source: \<open>0750 = 488\<close>, \<open>0640 = 416\<close>.\<close>

definition save_config :: "os \<Rightarrow> app_paths \<Rightarrow> upstream \<Rightarrow> hist \<Rightarrow> unit result run" where
  "save_config S P u h =
     (case validateUpstream u of
        Inl e \<Rightarrow> Some (Inl e, h)
      | Inr _ \<Rightarrow> do {
          (directory, h) \<leftarrow> ensureDirectory S (parent_path (config_file P)) 488 h;
          case directory of
            Inl e \<Rightarrow> Some (Inl e, h)
          | Inr _ \<Rightarrow> writeFileAtomic S (config_file P) (config_text u) 416 h
        })"

section \<open>Ports and hosts\<close>

lemma parsePort_show [text_simps]: "p \<noteq> 0 \<Longrightarrow> parsePort (show_nat (unat p)) = Inr p"
proof -
  assume "p \<noteq> 0"
  moreover have "unat p < 65536" using unsigned_less [where ?'a = nat, of p] by simp
  ultimately show ?thesis
    by (simp add: parsePort_def from_chars_show_nat unat_eq_zero)
qed

lemma parsePort_nonzero: "parsePort t = Inr p \<Longrightarrow> p \<noteq> 0"
  by (auto simp: parsePort_def word_of_nat_eq_0_small split: from_chars_result.splits if_splits)

lemma parsePort_error: "parsePort t = Inl e \<Longrightarrow> err_code e = InvalidConfiguration"
  by (auto simp: parsePort_def split: from_chars_result.splits if_splits)

lemma isValidHost_iff:
  "isValidHost h \<longleftrightarrow>
     h \<noteq> [] \<and> length h \<le> 253 \<and> h \<noteq> ''.'' \<and> CHR ''/'' \<notin> set h \<and>
     CHR 0x0D \<notin> set h \<and> nl \<notin> set h \<and> CHR 0x09 \<notin> set h \<and> CHR '' '' \<notin> set h"
  by (auto simp: isValidHost_def)

definition valid_upstream :: "upstream \<Rightarrow> bool" where
  "valid_upstream u \<longleftrightarrow> protocol u = ''socks5'' \<and> isValidHost (host u) \<and> port u \<noteq> 0"

lemma validateUpstream_iff: "validateUpstream u = Inr v \<longleftrightarrow> valid_upstream u \<and> v = u"
  by (auto simp: validateUpstream_def valid_upstream_def)

lemma validateUpstream_ok [simp]: "valid_upstream u \<Longrightarrow> validateUpstream u = Inr u"
  by (simp add: validateUpstream_iff)

lemma validateUpstream_error:
  "validateUpstream u = Inl e \<Longrightarrow> err_code e = InvalidConfiguration"
  by (auto simp: validateUpstream_def split: if_splits)

section \<open>The URI form is read back\<close>

text \<open>The hosts whose URI form is unambiguous.\<close>

definition uri_host :: "string \<Rightarrow> bool" where
  "uri_host h \<longleftrightarrow>
     (if CHR '':'' \<in> set h then CHR '']'' \<notin> set h else hd h \<noteq> CHR ''['')"

lemma split_authority_bracketed:
  "CHR '']'' \<notin> set h \<Longrightarrow>
     split_authority (CHR ''['' # h @ CHR '']'' # CHR '':'' # p) = Inr (h, p)"
  using find_char_split [of "CHR '']''" "CHR ''['' # h" "CHR '':'' # p"]
  by (simp add: split_authority_def nth_append)

lemma split_authority_plain:
  "h \<noteq> [] \<Longrightarrow> hd h \<noteq> CHR ''['' \<Longrightarrow> CHR '':'' \<notin> set h \<Longrightarrow> CHR '':'' \<notin> set p \<Longrightarrow>
     split_authority (h @ CHR '':'' # p) = Inr (h, p)"
  by (simp add: split_authority_def rfind_char_split)

lemma find_scheme [text_simps]:
  "find_str ''://'' (''socks5://'' @ a) = Some 6"
  using find_str_split [of "CHR '':''" "''socks5''" "''//''" a] by simp

lemma parse_format:
  assumes "valid_upstream u" and "uri_host (host u)"
  shows "parseUpstreamUri (formatUpstreamUri u) = Inr u"
proof -
  let ?p = "show_nat (unat (port u))"
  let ?a = "(if CHR '':'' \<in> set (host u) then ''['' @ host u @ '']'' else host u) @ '':'' @ ?p"
  have ne: "host u \<noteq> []" and port: "port u \<noteq> 0" and proto: "protocol u = ''socks5''"
    using assms(1) by (auto simp: valid_upstream_def isValidHost_iff)
  have "split_authority ?a = Inr (host u, ?p)"
    using assms(2) ne split_authority_bracketed [of "host u" ?p]
      split_authority_plain [of "host u" ?p]
    by (simp add: uri_host_def)
  moreover have "formatUpstreamUri u = ''socks5://'' @ ?a"
    by (simp add: formatUpstreamUri_def proto)
  moreover have "?a \<noteq> []" by simp
  moreover have "default_upstream\<lparr>protocol := ''socks5'', host := host u, port := port u\<rparr> = u"
    using proto by simp
  ultimately show ?thesis
    using assms(1) port find_scheme [of ?a]
    by (simp add: parseUpstreamUri_def parsePort_show del: append_assoc)
qed

lemma parse_valid:
  assumes "parseUpstreamUri t = Inr u"
  shows "valid_upstream u"
  using assms unfolding parseUpstreamUri_def Let_def
  by (auto split: option.splits if_splits sum.splits simp: validateUpstream_iff)

lemma split_authority_error:
  "split_authority a = Inl e \<Longrightarrow> err_code e = InvalidConfiguration"
  by (auto simp: split_authority_def Let_def split: option.splits if_splits)

lemma parse_error:
  assumes "parseUpstreamUri t = Inl e"
  shows "err_code e = InvalidConfiguration"
  using assms unfolding parseUpstreamUri_def Let_def
  by (auto split: option.splits if_splits sum.splits
      dest: parsePort_error validateUpstream_error split_authority_error)

interpretation uri: text_codec formatUpstreamUri parseUpstreamUri
  "\<lambda>u. valid_upstream u \<and> uri_host (host u)"
  by unfold_locales (simp add: parse_format)

lemma parse_uri_host:
  assumes "parseUpstreamUri t = Inr u" and "hd (host u) \<noteq> CHR ''[''"
  shows "uri_host (host u)"
proof -
  from assms(1) obtain a p where a: "split_authority a = Inr (host u, p)"
    unfolding parseUpstreamUri_def Let_def
    by (auto split: option.splits if_splits sum.splits simp: validateUpstream_iff)
  show ?thesis
  proof (cases "hd a = CHR ''[''")
    case True
    with a obtain i where i: "find_char CHR '']'' a = Some i" "host u = take (i - 1) (drop 1 a)"
      by (auto simp: split_authority_def split: option.splits if_splits)
    have "CHR '']'' \<notin> set (take i a)" using find_charD [OF i(1)] by simp
    moreover have "set (take (i - 1) (drop 1 a)) \<subseteq> set (take i a)"
      by (metis drop_take set_drop_subset)
    ultimately show ?thesis using i(2) assms(2) by (auto simp: uri_host_def)
  next
    case False
    with a have "CHR '':'' \<notin> set (host u)"
      by (auto simp: split_authority_def Let_def split: option.splits if_splits)
    with assms(2) show ?thesis by (simp add: uri_host_def)
  qed
qed

section \<open>The file form is read back\<close>

lemma trim_id:
  assumes "s \<noteq> []" and "\<not> is_space (hd s)" and "\<not> is_space (last s)"
  shows "trim s = s"
  using assms by (simp add: trim_def dropWhile_id hd_rev)

lemma trim_idD: "trim s = s \<Longrightarrow> s \<noteq> [] \<Longrightarrow> \<not> is_space (hd s) \<and> \<not> is_space (last s)"
proof -
  assume t: "trim s = s" and ne: "s \<noteq> []"
  let ?d = "dropWhile is_space s"
  have len: "length (dropWhile is_space (rev ?d)) \<le> length ?d"
    using length_dropWhile_le [of is_space "rev ?d"] by simp
  have "length s = length (dropWhile is_space (rev ?d))"
    using t by (metis trim_def length_rev)
  then have "length s \<le> length ?d" using len by simp
  moreover have "length (takeWhile is_space s) + length ?d = length s"
    by (metis length_append takeWhile_dropWhile_id)
  ultimately have "length (takeWhile is_space s) = 0" by linarith
  then have "takeWhile is_space s = []" by simp
  then have d: "?d = s" by (metis append_Nil takeWhile_dropWhile_id)
  have "rev (dropWhile is_space (rev s)) = s" using t d by (simp add: trim_def)
  then have "dropWhile is_space (rev s) = rev s" by (metis rev_rev_ident)
  then show ?thesis using d ne hd_dropWhile [of is_space s] hd_dropWhile [of is_space "rev s"]
    by (simp add: hd_rev)
qed

definition storable_host :: "string \<Rightarrow> bool" where
  "storable_host h \<longleftrightarrow> trim h = h"

lemma load_host_line:
  assumes "h \<noteq> []" and "storable_host h"
  shows "load_line (''host='' @ h) st =
    Inr (st\<lparr>ls_upstream := (ls_upstream st)\<lparr>host := h\<rparr>, host_seen := True\<rparr>)"
proof -
  have "trim (''host='' @ h) = ''host='' @ h"
    using assms trim_idD [of h] by (intro trim_id) (auto simp: storable_host_def is_space_def)
  moreover have "trim ''host'' = ''host''"
    by (rule trim_id) (auto simp: is_space_def)
  ultimately show ?thesis
    using assms by (simp add: load_line_def Let_def storable_host_def)
qed

lemma load_port_line:
  assumes "p \<noteq> 0"
  shows "load_line (''port='' @ show_nat (unat p)) st =
    Inr (st\<lparr>ls_upstream := (ls_upstream st)\<lparr>port := p\<rparr>, port_seen := True\<rparr>)"
proof -
  let ?n = "show_nat (unat p)"
  have "last ?n \<in> set ?n" "hd ?n \<in> set ?n" by simp_all
  then have sp: "\<not> is_space (last ?n)" "\<not> is_space (hd ?n)"
    using show_nat_digitD digit_not_space by blast+
  have "trim (''port='' @ ?n) = ''port='' @ ?n"
    using sp by (intro trim_id) (auto simp: is_space_def)
  moreover have "trim ?n = ?n" using sp by (intro trim_id) auto
  moreover have "trim ''port'' = ''port''" by (rule trim_id) (auto simp: is_space_def)
  ultimately show ?thesis
    using assms by (simp add: load_line_def Let_def parsePort_show)
qed

lemma load_protocol_line:
  "load_line ''protocol=socks5'' st =
    Inr (st\<lparr>ls_upstream := (ls_upstream st)\<lparr>protocol := ''socks5''\<rparr>, protocol_seen := True\<rparr>)"
proof -
  have "trim ''protocol=socks5'' = ''protocol=socks5''"
    "trim ''protocol'' = ''protocol''" "trim ''socks5'' = ''socks5''"
    by (rule trim_id; simp add: is_space_def)+
  then show ?thesis by (simp add: load_line_def Let_def)
qed

lemma parse_config_text:
  assumes "valid_upstream u" and "storable_host (host u)"
  shows "parse_config (config_text u) = Inr u"
proof -
  have u: "host u \<noteq> []" "nl \<notin> set (host u)" "port u \<noteq> 0" "protocol u = ''socks5''"
    using assms(1) by (auto simp: valid_upstream_def isValidHost_iff)
  have "config_text u = ''protocol=socks5'' @ nl # (''host='' @ host u) @ nl #
      (''port='' @ show_nat (unat (port u))) @ nl # []"
    by (simp add: config_text_def u(4))
  moreover have "nl \<notin> set ''protocol=socks5''" "nl \<notin> set (''host='' @ host u)"
    "nl \<notin> set (''port='' @ show_nat (unat (port u)))" using u(2) by auto
  ultimately have "getlines (config_text u) =
      [''protocol=socks5'', ''host='' @ host u, ''port='' @ show_nat (unat (port u))]"
    by (simp only: getlines_line getlines_Nil not_False_eq_True)
  moreover have "default_upstream\<lparr>protocol := ''socks5'', host := host u, port := port u\<rparr> = u"
    using u(4) by simp
  then have "validateUpstream
      (default_upstream\<lparr>protocol := ''socks5'', host := host u, port := port u\<rparr>) = Inr u"
    using assms(1) by (simp only: validateUpstream_ok)
  ultimately show ?thesis
    using u by (simp add: parse_config_def load_protocol_line load_host_line [OF u(1) assms(2)]
        load_port_line load_init_def del: append_Cons)
qed

lemma parse_config_valid: "parse_config t = Inr u \<Longrightarrow> valid_upstream u"
  by (auto simp: parse_config_def validateUpstream_iff split: sum.splits if_splits)

lemma save_config_wp:
  assumes "valid_upstream u"
  shows "wp (save_config S P u h)
    (atomic_outcome v (config_file P) (contents_at v h (config_file P)) (config_text u) h)"
  using directory_then_write_wp assms by (simp add: save_config_def)

lemma save_config_returns: "signals_bounded S B \<Longrightarrow> returns (save_config S P u h)"
  by (cases "validateUpstream u") (simp_all add: save_config_def directory_then_write_returns)

lemma load_config_twp:
  assumes "reads_faithfully S v" and "contents_at v h (config_file P) = Some t"
  shows "twp (load_config S P h) (\<lambda>r _. r = parse_config t)"
proof (rule twpI)
  show "returns (load_config S P h)"
    by (auto simp: load_config_def returns_bind wp_simps readTextFile_returns
        intro!: wpI split: sum.splits)
  show "wp (load_config S P h) (\<lambda>r _. r = parse_config t)"
    unfolding load_config_def wp_simps
    by (rule wp_mono [OF readTextFile_wp [of S "config_file P" h v]]) (use assms in \<open>simp add: wp_simps\<close>)
qed

interpretation config_store: text_store config_text parse_config
  "\<lambda>u. valid_upstream u \<and> storable_host (host u)" "config_file P"
  "\<lambda>S u h. save_config S P u h" "\<lambda>S h. load_config S P h" for P
proof
  show "valid_upstream u \<and> storable_host (host u) \<Longrightarrow> parse_config (config_text u) = Inr u" for u
    by (simp add: parse_config_text)
  show "valid_upstream u \<and> storable_host (host u) \<Longrightarrow> wp (save_config S P u h)
      (atomic_outcome v (config_file P) (contents_at v h (config_file P)) (config_text u) h)"
    for u S h v by (simp add: save_config_wp)
  show "reads_faithfully S v \<Longrightarrow> contents_at v h (config_file P) = Some t \<Longrightarrow>
      twp (load_config S P h) (\<lambda>r _. \<forall>x. parse_config t = Inr x \<longrightarrow> r = Inr x)" for S v h t
    using load_config_twp [of S v h P t] by (auto simp: twp_def split: option.splits)
qed

lemma load_line_error: "load_line l st = Inl e \<Longrightarrow> err_code e = InvalidConfiguration"
  by (auto simp: load_line_def Let_def split: option.splits if_splits sum.splits dest: parsePort_error)

lemma load_lines_error: "load_lines ls st = Inl e \<Longrightarrow> err_code e = InvalidConfiguration"
  by (induction ls arbitrary: st) (auto split: sum.splits dest: load_line_error)

lemma parse_config_error: "parse_config t = Inl e \<Longrightarrow> err_code e = InvalidConfiguration"
  by (auto simp: parse_config_def split: sum.splits if_splits
      dest: load_lines_error validateUpstream_error)

lemma load_config_sound:
  "twp (load_config S P h)
    (\<lambda>r _. case r of Inl e \<Rightarrow> err_code e = InvalidConfiguration | Inr u \<Rightarrow> valid_upstream u)"
proof (rule twpI)
  show "returns (load_config S P h)"
    by (auto simp: load_config_def returns_bind wp_simps readTextFile_returns
        intro!: wpI split: sum.splits)
  have "case parse_config t of Inl e \<Rightarrow> err_code e = InvalidConfiguration | Inr u \<Rightarrow> valid_upstream u"
    for t using parse_config_valid [of t] parse_config_error [of t] by (cases "parse_config t") simp_all
  then show "wp (load_config S P h)
    (\<lambda>r _. case r of Inl e \<Rightarrow> err_code e = InvalidConfiguration | Inr u \<Rightarrow> valid_upstream u)"
    unfolding load_config_def wp_simps by (auto simp: wp_simps intro!: wpI split: sum.splits)
qed

text \<open>Save, then load in the state the save left.\<close>

definition save_then_load ::
  "os \<Rightarrow> app_paths \<Rightarrow> upstream \<Rightarrow> hist \<Rightarrow> (unit result \<times> upstream result) run" where
  "save_then_load S P u h = do {
     (saved, h) \<leftarrow> save_config S P u h;
     (loaded, h) \<leftarrow> load_config S P h;
     Some ((saved, loaded), h)
   }"

section \<open>Properties\<close>

text \<open>C3: The URI form of an upstream is read back: for a valid upstream whose host needs no
  bracket (or, where it has a colon, contains none that closes) parsing what
  \<open>formatUpstreamUri\<close> prints gives the same protocol, host and port, IPv6 hosts included.\<close>

theorem uri_roundtrip:
  assumes "valid_upstream u" and "uri_host (host u)"
  shows "parseUpstreamUri (formatUpstreamUri u) = Inr u"
  using uri.roundtrip assms by blast

theorem uri_roundtrip_witness:
  "parseUpstreamUri (formatUpstreamUri \<lparr>protocol = ''socks5'', host = ''fe80::1'', port = 1080\<rparr>)
     = Inr \<lparr>protocol = ''socks5'', host = ''fe80::1'', port = 1080\<rparr>"
  by (rule uri_roundtrip) (simp_all add: valid_upstream_def isValidHost_iff uri_host_def)

text \<open>C4: What \<open>parseUpstreamUri\<close> accepts is a valid SOCKS5 upstream: a host of 1 to 253
  characters without blanks, slashes or line breaks and a port from 1 to 65535; and printing it gives
  a URI that parses to the same upstream, so the parser loses nothing, unless the accepted
  host begins with a bracket itself.\<close>

theorem uri_parsed_is_valid:
  assumes "parseUpstreamUri t = Inr u"
  shows "valid_upstream u \<and> 1 \<le> unat (port u) \<and> unat (port u) \<le> 65535 \<and>
    (hd (host u) \<noteq> CHR ''['' \<longrightarrow> parseUpstreamUri (formatUpstreamUri u) = Inr u)"
  using parse_valid [OF assms] parse_uri_host [OF assms] uri.roundtrip [of u]
    unsigned_less [where ?'a = nat, of "port u"]
  by (auto simp: valid_upstream_def unat_gt_0 Suc_le_eq)

theorem uri_parsed_is_valid_witness:
  "valid_upstream \<lparr>protocol = ''socks5'', host = ''::1'', port = 9\<rparr> \<and>
   parseUpstreamUri (formatUpstreamUri \<lparr>protocol = ''socks5'', host = ''::1'', port = 9\<rparr>)
     = Inr \<lparr>protocol = ''socks5'', host = ''::1'', port = 9\<rparr>"
proof -
  let ?u = "\<lparr>protocol = ''socks5'', host = ''::1'', port = 9\<rparr> :: upstream"
  have "parseUpstreamUri (formatUpstreamUri ?u) = Inr ?u"
    by (rule parse_format) (simp_all add: valid_upstream_def isValidHost_iff uri_host_def)
  from uri_parsed_is_valid [OF this] show ?thesis by simp
qed

text \<open>C5: Saving the configuration is atomic and what was saved is loaded. On a system whose
  files keep what was written, with finitely many signals, \<open>save_config\<close> followed by
  \<open>load_config\<close> returns; where the save succeeded the load gives the saved upstream, where it
  failed the file is as before, and at every instant the file has the old text or the text of
  the new upstream.\<close>

theorem config_saved_is_loaded:
  assumes "valid_upstream u" and "storable_host (host u)"
    and "signals_bounded S B" and "reads_faithfully S v"
  shows "twp (save_then_load S P u h) (\<lambda>(saved, loaded) h'.
    (if ok saved then loaded = Inr u
     else contents_at v h' (config_file P) = contents_at v h (config_file P)))
   \<and> wp (save_config S P u h) (\<lambda>_. along (\<lambda>g. contents_at v g (config_file P)
        \<in> {contents_at v h (config_file P), Some (config_text u)}) h)"
proof
  obtain r h1 where s: "save_config S P u h = Some (r, h1)"
    using save_config_returns [OF assms(3)] by (rule returnsE)
  note at = wpD [OF save_config_wp [OF assms(1)] s, of v]
  show "wp (save_config S P u h) (\<lambda>_. along (\<lambda>g. contents_at v g (config_file P)
      \<in> {contents_at v h (config_file P), Some (config_text u)}) h)"
    using at unfolding s by (auto simp: wp_simps atomic_outcome_def old_or_new_def elim!: along_mono)
  obtain x h2 where l: "load_config S P h1 = Some (x, h2)"
    using twpD [OF load_config_sound [of S P h1]] by blast
  have q: "contents_at v h2 (config_file P) = contents_at v h1 (config_file P)"
    using l by (auto simp: load_config_def readTextFile_def sys_def split: if_splits)
  have "x = Inr u" if "ok r"
    using config_store.save_load [of u S v P h h1] assms s l that by (auto elim!: okE)
  then show "twp (save_then_load S P u h) (\<lambda>(saved, loaded) h'.
      (if ok saved then loaded = Inr u
       else contents_at v h' (config_file P) = contents_at v h (config_file P)))"
    using at q by (simp add: save_then_load_def twp_def s l atomic_outcome_def)
qed

theorem config_saved_is_loaded_witness:
  "twp (save_then_load (file_os empty_vfs) default_paths default_upstream []) (\<lambda>(saved, loaded) h'.
    (if ok saved then loaded = Inr default_upstream
     else contents_at empty_vfs h' (config_file default_paths)
       = contents_at empty_vfs [] (config_file default_paths)))
   \<and> wp (save_config (file_os empty_vfs) default_paths default_upstream [])
      (\<lambda>_. along (\<lambda>g. contents_at empty_vfs g (config_file default_paths)
        \<in> {contents_at empty_vfs [] (config_file default_paths), Some (config_text default_upstream)}) [])"
  by (rule config_saved_is_loaded [OF _ _ file_os_signals file_os_faithful])
    (simp_all add: default_upstream_def valid_upstream_def isValidHost_iff storable_host_def
      trim_id is_space_def)

text \<open>C6: Loading the configuration always returns, and gives a valid upstream or an
  \<open>InvalidConfiguration\<close> error: no text in the file, whatever its keys, comments, ports or
  missing lines, gets an invalid upstream past the loader.\<close>

theorem config_loads_valid_or_fails:
  "twp (load_config S P h)
    (\<lambda>r _. case r of Inl e \<Rightarrow> err_code e = InvalidConfiguration | Inr u \<Rightarrow> valid_upstream u)"
  by (rule load_config_sound)

end
