(* ===== verification/Upstream.thy ===== *)
theory Upstream
  imports Config
begin

text \<open>
  \<^verbatim>\<open>src/upstream.cpp\<close>: resolving the configured upstream and testing that it speaks SOCKS5
  without authentication.

  The lemmas show that a probe returns, closes its socket on every path, sends nothing but the
  greeting, and succeeds only for an address that was connected to and answered the greeting
  with the two bytes \<open>05 00\<close>.
\<close>

record resolved_upstream =
  configured :: upstream
  address :: string

section \<open>Probing one address\<close>

definition revents :: "resp \<Rightarrow> int" where
  "revents r = (case r_nums r of [] \<Rightarrow> 0 | e # _ \<Rightarrow> e)"

text \<open>The flag \<open>output\<close> selects \<^verbatim>\<open>POLLOUT\<close>, otherwise \<^verbatim>\<open>POLLIN\<close>.\<close>

definition poll_events :: "bool \<Rightarrow> int" where
  "poll_events output = (if output then 4 else 1)"

partial_function (option) waitForSocket ::
  "os \<Rightarrow> int \<Rightarrow> bool \<Rightarrow> nat \<Rightarrow> hist \<Rightarrow> bool run" where
  "waitForSocket S descriptor output timeout h = do {
     (result, h) \<leftarrow> sys S (CNet (NPollOne descriptor output timeout)) h;
     if 0 < r_ret result then Some (and (revents result) (poll_events output) \<noteq> 0, h)
     else if r_ret result < 0 \<and> r_errno result = EINTR then
       waitForSocket S descriptor output timeout h
     else Some (False, h)
   }"

definition socks_greeting :: string where
  "socks_greeting = [char_of (5::nat), char_of (1::nat), char_of (0::nat)]"

definition socks_accepted :: string where
  "socks_accepted = [char_of (5::nat), char_of (0::nat)]"

text \<open>What a failing probe does with its socket.\<close>

definition give_up :: "os \<Rightarrow> int \<Rightarrow> string \<Rightarrow> hist \<Rightarrow> string result run" where
  "give_up S fd message h = do {
     (_, h) \<leftarrow> sys S (CClose fd) h;
     Some (failure UpstreamUnreachable message, h)
   }"

text \<open>Connecting with the time limit: \<open>None\<close> where it succeeded, else the message.\<close>

definition connect_within ::
  "os \<Rightarrow> addrinfo \<Rightarrow> nat \<Rightarrow> int \<Rightarrow> hist \<Rightarrow> string option run" where
  "connect_within S entry timeout fd h = do {
     (connected, h) \<leftarrow> sys S (CNet (NConnect fd (ai_addr entry))) h;
     if r_ret connected = 0 then Some (None, h)
     else if cur_errno h \<noteq> EINPROGRESS then Some (Some ''upstream connection failed'', h)
     else do {
       (ready, h) \<leftarrow> waitForSocket S fd True timeout h;
       if \<not> ready then Some (Some ''upstream connect timed out'', h)
       else do {
         (socket_error, h) \<leftarrow> sys S (CNet (NSockError fd)) h;
         Some (if r_ret socket_error \<noteq> 0 \<or> revents socket_error \<noteq> 0
           then Some ''upstream connection failed'' else None, h)
       }
     }
   }"

definition format_ai :: "os \<Rightarrow> addrinfo \<Rightarrow> string option" where
  "format_ai S entry =
     (case ai_family entry of
        AF_INET \<Rightarrow> ntop4 (inet_of S) (ai_addr entry)
      | AF_INET6 \<Rightarrow> ntop6 (inet_of S) (ai_addr entry)
      | _ \<Rightarrow> None)"

definition probeAddress :: "os \<Rightarrow> addrinfo \<Rightarrow> nat \<Rightarrow> hist \<Rightarrow> string result run" where
  "probeAddress S entry timeout h = do {
     (socket_fd, h) \<leftarrow> sys S (CNet (NSocket (ai_family entry) (ai_socktype entry) (ai_protocol entry))) h;
     if r_ret socket_fd < 0 then Some (failure UpstreamUnreachable ''cannot create probe socket'', h)
     else do {
       let fd = r_ret socket_fd;
       (flags, h) \<leftarrow> sys S (CNet (NGetFlags fd)) h;
       (_, h) \<leftarrow> sys S (CNet (NSetFlags fd (r_ret flags) True)) h;
       (problem, h) \<leftarrow> connect_within S entry timeout fd h;
       case problem of Some message \<Rightarrow> give_up S fd message h
       | None \<Rightarrow> do {
           (_, h) \<leftarrow> sys S (CNet (NSetFlags fd (r_ret flags) False)) h;
           (_, h) \<leftarrow> sys S (CNet (NRecvTimeout fd timeout)) h;
           (_, h) \<leftarrow> sys S (CNet (NSendTimeout fd timeout)) h;
           (sent, h) \<leftarrow> sys S (CSend fd socks_greeting) h;
           (greeted, h) \<leftarrow> (if r_ret sent = 3 then waitForSocket S fd False timeout h else Some (False, h));
           if \<not> greeted then give_up S fd ''SOCKS5 greeting failed'' h
           else do {
             (received, h) \<leftarrow> sys S (CRecv fd 2) h;
             (_, h) \<leftarrow> sys S (CClose fd) h;
             if r_ret received \<noteq> 2 \<or> take 2 (r_out received) \<noteq> socks_accepted then
               Some (failure UpstreamUnreachable ''upstream rejected unauthenticated SOCKS5'', h)
             else (case format_ai S entry of
               None \<Rightarrow> Some (failure UpstreamUnreachable ''cannot format upstream address'', h)
             | Some text \<Rightarrow> Some (success text, h))
           }
         }
     }
   }"

section \<open>Resolving\<close>

fun probe_all ::
  "os \<Rightarrow> upstream \<Rightarrow> nat \<Rightarrow> addrinfo list \<Rightarrow> error \<Rightarrow> hist \<Rightarrow> resolved_upstream result run" where
  "probe_all S u timeout [] last_error h = Some (Inl last_error, h)"
| "probe_all S u timeout (current # rest) last_error h = do {
     (probed, h) \<leftarrow> probeAddress S current timeout h;
     case probed of
       Inr text \<Rightarrow> Some (success \<lparr>configured = u, address = text\<rparr>, h)
     | Inl e \<Rightarrow> probe_all S u timeout rest e h
   }"

definition resolveAndProbeUpstream ::
  "os \<Rightarrow> upstream \<Rightarrow> nat \<Rightarrow> hist \<Rightarrow> resolved_upstream result run" where
  "resolveAndProbeUpstream S u timeout h = do {
     (resolved, h) \<leftarrow> sys S (CNet (NGetAddrInfo (c_str (host u)) (show_nat (unat (port u))))) h;
     if r_ret resolved \<noteq> 0 then
       Some (failure UpstreamUnreachable (''cannot resolve upstream: '' @ gai_strerror S (r_ret resolved)), h)
     else probe_all S u timeout (r_addrs resolved)
       (makeError UpstreamUnreachable ''upstream is unreachable'') h
   }"

section \<open>What a probe does\<close>

text \<open>The calls of a probe, apart from opening and closing the socket.\<close>

fun probe_call :: "call \<Rightarrow> bool" where
  "probe_call (CNet (NConnect fd a)) = True"
| "probe_call (CNet (NSockError fd)) = True"
| "probe_call (CNet (NGetFlags fd)) = True"
| "probe_call (CNet (NSetFlags fd f b)) = True"
| "probe_call (CNet (NRecvTimeout fd t)) = True"
| "probe_call (CNet (NSendTimeout fd t)) = True"
| "probe_call (CNet (NPollOne fd b t)) = True"
| "probe_call (CNet (NGetAddrInfo n s)) = True"
| "probe_call (CSend fd d) = (d = socks_greeting)"
| "probe_call (CRecv fd n) = True"
| "probe_call _ = False"

fun probe_or_socket :: "call \<Rightarrow> bool" where
  "probe_or_socket (CNet (NSocket f t p)) = True"
| "probe_or_socket (CClose fd) = True"
| "probe_or_socket c = probe_call c"

abbreviation probing :: "event \<Rightarrow> bool" where
  "probing e \<equiv> probe_call (fst e)"

lemma probe_call_neutral: "probe_call c \<Longrightarrow> fd_neutral (c, r)"
  by (cases c rule: probe_call.cases) (simp_all add: fd_defs)

text \<open>The events that show that \<open>entry\<close> accepts the greeting on \<open>fd\<close>.\<close>

definition connected_in :: "hist \<Rightarrow> addrinfo \<Rightarrow> int \<Rightarrow> bool" where
  "connected_in es entry fd \<longleftrightarrow>
     (\<exists>a. (CNet (NConnect fd (ai_addr entry)), a) \<in> set es \<and>
        (r_ret a = 0 \<or> (\<exists>b. (CNet (NSockError fd), b) \<in> set es \<and> r_ret b = 0 \<and> revents b = 0)))"

definition accepted_in :: "hist \<Rightarrow> addrinfo \<Rightarrow> bool" where
  "accepted_in es entry \<longleftrightarrow>
     (\<exists>fd. connected_in es entry fd \<and>
        (\<exists>a. (CSend fd socks_greeting, a) \<in> set es \<and> r_ret a = 3) \<and>
        (\<exists>a. (CRecv fd 2, a) \<in> set es \<and> r_ret a = 2 \<and> take 2 (r_out a) = socks_accepted))"

lemma connected_in_mono: "connected_in es entry fd \<Longrightarrow> set es \<subseteq> set fs \<Longrightarrow> connected_in fs entry fd"
  unfolding connected_in_def by blast

lemma accepted_in_mono: "accepted_in es entry \<Longrightarrow> set es \<subseteq> set fs \<Longrightarrow> accepted_in fs entry"
  unfolding accepted_in_def using connected_in_mono by blast

lemma waitForSocket_wp: "wp (waitForSocket S fd b t h) (\<lambda>_ h'. emits probing h h')"
proof (rule wpI)
  fix r h' assume ret: "waitForSocket S fd b t h = Some (r, h')"
  have "emits probing h (snd (r, h'))"
  proof (rule waitForSocket.raw_induct [where P = "\<lambda>S fd b t h res. emits probing h (snd res)", OF _ ret], goal_cases)
    case (1 f S fd b t h res)
    let ?a = "answer S h (CNet (NPollOne fd b t))"
    let ?h = "(CNet (NPollOne fd b t), ?a) # h"
    show ?case
    proof (cases "\<not> 0 < r_ret ?a \<and> r_ret ?a < 0 \<and> r_errno ?a = EINTR")
      case True
      with 1(2) have "f S fd b t ?h = Some res" by (simp add: sys_def)
      from 1(1) [OF this] show ?thesis by (rule emits_ConsD) simp
    qed (use 1(2) in \<open>auto simp: sys_def split: if_splits\<close>)
  qed
  then show "emits probing h h'" by simp
qed

lemma waitForSocket_returns:
  assumes "signals_bounded S B"
  shows "returns (waitForSocket S fd b t h)"
proof (induction "B - interrupts h" arbitrary: h rule: less_induct)
  case less
  let ?a = "answer S h (CNet (NPollOne fd b t))"
  have "returns (waitForSocket S fd b t ((CNet (NPollOne fd b t), ?a) # h))"
    if "r_ret ?a < 0" "r_errno ?a = EINTR"
  proof (rule less)
    have "interrupts h < B" using assms that unfolding signals_bounded_def by (meson not_le_imp_less)
    with that show "B - interrupts ((CNet (NPollOne fd b t), ?a) # h) < B - interrupts h" by simp
  qed
  then show ?case by (subst waitForSocket.simps) (simp add: returns_bind wp_sys)
qed

lemma connect_within_wp:
  "wp (connect_within S entry t fd h) (\<lambda>r h'. \<exists>es. h' = es @ h \<and> list_all probing es \<and>
     (r = None \<longrightarrow> connected_in es entry fd))"
proof -
  let ?c = "CNet (NConnect fd (ai_addr entry))"
  let ?a = "answer S h ?c"
  show ?thesis
  proof (cases "r_ret ?a \<noteq> 0 \<and> cur_errno ((?c, ?a) # h) = EINPROGRESS")
    case False
    then show ?thesis
      by (auto simp: connect_within_def wp_simps connected_in_def)
  next
    case True
    show ?thesis
      unfolding connect_within_def wp_bind wp_sys prod.case wp_if
    proof (use True in simp, rule wp_mono [OF waitForSocket_wp], goal_cases)
      case (1 r g)
      then obtain es where es: "g = es @ (?c, ?a) # h" "list_all probing es" by (auto simp: emits_def)
      let ?d = "CNet (NSockError fd)"
      have "\<exists>es. g = es @ h \<and> list_all probing es"
        "\<exists>fs. (?d, answer S g ?d) # g = fs @ h \<and> list_all probing fs \<and>
          (r_ret (answer S g ?d) = 0 \<and> revents (answer S g ?d) = 0 \<longrightarrow> connected_in fs entry fd)"
        using es by (auto simp: connected_in_def intro: exI [of _ "es @ [(?c, ?a)]"] exI [of _ "(?d, answer S g ?d) # es @ [(?c, ?a)]"])
      then show ?case by (auto simp: wp_simps)
    qed
  qed
qed

lemma connect_within_returns: "signals_bounded S B \<Longrightarrow> returns (connect_within S entry t fd h)"
  by (auto simp: connect_within_def returns_bind wp_simps intro!: waitForSocket_returns wpI)

definition probed :: "os \<Rightarrow> addrinfo \<Rightarrow> hist \<Rightarrow> string result \<Rightarrow> hist \<Rightarrow> bool" where
  "probed S entry h r h' \<longleftrightarrow>
     (\<exists>es. h' = es @ h \<and> list_all (\<lambda>e. probe_or_socket (fst e)) es \<and> open_fds h' = open_fds h \<and>
        (case r of Inl e \<Rightarrow> err_code e = UpstreamUnreachable
         | Inr text \<Rightarrow> accepted_in es entry \<and> format_ai S entry = Some text))"

lemma probing_or_socket: "list_all probing es \<Longrightarrow> list_all (\<lambda>e. probe_or_socket (fst e)) es"
proof (rule list.pred_mono_strong, assumption)
  fix e assume "probing e"
  then show "probe_or_socket (fst e)" by (cases "fst e" rule: probe_call.cases) simp_all
qed

lemma probe_answered:
  assumes fresh: "fresh_fds S" and opened: "answered S h (CNet (NSocket f t p)) a" "\<not> r_ret a < 0"
    and es: "list_all probing es"
    and r: "case r of Inl e \<Rightarrow> err_code e = UpstreamUnreachable
            | Inr text \<Rightarrow> accepted_in es entry \<and> format_ai S entry = Some text"
  shows "probed S entry h r ((CClose (r_ret a), b) # es @ (CNet (NSocket f t p), a) # h)"
proof -
  let ?o = "(CNet (NSocket f t p), a)"
  have "fds_opened ?o = {r_ret a}" using opened(2) by (simp add: fds_opened_def)
  moreover have "fds_opened ?o \<inter> open_fds h = {}"
    using fresh opened(1) unfolding fresh_fds_def answered_def by blast
  moreover have "open_fds (es @ ?o # h) = open_fds (?o # h)"
    by (rule open_fds_neutral) (use es probe_call_neutral in \<open>fastforce simp: emits_def list_all_iff\<close>)
  ultimately have "open_fds ((CClose (r_ret a), b) # es @ ?o # h) = open_fds h"
    by (auto simp: fds_closed_def fds_opened_def [of "(CClose _, _)"])
  moreover have "accepted_in ((CClose (r_ret a), b) # es @ [?o]) entry" if "accepted_in es entry"
    using that by (rule accepted_in_mono) auto
  ultimately show ?thesis
    unfolding probed_def using probing_or_socket [OF es] r
    by (intro exI [of _ "(CClose (r_ret a), b) # es @ [?o]"]) (auto split: sum.splits)
qed

text \<open>While a probe uses its socket: whether it is connected, and whether the greeting was sent.\<close>

definition during :: "addrinfo \<Rightarrow> hist \<Rightarrow> resp \<Rightarrow> bool \<Rightarrow> bool \<Rightarrow> hist \<Rightarrow> bool" where
  "during entry h a connected greeted g \<longleftrightarrow>
     (\<exists>es. g = es @ (CNet (NSocket (ai_family entry) (ai_socktype entry) (ai_protocol entry)), a) # h \<and>
        list_all probing es \<and> (connected \<longrightarrow> connected_in es entry (r_ret a)) \<and>
        (greeted \<longrightarrow> (\<exists>b. (CSend (r_ret a) socks_greeting, b) \<in> set es \<and> r_ret b = 3)))"

lemma during_start: "during entry h a False False
    ((CNet (NSocket (ai_family entry) (ai_socktype entry) (ai_protocol entry)), a) # h)"
  by (simp add: during_def)

lemma during_append: "during entry h a c s g \<Longrightarrow> list_all probing fs \<Longrightarrow> during entry h a c s (fs @ g)"
  unfolding during_def by (elim exE conjE, rule_tac x = "fs @ es" in exI)
    (auto intro: connected_in_mono)

lemma during_Cons: "during entry h a c s g \<Longrightarrow> probing e \<Longrightarrow> during entry h a c s (e # g)"
  using during_append [of entry h a c s g "[e]"] by simp

lemma during_emits: "emits probing g g' \<Longrightarrow> during entry h a c s g \<Longrightarrow> during entry h a c s g'"
  by (auto simp: emits_def intro: during_append)

lemma during_connected:
  "during entry h a c s g \<Longrightarrow> list_all probing fs \<Longrightarrow> connected_in fs entry (r_ret a) \<Longrightarrow>
     during entry h a True s (fs @ g)"
  unfolding during_def by (elim exE conjE, rule_tac x = "fs @ es" in exI)
    (auto intro: connected_in_mono)

lemma during_greeted:
  "during entry h a c s g \<Longrightarrow> r_ret b = 3 \<Longrightarrow>
     during entry h a c True ((CSend (r_ret a) socks_greeting, b) # g)"
  unfolding during_def by (elim exE conjE, rule_tac x = "(CSend (r_ret a) socks_greeting, b) # es" in exI)
    (auto intro: connected_in_mono)

lemma during_end:
  assumes fresh: "fresh_fds S" and opened: "answered S h (CNet (NSocket (ai_family entry) (ai_socktype entry) (ai_protocol entry))) a" "\<not> r_ret a < 0"
    and g: "during entry h a c s g"
    and r: "case r of Inl e \<Rightarrow> err_code e = UpstreamUnreachable
            | Inr text \<Rightarrow> c \<and> s \<and> format_ai S entry = Some text \<and>
                (\<exists>x. (CRecv (r_ret a) 2, x) = hd g \<and> g \<noteq> [] \<and> r_ret x = 2 \<and> take 2 (r_out x) = socks_accepted)"
  shows "probed S entry h r ((CClose (r_ret a), b) # g)"
proof -
  from g obtain es where es: "g = es @ (CNet (NSocket (ai_family entry) (ai_socktype entry) (ai_protocol entry)), a) # h"
    "list_all probing es" "c \<Longrightarrow> connected_in es entry (r_ret a)"
    "s \<Longrightarrow> \<exists>b. (CSend (r_ret a) socks_greeting, b) \<in> set es \<and> r_ret b = 3" unfolding during_def by blast
  show ?thesis unfolding es(1)
  proof (rule probe_answered [OF fresh opened es(2)])
    show "case r of Inl e \<Rightarrow> err_code e = UpstreamUnreachable
            | Inr text \<Rightarrow> accepted_in es entry \<and> format_ai S entry = Some text"
    proof (cases r)
      case (Inr v)
      with r obtain x where x: "c" "s" "format_ai S entry = Some v" "(CRecv (r_ret a) 2, x) = hd g"
        "r_ret x = 2" "take 2 (r_out x) = socks_accepted" by auto
      then have "(CRecv (r_ret a) 2, x) \<in> set es" using es(1,3) by (cases es) (auto simp: connected_in_def)
      moreover have "connected_in es entry (r_ret a)" "\<exists>b. (CSend (r_ret a) socks_greeting, b) \<in> set es \<and> r_ret b = 3"
        using es(3,4) x(1,2) by blast+
      ultimately have "accepted_in es entry" using x(4-6) unfolding accepted_in_def by metis
      then show ?thesis using Inr x(3) by simp
    qed (use r in simp)
  qed
qed

lemma give_up_wp:
  assumes "fresh_fds S" "answered S h (CNet (NSocket (ai_family entry) (ai_socktype entry) (ai_protocol entry))) a" "\<not> r_ret a < 0"
    and "during entry h a c s g"
  shows "wp (give_up S (r_ret a) m g) (probed S entry h)"
  unfolding give_up_def wp_bind wp_sys prod.case wp_Some
  by (rule during_end [OF assms]) simp

lemma probeAddress_wp:
  assumes fresh: "fresh_fds S"
  shows "wp (probeAddress S entry t h) (probed S entry h)"
  unfolding probeAddress_def Let_def wp_bind wp_call prod.case wp_if wp_Some
proof (intro allI impI, goal_cases)
  case (1 a)
  show ?case
  proof (cases "r_ret a < 0")
    case True
    then show ?thesis by (auto simp: probed_def fd_defs)
  next
    case False
    note a = 1 False
    have "wp (connect_within S entry t (r_ret a) g) (\<lambda>r g'. during entry h a (r = None) False g')"
      if "during entry h a False False g" for g
    proof (rule wp_mono [OF connect_within_wp], goal_cases)
      case (1 r g')
      then show ?case using that by (cases r) (auto intro: during_append during_connected)
    qed
    note connecting = wp_mono [OF this [OF during_Cons [OF during_Cons [OF during_start]]]]
    show ?thesis unfolding if_not_P [OF False]
    proof (intro allI impI, rule connecting, goal_cases)
      case (3 f s problem g)
      note g = 3(3)
      show ?case
      proof (cases problem)
        case (Some m)
        then show ?thesis using give_up_wp [OF fresh a g] by simp
      next
        case None
        with g have g: "during entry h a True False g" by simp
        have waited: "wp (if r_ret e = 3 then waitForSocket S (r_ret a) False t ((CSend (r_ret a) socks_greeting, e) # g')
              else Some (False, (CSend (r_ret a) socks_greeting, e) # g')) (\<lambda>ok. during entry h a True ok)"
          if "during entry h a True False g'" for e g'
        proof (cases "r_ret e = 3")
          case True
          have "during entry h a True ok g''"
            if "emits probing ((CSend (r_ret a) socks_greeting, e) # g') g''" for ok g''
          proof -
            have "during entry h a True True g''"
              by (rule during_emits [OF that during_greeted [OF \<open>during entry h a True False g'\<close> True]])
            then show ?thesis by (auto simp: during_def)
          qed
          with True show ?thesis by (auto intro: wp_mono [OF waitForSocket_wp])
        qed (use that in \<open>auto simp: wp_Some intro: during_Cons\<close>)
        show ?thesis unfolding None option.case wp_bind wp_call prod.case
        proof (intro allI impI, rule wp_mono [OF waited], goal_cases)
          case (1 b c d e)
          show ?case by (intro during_Cons g) simp_all
        next
          case (2 b c d e ok g')
          show ?case
          proof (cases ok)
            case False
            with give_up_wp [OF fresh a 2(5)] show ?thesis by simp
          next
            case True
            with 2(5) have g': "during entry h a True True ((CRecv (r_ret a) 2, x) # g')" for x
              by (intro during_Cons) simp_all
            have "\<not> \<not> ok" using True by simp
            then show ?thesis unfolding if_not_P [OF \<open>\<not> \<not> ok\<close>] wp_bind wp_call prod.case
              by (auto simp: wp_Some split: option.splits intro!: during_end [OF fresh a g'])
          qed
        qed
      qed
    qed simp_all
  qed
qed

lemma probeAddress_returns: "signals_bounded S B \<Longrightarrow> returns (probeAddress S entry t h)"
  by (auto simp: probeAddress_def give_up_def returns_bind wp_simps Let_def split: option.splits
      intro!: waitForSocket_returns connect_within_returns wpI)

text \<open>The result names an entry of the resolver's list that accepted the greeting.\<close>

lemma probe_all_wp:
  assumes fresh: "fresh_fds S" and "err_code last_error = UpstreamUnreachable"
  shows "wp (probe_all S u t entries last_error h) (\<lambda>r h'. \<exists>es. h' = es @ h \<and>
     list_all (\<lambda>e. probe_or_socket (fst e)) es \<and> open_fds h' = open_fds h \<and>
     (case r of Inl e \<Rightarrow> err_code e = UpstreamUnreachable
      | Inr v \<Rightarrow> configured v = u \<and> (\<exists>entry \<in> set entries. accepted_in es entry \<and> format_ai S entry = Some (address v))))"
  using assms(2)
proof (induction entries arbitrary: last_error h)
  case Nil
  then show ?case by (simp add: wp_Some)
next
  case (Cons entry entries)
  show ?case
    unfolding probe_all.simps wp_bind prod.case
  proof (rule wp_mono [OF probeAddress_wp [OF fresh]], goal_cases)
    case (1 r g)
    then obtain es where es: "g = es @ h" "list_all (\<lambda>e. probe_or_socket (fst e)) es" "open_fds g = open_fds h"
      "case r of Inl e \<Rightarrow> err_code e = UpstreamUnreachable
       | Inr v \<Rightarrow> accepted_in es entry \<and> format_ai S entry = Some v" unfolding probed_def by auto
    show ?case
    proof (cases r)
      case (Inr v)
      with es show ?thesis by (auto simp: wp_Some)
    next
      case (Inl e)
      with es(4) have e: "err_code e = UpstreamUnreachable" by simp
      show ?thesis unfolding Inl sum.case
      proof (rule wp_mono [OF Cons.IH [OF e]], goal_cases)
        case (1 r' g')
        then obtain fs where fs: "g' = fs @ g" "list_all (\<lambda>e. probe_or_socket (fst e)) fs" "open_fds g' = open_fds g"
          "case r' of Inl e \<Rightarrow> err_code e = UpstreamUnreachable
           | Inr v \<Rightarrow> configured v = u \<and> (\<exists>entry \<in> set entries. accepted_in fs entry \<and> format_ai S entry = Some (address v))"
          by auto
        have "accepted_in (fs @ es) x" if "accepted_in fs x" for x
          using that by (rule accepted_in_mono) auto
        then show ?case using fs es(1-3)
          by (intro exI [of _ "fs @ es"]) (auto split: sum.splits)
      qed
    qed
  qed
qed

lemma probe_all_returns: "signals_bounded S B \<Longrightarrow> returns (probe_all S u t entries e h)"
  by (induction entries arbitrary: e h)
    (auto simp: returns_bind wp_simps probeAddress_returns split: sum.splits intro!: wpI)

definition resolved_in :: "os \<Rightarrow> upstream \<Rightarrow> hist \<Rightarrow> string \<Rightarrow> bool" where
  "resolved_in S u es a \<longleftrightarrow>
     (\<exists>r entry. (CNet (NGetAddrInfo (c_str (host u)) (show_nat (unat (port u)))), r) \<in> set es \<and> r_ret r = 0 \<and>
        entry \<in> set (r_addrs r) \<and> accepted_in es entry \<and> format_ai S entry = Some a)"

lemma resolveAndProbeUpstream_wp:
  assumes "fresh_fds S"
  shows "wp (resolveAndProbeUpstream S u t h) (\<lambda>r h'. \<exists>es. h' = es @ h \<and>
     list_all (\<lambda>e. probe_or_socket (fst e)) es \<and> open_fds h' = open_fds h \<and>
     (case r of Inl e \<Rightarrow> err_code e = UpstreamUnreachable
      | Inr v \<Rightarrow> configured v = u \<and> resolved_in S u es (address v)))"
  unfolding resolveAndProbeUpstream_def wp_bind wp_call prod.case
proof (intro allI impI, goal_cases)
  case (1 a)
  let ?e = "(CNet (NGetAddrInfo (c_str (host u)) (show_nat (unat (port u)))), a)"
  show ?case
  proof (cases "r_ret a = 0")
    case False
    then show ?thesis by (auto simp: wp_Some fd_defs)
  next
    case True
    show ?thesis unfolding if_not_P [OF not_not [THEN iffD2, OF True]]
    proof (rule wp_mono [OF probe_all_wp [OF assms]], goal_cases)
      case (2 r g)
      then obtain es where es: "g = es @ ?e # h" "list_all (\<lambda>e. probe_or_socket (fst e)) es"
        "open_fds g = open_fds (?e # h)"
        "case r of Inl e \<Rightarrow> err_code e = UpstreamUnreachable
         | Inr v \<Rightarrow> configured v = u \<and> (\<exists>entry \<in> set (r_addrs a). accepted_in es entry \<and> format_ai S entry = Some (address v))"
        by auto
      have "accepted_in (es @ [?e]) x" if "accepted_in es x" for x
        using that by (rule accepted_in_mono) auto
      then have "resolved_in S u (es @ [?e]) (address v)" if "r = Inr v" for v
        using es(4) that True unfolding resolved_in_def by (auto intro!: exI [of _ a])
      then show ?case using es
        by (intro exI [of _ "es @ [?e]"]) (auto simp: fd_defs split: sum.splits)
    qed simp
  qed
qed

lemma resolveAndProbeUpstream_returns: "signals_bounded S B \<Longrightarrow> returns (resolveAndProbeUpstream S u t h)"
  by (auto simp: resolveAndProbeUpstream_def returns_bind wp_sys intro!: probe_all_returns)

section \<open>Properties\<close>

text \<open>C22: The upstream is used only after it spoke SOCKS5. Where only finitely many signals
  arrive, resolving and probing returns; it makes only the calls of a probe, sends nothing but the greeting,
  and leaves no socket open; it fails with \<open>UpstreamUnreachable\<close>, and it succeeds only with the
  numeric form of an address the resolver named, to which it was connected and which answered
  the greeting with \<open>05 00\<close>.\<close>

theorem upstream_used_after_handshake:
  assumes "fresh_fds S" and "signals_bounded S B"
  shows "twp (resolveAndProbeUpstream S u t h) (\<lambda>r h'. \<exists>es. h' = es @ h \<and>
     list_all (\<lambda>e. probe_or_socket (fst e)) es \<and> open_fds h' = open_fds h \<and>
     (case r of Inl e \<Rightarrow> err_code e = UpstreamUnreachable
      | Inr v \<Rightarrow> configured v = u \<and> resolved_in S u es (address v)))"
  using twpI [OF resolveAndProbeUpstream_returns [OF assms(2)] resolveAndProbeUpstream_wp [OF assms(1)]] .

theorem upstream_used_after_handshake_witness:
  "twp (resolveAndProbeUpstream count_os default_upstream kUpstreamProbeTimeout []) (\<lambda>r h'. \<exists>es. h' = es @ [] \<and>
     list_all (\<lambda>e. probe_or_socket (fst e)) es \<and> open_fds h' = open_fds [] \<and>
     (case r of Inl e \<Rightarrow> err_code e = UpstreamUnreachable
      | Inr v \<Rightarrow> configured v = default_upstream \<and> resolved_in count_os default_upstream es (address v)))"
  by (rule upstream_used_after_handshake [OF count_os_fresh count_os_signals])

end
