(* ===== verification/SingBoxConfig.thy ===== *)
theory SingBoxConfig
  imports Upstream
begin

text \<open>
  \<^verbatim>\<open>src/singbox_config.cpp\<close>: the configuration document handed to the core process.

  The text is compared with a reference reader of JSON (strings with escapes, natural numbers,
  literals, arrays, objects): whatever bytes the upstream address, the interface name, the log
  path and the bypass list contain, reading the text gives exactly the intended document, so no
  value can add, remove or change a setting.
\<close>

section \<open>The program\<close>

record singbox_runtime_config =
  sb_log_file :: string
  sb_upstream :: resolved_upstream
  sb_bypass_cidrs :: "string list"
  sb_auto_redirect :: bool
  sb_interface_name :: string

abbreviation (input) quote :: char where
  "quote \<equiv> CHR 0x22"

abbreviation (input) backslash :: char where
  "backslash \<equiv> CHR 0x5C"

definition hex_digits :: string where
  "hex_digits = ''0123456789abcdef''"

definition json_escape_char :: "char \<Rightarrow> string" where
  "json_escape_char c =
     (if c = quote then [backslash, quote]
      else if c = backslash then [backslash, backslash]
      else if c = CHR 0x08 then backslash # ''b''
      else if c = CHR 0x0C then backslash # ''f''
      else if c = CHR 0x0A then backslash # ''n''
      else if c = CHR 0x0D then backslash # ''r''
      else if c = CHR 0x09 then backslash # ''t''
      else if (of_char c :: nat) < 0x20 then
        backslash # ''u00'' @ [hex_digits ! (of_char c div 16), hex_digits ! (of_char c mod 16)]
      else [c])"

definition jsonEscape :: "string \<Rightarrow> string" where
  "jsonEscape input = concat (map json_escape_char input)"

definition json_quoted :: "string \<Rightarrow> string" where
  "json_quoted value = quote # jsonEscape value @ [quote]"

definition writeStringArray :: "string list \<Rightarrow> string" where
  "writeStringArray values = ''['' @ join '', '' (map json_quoted values) @ '']''"

definition singbox_text :: "singbox_runtime_config \<Rightarrow> string" where
  \<open>singbox_text config =
     ''{'' @ [nl] @
     ''  "log": {"level": "info", "timestamp": true, "output": "'' @
     jsonEscape (sb_log_file config) @ ''"},'' @ [nl] @
     ''  "dns": {'' @ [nl] @
     ''    "servers": [{"type": "https", "tag": "proxy-doh", "server": "'' @ kDnsServerAddress @
     ''", "server_port": '' @ show_nat kDnsServerPort @
     '', "path": "'' @ kDnsServerPath @
     ''", "tls": {"enabled": true, "server_name": "'' @ kDnsServerName @
     ''"}, "detour": "proxy"}],'' @ [nl] @
     ''    "final": "proxy-doh", "strategy": "prefer_ipv4"'' @ [nl] @
     ''  },'' @ [nl] @
     ''  "inbounds": [{'' @ [nl] @
     ''    "type": "tun", "tag": "tun-in", "interface_name": "'' @
     jsonEscape (sb_interface_name config) @ ''",'' @ [nl] @
     ''    "address": ["'' @ kTunAddress @ ''"], "mtu": '' @ show_nat kTunMtu @
     '', "auto_route": true,'' @ [nl] @
     ''    "auto_redirect": '' @ (if sb_auto_redirect config then ''true'' else ''false'') @
     '', "strict_route": true, "stack": "system",'' @ [nl] @
     ''    "route_exclude_address": '' @ writeStringArray (sb_bypass_cidrs config) @ [nl] @
     ''  }],'' @ [nl] @
     ''  "outbounds": [{'' @ [nl] @
     ''    "type": "socks", "tag": "proxy", "server": "'' @
     jsonEscape (address (sb_upstream config)) @ ''", "server_port": '' @
     show_nat (unat (port (configured (sb_upstream config)))) @
     '', "version": "5", "network": "tcp"'' @ [nl] @
     ''  }, {"type": "direct", "tag": "direct"}],'' @ [nl] @
     ''  "route": {'' @ [nl] @
     ''    "rules": [{"ip_cidr": '' @ writeStringArray (sb_bypass_cidrs config) @
     '', "action": "route", "outbound": "direct"}, '' @
     ''{"port": 53, "action": "hijack-dns"}, '' @
     ''{"network": "udp", "action": "reject"}],'' @ [nl] @
     ''    "final": "proxy", "auto_detect_interface": true'' @ [nl] @
     ''  }'' @ [nl] @
     ''}'' @ [nl]\<close>

definition buildSingBoxConfig :: "singbox_runtime_config \<Rightarrow> string result" where
  "buildSingBoxConfig config =
     (if address (sb_upstream config) = [] then
        failure InvalidConfiguration ''resolved upstream address is empty''
      else if sb_bypass_cidrs config = [] then
        failure InvalidConfiguration ''bypass policy is empty''
      else success (singbox_text config))"

section \<open>A reader of JSON\<close>

datatype json =
    JStr string
  | JNum nat
  | JBool bool
  | JNull
  | JArr "json list"
  | JObj "(string \<times> json) list"

datatype token = TStr string | TNum nat | TWord string | TPunct char

text \<open>The lexer reads one byte at a time.\<close>

datatype mode =
    Blank
  | InStr string
  | Escape string
  | Hex string nat nat
  | InNum nat
  | InWord string

definition hex_value :: "char \<Rightarrow> nat option" where
  "hex_value c =
     (let n = (of_char c :: nat)
      in if 48 \<le> n \<and> n \<le> 57 then Some (n - 48)
         else if 97 \<le> n \<and> n \<le> 102 then Some (n - 87)
         else if 65 \<le> n \<and> n \<le> 70 then Some (n - 55)
         else None)"

definition is_letter :: "char \<Rightarrow> bool" where
  "is_letter c \<longleftrightarrow> 97 \<le> (of_char c :: nat) \<and> (of_char c :: nat) \<le> 122"

definition lex_start :: "char \<Rightarrow> (token list \<times> mode) option" where
  "lex_start c =
     (if c \<in> {CHR '' '', CHR 0x09, CHR 0x0A, CHR 0x0D} then Some ([], Blank)
      else if c \<in> {CHR ''['', CHR '']'', CHR ''{'', CHR ''}'', CHR '','', CHR '':''} then Some ([TPunct c], Blank)
      else if c = quote then Some ([], InStr [])
      else if is_digit c then Some ([], InNum (digit_val c))
      else if is_letter c then Some ([], InWord [c])
      else None)"

definition unescape :: "char \<Rightarrow> char option" where
  "unescape c =
     (if c \<in> {quote, backslash, CHR ''/''} then Some c
      else if c = CHR ''b'' then Some (CHR 0x08)
      else if c = CHR ''f'' then Some (CHR 0x0C)
      else if c = CHR ''n'' then Some (CHR 0x0A)
      else if c = CHR ''r'' then Some (CHR 0x0D)
      else if c = CHR ''t'' then Some (CHR 0x09)
      else None)"

text \<open>
  Four hexadecimal digits name a character; the reader knows those of one byte. Bytes below
  \<open>0x20\<close> may not stand for themselves in a string.
\<close>

fun lex_step :: "mode \<Rightarrow> char \<Rightarrow> (token list \<times> mode) option" where
  "lex_step Blank c = lex_start c"
| "lex_step (InStr s) c =
     (if c = quote then Some ([TStr s], Blank)
      else if c = backslash then Some ([], Escape s)
      else if (of_char c :: nat) < 0x20 then None
      else Some ([], InStr (s @ [c])))"
| "lex_step (Escape s) c =
     (if c = CHR ''u'' then Some ([], Hex s 0 0)
      else (case unescape c of None \<Rightarrow> None | Some d \<Rightarrow> Some ([], InStr (s @ [d]))))"
| "lex_step (Hex s k n) c =
     (case hex_value c of
        None \<Rightarrow> None
      | Some d \<Rightarrow>
          if k < 3 then Some ([], Hex s (k + 1) (16 * n + d))
          else if 16 * n + d < 128 then Some ([], InStr (s @ [char_of (16 * n + d)]))
          else None)"
| "lex_step (InNum n) c =
     (if is_digit c then Some ([], InNum (10 * n + digit_val c))
      else map_option (\<lambda>(ts, m). (TNum n # ts, m)) (lex_start c))"
| "lex_step (InWord w) c =
     (if is_letter c then Some ([], InWord (w @ [c]))
      else map_option (\<lambda>(ts, m). (TWord w # ts, m)) (lex_start c))"

fun lex_run :: "mode \<Rightarrow> string \<Rightarrow> (token list \<times> mode) option" where
  "lex_run m [] = Some ([], m)"
| "lex_run m (c # s) =
     (case lex_step m c of
        None \<Rightarrow> None
      | Some (ts, m') \<Rightarrow> map_option (\<lambda>(us, m''). (ts @ us, m'')) (lex_run m' s))"

definition lex_text :: "string \<Rightarrow> token list option" where
  "lex_text s =
     (case lex_run Blank s of
        Some (ts, Blank) \<Rightarrow> Some ts
      | Some (ts, InNum n) \<Rightarrow> Some (ts @ [TNum n])
      | Some (ts, InWord w) \<Rightarrow> Some (ts @ [TWord w])
      | _ \<Rightarrow> None)"

text \<open>The parser; its fuel is the number of tokens.\<close>

fun json_value :: "nat \<Rightarrow> token list \<Rightarrow> (json \<times> token list) option"
  and json_elements :: "nat \<Rightarrow> token list \<Rightarrow> (json list \<times> token list) option"
  and json_members :: "nat \<Rightarrow> token list \<Rightarrow> ((string \<times> json) list \<times> token list) option" where
  "json_value 0 ts = None"
| "json_value (Suc n) ts =
     (case ts of
        TStr s # r \<Rightarrow> Some (JStr s, r)
      | TNum k # r \<Rightarrow> Some (JNum k, r)
      | TWord w # r \<Rightarrow>
          if w = ''true'' then Some (JBool True, r)
          else if w = ''false'' then Some (JBool False, r)
          else if w = ''null'' then Some (JNull, r)
          else None
      | TPunct c # r \<Rightarrow>
          if c = CHR ''['' then
            (if r \<noteq> [] \<and> hd r = TPunct (CHR '']'') then Some (JArr [], tl r)
             else map_option (\<lambda>(vs, r). (JArr vs, r)) (json_elements n r))
          else if c = CHR ''{'' then
            (if r \<noteq> [] \<and> hd r = TPunct (CHR ''}'') then Some (JObj [], tl r)
             else map_option (\<lambda>(ms, r). (JObj ms, r)) (json_members n r))
          else None
      | [] \<Rightarrow> None)"
| "json_elements 0 ts = None"
| "json_elements (Suc n) ts =
     (case json_value n ts of
        Some (v, TPunct c # r) \<Rightarrow>
          if c = CHR '']'' then Some ([v], r)
          else if c = CHR '','' then map_option (\<lambda>(vs, r). (v # vs, r)) (json_elements n r)
          else None
      | _ \<Rightarrow> None)"
| "json_members 0 ts = None"
| "json_members (Suc n) ts =
     (case ts of
        TStr k # TPunct d # ts \<Rightarrow>
          if d \<noteq> CHR '':'' then None
          else (case json_value n ts of
            Some (v, TPunct c # r) \<Rightarrow>
              if c = CHR ''}'' then Some ([(k, v)], r)
              else if c = CHR '','' then map_option (\<lambda>(ms, r). ((k, v) # ms, r)) (json_members n r)
              else None
          | _ \<Rightarrow> None)
      | _ \<Rightarrow> None)"

definition read_json :: "string \<Rightarrow> json option" where
  "read_json text =
     (case lex_text text of
        None \<Rightarrow> None
      | Some ts \<Rightarrow> (case json_value (length ts) ts of Some (v, []) \<Rightarrow> Some v | _ \<Rightarrow> None))"

section \<open>The document\<close>

definition jstrings :: "string list \<Rightarrow> json" where
  "jstrings values = JArr (map JStr values)"

definition singbox_document :: "singbox_runtime_config \<Rightarrow> json" where
  "singbox_document config = JObj [
     (''log'', JObj [
        (''level'', JStr ''info''), (''timestamp'', JBool True),
        (''output'', JStr (sb_log_file config))]),
     (''dns'', JObj [
        (''servers'', JArr [JObj [
           (''type'', JStr ''https''), (''tag'', JStr ''proxy-doh''),
           (''server'', JStr kDnsServerAddress), (''server_port'', JNum kDnsServerPort),
           (''path'', JStr kDnsServerPath),
           (''tls'', JObj [(''enabled'', JBool True), (''server_name'', JStr kDnsServerName)]),
           (''detour'', JStr ''proxy'')]]),
        (''final'', JStr ''proxy-doh''), (''strategy'', JStr ''prefer_ipv4'')]),
     (''inbounds'', JArr [JObj [
        (''type'', JStr ''tun''), (''tag'', JStr ''tun-in''),
        (''interface_name'', JStr (sb_interface_name config)),
        (''address'', JArr [JStr kTunAddress]), (''mtu'', JNum kTunMtu),
        (''auto_route'', JBool True), (''auto_redirect'', JBool (sb_auto_redirect config)),
        (''strict_route'', JBool True), (''stack'', JStr ''system''),
        (''route_exclude_address'', jstrings (sb_bypass_cidrs config))]]),
     (''outbounds'', JArr [
        JObj [
          (''type'', JStr ''socks''), (''tag'', JStr ''proxy''),
          (''server'', JStr (address (sb_upstream config))),
          (''server_port'', JNum (unat (port (configured (sb_upstream config))))),
          (''version'', JStr ''5''), (''network'', JStr ''tcp'')],
        JObj [(''type'', JStr ''direct''), (''tag'', JStr ''direct'')]]),
     (''route'', JObj [
        (''rules'', JArr [
           JObj [(''ip_cidr'', jstrings (sb_bypass_cidrs config)), (''action'', JStr ''route''),
             (''outbound'', JStr ''direct'')],
           JObj [(''port'', JNum 53), (''action'', JStr ''hijack-dns'')],
           JObj [(''network'', JStr ''udp''), (''action'', JStr ''reject'')]]),
        (''final'', JStr ''proxy''), (''auto_detect_interface'', JBool True)])]"

section \<open>Reading back\<close>

lemma lex_run_append:
  "lex_run m a = Some (ts, m') \<Longrightarrow> lex_run m' b = Some (us, m'') \<Longrightarrow> lex_run m (a @ b) = Some (ts @ us, m'')"
  by (induction a arbitrary: m ts) (auto split: option.splits)

lemma hex_value_digits: "a < 16 \<Longrightarrow> hex_value (hex_digits ! a) = Some a"
proof -
  assume "a < 16"
  then have "a \<in> set [0..<16]" by simp
  moreover have "list_all (\<lambda>a. hex_value (hex_digits ! a) = Some a) [0..<16]" by code_simp
  ultimately show ?thesis by (simp add: list_all_iff)
qed

lemma lex_escaped_char: "lex_run (InStr s) (json_escape_char c) = Some ([], InStr (s @ [c]))"
proof (cases "(of_char c :: nat) < 0x20 \<and> c \<notin> {CHR 0x08, CHR 0x0C, CHR 0x0A, CHR 0x0D, CHR 0x09}")
  case False
  then show ?thesis by (auto simp: json_escape_char_def unescape_def)
next
  case True
  let ?n = "of_char c :: nat"
  have c: "c \<noteq> quote" "c \<noteq> backslash" using True by auto
  have "16 * (?n div 16) + ?n mod 16 = ?n" by simp
  then have n: "char_of (16 * (?n div 16) + ?n mod 16) = c" by simp
  have d: "hex_value (hex_digits ! (?n div 16)) = Some (?n div 16)" "hex_value (hex_digits ! (?n mod 16)) = Some (?n mod 16)"
    using True by (simp_all add: hex_value_digits less_mult_imp_div_less)
  have "hex_value (CHR ''0'') = Some 0" by (simp add: hex_value_def)
  with True c d n show ?thesis
    by (simp add: json_escape_char_def)
qed

lemma lex_escaped: "lex_run (InStr s) (jsonEscape t) = Some ([], InStr (s @ t))"
proof (induction t arbitrary: s)
  case (Cons c t)
  have "lex_run (InStr s) (json_escape_char c @ jsonEscape t) = Some ([] @ [], InStr ((s @ [c]) @ t))"
    by (rule lex_run_append [OF lex_escaped_char Cons.IH])
  then show ?case by (simp add: jsonEscape_def)
qed (simp add: jsonEscape_def)

lemma lex_quoted: "lex_run Blank (json_quoted t) = Some ([TStr t], Blank)"
proof -
  have "lex_run (InStr []) (jsonEscape t @ [quote]) = Some ([] @ [TStr t], Blank)"
    by (rule lex_run_append [OF lex_escaped]) simp
  then show ?thesis by (simp add: json_quoted_def lex_start_def)
qed

fun between :: "token \<Rightarrow> token list list \<Rightarrow> token list" where
  "between d [] = []"
| "between d (ts # tss) = (if tss = [] then ts else ts @ d # between d tss)"

fun json_tokens :: "json \<Rightarrow> token list" where
  "json_tokens (JStr s) = [TStr s]"
| "json_tokens (JNum n) = [TNum n]"
| "json_tokens (JBool b) = [TWord (if b then ''true'' else ''false'')]"
| "json_tokens JNull = [TWord ''null'']"
| "json_tokens (JArr vs) = TPunct (CHR ''['') # between (TPunct (CHR '','')) (map json_tokens vs) @ [TPunct (CHR '']'')]"
| "json_tokens (JObj ms) = TPunct (CHR ''{'') #
     between (TPunct (CHR '','')) (map (\<lambda>(k, v). TStr k # TPunct (CHR '':'') # json_tokens v) ms) @ [TPunct (CHR ''}'')]"

lemma lex_array: "lex_run Blank (writeStringArray vs) = Some (json_tokens (jstrings vs), Blank)"
proof -
  have "lex_run Blank (join '', '' (map json_quoted vs)) = Some (between (TPunct (CHR '','')) (map (\<lambda>v. [TStr v]) vs), Blank)"
  proof (induction vs)
    case (Cons v vs)
    show ?case
    proof (cases vs)
      case (Cons w ws)
      have "lex_run Blank (json_quoted v @ '', '' @ join '', '' (map json_quoted vs)) =
        Some ([TStr v] @ [TPunct (CHR '','')] @ between (TPunct (CHR '','')) (map (\<lambda>v. [TStr v]) vs), Blank)"
        by (intro lex_run_append [OF lex_quoted] lex_run_append [OF _ Cons.IH]) (simp add: lex_start_def)
      then show ?thesis using Cons by simp
    qed (simp add: lex_quoted)
  qed simp
  then have "lex_run Blank (''['' @ join '', '' (map json_quoted vs) @ '']'') =
    Some ([TPunct (CHR ''['')] @ between (TPunct (CHR '','')) (map (\<lambda>v. [TStr v]) vs) @ [TPunct (CHR '']'')], Blank)"
    by (intro lex_run_append [where m' = Blank]) (simp_all add: lex_start_def)
  then show ?thesis by (simp add: writeStringArray_def jstrings_def comp_def)
qed

lemma lex_digits: "\<forall>c \<in> set ds. is_digit c \<Longrightarrow> lex_run (InNum n) ds = Some ([], InNum (foldl (\<lambda>n c. 10 * n + digit_val c) n ds))"
  by (induction ds arbitrary: n) auto

lemma digit_starts: "is_digit c \<Longrightarrow> lex_start c = Some ([], InNum (digit_val c))"
proof -
  assume "is_digit c"
  then have "(of_char c :: nat) \<in> set [48..<58]" unfolding is_digit_def set_upt by simp
  moreover have "list_all (\<lambda>n. lex_start (char_of n) = Some ([], InNum (digit_val (char_of n)))) [48..<58]"
    by code_simp
  ultimately have "lex_start (char_of (of_char c :: nat)) = Some ([], InNum (digit_val (char_of (of_char c :: nat))))"
    unfolding list_all_iff by blast
  then show ?thesis by (simp only: char_of_char)
qed

lemma lex_number: "lex_run Blank (show_nat n) = Some ([], InNum n)"
proof -
  obtain c ds where s: "show_nat n = c # ds" using show_nat_not_Nil by (cases "show_nat n") blast+
  then have d: "is_digit c" "\<forall>c \<in> set ds. is_digit c" using show_nat_digits [of n] by auto
  have "digits_value (show_nat n) = n" by simp
  then show ?thesis using lex_digits [OF d(2)] digit_starts [OF d(1)] by (simp add: s digits_value_def)
qed


lemma json_tokens_hd: "\<exists>t ts. json_tokens v = t # ts \<and> t \<noteq> TPunct (CHR '']'') \<and> t \<noteq> TPunct (CHR ''}'')"
  by (cases v) auto

lemma json_tokens_length: "0 < length (json_tokens v)"
  using json_tokens_hd [of v] by auto

lemma length_between: "xs \<noteq> [] \<Longrightarrow> length (between d xs) + 1 = sum_list (map (\<lambda>x. length x + 1) xs)"
  by (induction d xs rule: between.induct) (auto split: if_splits)

text \<open>The parser inverts the tokens of a document.\<close>

lemma json_elements_tokens:
  assumes IH: "\<And>v n r. v \<in> set vs \<Longrightarrow> length (json_tokens v) \<le> n \<Longrightarrow> json_value n (json_tokens v @ r) = Some (v, r)"
  shows "vs \<noteq> [] \<Longrightarrow> length (between (TPunct (CHR '','')) (map json_tokens vs)) < n \<Longrightarrow>
    json_elements n (between (TPunct (CHR '','')) (map json_tokens vs) @ TPunct (CHR '']'') # r) = Some (vs, r)"
  using IH
proof (induction vs arbitrary: n)
  case (Cons v vs)
  obtain m where n: "n = Suc m" using Cons.prems(2) by (cases n) auto
  have v: "json_value m (json_tokens v @ x) = Some (v, x)" for x
    by (rule Cons.prems(3)) (use Cons.prems(2) n in \<open>auto split: if_splits\<close>)
  show ?case
  proof (cases "vs = []")
    case True
    then show ?thesis by (simp add: n v)
  next
    case False
    have "json_elements m (between (TPunct (CHR '','')) (map json_tokens vs) @ TPunct (CHR '']'') # r) = Some (vs, r)"
      by (rule Cons.IH [OF False]) (use Cons.prems False n in auto)
    with False show ?thesis by (simp add: n v)
  qed
qed simp

abbreviation member_tokens :: "string \<times> json \<Rightarrow> token list" where
  "member_tokens \<equiv> \<lambda>(k, v). TStr k # TPunct (CHR '':'') # json_tokens v"

lemma json_members_tokens:
  assumes IH: "\<And>k v n r. (k, v) \<in> set ms \<Longrightarrow> length (json_tokens v) \<le> n \<Longrightarrow> json_value n (json_tokens v @ r) = Some (v, r)"
  shows "ms \<noteq> [] \<Longrightarrow> length (between (TPunct (CHR '','')) (map member_tokens ms)) < n \<Longrightarrow>
    json_members n (between (TPunct (CHR '','')) (map member_tokens ms) @ TPunct (CHR ''}'') # r) = Some (ms, r)"
  using IH
proof (induction ms arbitrary: n)
  case (Cons kv ms)
  obtain k v where kv: "kv = (k, v)" by (cases kv)
  obtain m where n: "n = Suc m" using Cons.prems(2) by (cases n) auto
  have v: "json_value m (json_tokens v @ x) = Some (v, x)" for x
    by (rule Cons.prems(3) [of k]) (use Cons.prems(2) n kv in \<open>auto split: if_splits\<close>)
  show ?case
  proof (cases "ms = []")
    case True
    then show ?thesis by (simp add: n kv v)
  next
    case False
    have "json_members m (between (TPunct (CHR '','')) (map member_tokens ms) @ TPunct (CHR ''}'') # r) = Some (ms, r)"
      by (rule Cons.IH [OF False]) (use Cons.prems False n kv in auto)
    with False show ?thesis by (simp add: n kv v)
  qed
qed simp

lemma json_value_tokens: "length (json_tokens v) \<le> n \<Longrightarrow> json_value n (json_tokens v @ r) = Some (v, r)"
proof (induction v arbitrary: n r)
  case (JArr vs)
  obtain m where n: "n = Suc m" using JArr.prems by (cases n) auto
  show ?case
  proof (cases "vs = []")
    case True
    then show ?thesis by (simp add: n)
  next
    case False
    have e: "json_elements m (between (TPunct (CHR '','')) (map json_tokens vs) @ TPunct (CHR '']'') # r) = Some (vs, r)"
      by (rule json_elements_tokens) (use JArr False n in auto)
    obtain v ws where vs: "vs = v # ws" using False by (cases vs) auto
    obtain t ts where "json_tokens v = t # ts" "t \<noteq> TPunct (CHR '']'')" using json_tokens_hd by blast
    then have "\<exists>us. between (TPunct (CHR '','')) (map json_tokens vs) = t # us" by (simp add: vs)
    with e \<open>t \<noteq> TPunct (CHR '']'')\<close> show ?thesis by (auto simp: n)
  qed
next
  case (JObj ms)
  obtain m where n: "n = Suc m" using JObj.prems by (cases n) auto
  show ?case
  proof (cases "ms = []")
    case True
    then show ?thesis by (simp add: n)
  next
    case False
    have e: "json_members m (between (TPunct (CHR '','')) (map member_tokens ms) @ TPunct (CHR ''}'') # r) = Some (ms, r)"
    proof (rule json_members_tokens [OF _ False])
      fix k v n r assume "(k, v) \<in> set ms" "length (json_tokens v) \<le> n"
      then show "json_value n (json_tokens v @ r) = Some (v, r)" by (intro JObj.IH) (auto simp: snds.simps)
    qed (use JObj.prems n in simp)
    obtain k v ks where ms: "ms = (k, v) # ks" using False by (cases ms) auto
    have "\<exists>us. between (TPunct (CHR '','')) (map member_tokens ms) = TStr k # us" by (simp add: ms)
    with e show ?thesis by (auto simp: n)
  qed
qed (case_tac n; simp)+

lemma read_json_text:
  "lex_run Blank s = Some (json_tokens v, Blank) \<Longrightarrow> read_json s = Some v"
  using json_value_tokens [of v "length (json_tokens v)" "[]"] by (simp add: read_json_def lex_text_def)


section \<open>The document of a configuration\<close>

text \<open>The literal parts of the text, one by one.\<close>

abbreviation (input) arr_open :: token where "arr_open \<equiv> TPunct (CHR ''['')"
abbreviation (input) arr_close :: token where "arr_close \<equiv> TPunct (CHR '']'')"
abbreviation (input) obj_open :: token where "obj_open \<equiv> TPunct (CHR ''{'')"
abbreviation (input) obj_close :: token where "obj_close \<equiv> TPunct (CHR ''}'')"
abbreviation (input) comma :: token where "comma \<equiv> TPunct (CHR '','')"
abbreviation (input) colon :: token where "colon \<equiv> TPunct (CHR '':'')"

lemma lex_pieces_1:
  \<open>lex_run Blank ''{'' =
     Some ([obj_open], Blank)\<close>
  \<open>lex_run Blank [nl] =
     Some ([], Blank)\<close>
  \<open>lex_run Blank ''  "log": {"level": "info", "timestamp": true, "output": "'' =
     Some ([TStr ''log'', colon, obj_open, TStr ''level'', colon, TStr ''info'', comma,
     TStr ''timestamp'', colon, TWord ''true'', comma, TStr ''output'', colon], InStr [])\<close>
  \<open>lex_run (InStr s) ''"},'' =
     Some ([TStr s, obj_close, comma], Blank)\<close>
  \<open>lex_run Blank ''  "dns": {'' =
     Some ([TStr ''dns'', colon, obj_open], Blank)\<close>
  \<open>lex_run Blank ''    "servers": [{"type": "https", "tag": "proxy-doh", "server": "'' =
     Some ([TStr ''servers'', colon, arr_open, obj_open, TStr ''type'', colon, TStr ''https'',
     comma, TStr ''tag'', colon, TStr ''proxy-doh'', comma, TStr ''server'', colon], InStr
     [])\<close>
  \<open>lex_run (InStr s) ''", "server_port": '' =
     Some ([TStr s, comma, TStr ''server_port'', colon], Blank)\<close>
  \<open>lex_run (InNum n) '', "path": "'' =
     Some ([TNum n, comma, TStr ''path'', colon], InStr [])\<close>
  \<open>lex_run (InStr s) ''", "tls": {"enabled": true, "server_name": "'' =
     Some ([TStr s, comma, TStr ''tls'', colon, obj_open, TStr ''enabled'', colon,
     TWord ''true'', comma, TStr ''server_name'', colon], InStr [])\<close>
  \<open>lex_run (InStr s) ''"}, "detour": "proxy"}],'' =
     Some ([TStr s, obj_close, comma, TStr ''detour'', colon, TStr ''proxy'', obj_close,
     arr_close, comma], Blank)\<close>
  \<open>lex_run Blank ''    "final": "proxy-doh", "strategy": "prefer_ipv4"'' =
     Some ([TStr ''final'', colon, TStr ''proxy-doh'', comma, TStr ''strategy'', colon,
     TStr ''prefer_ipv4''], Blank)\<close>
  \<open>lex_run Blank ''  },'' =
     Some ([obj_close, comma], Blank)\<close>
  by (code_simp)+

lemma lex_pieces_2:
  \<open>lex_run Blank ''  "inbounds": [{'' =
     Some ([TStr ''inbounds'', colon, arr_open, obj_open], Blank)\<close>
  \<open>lex_run Blank ''    "type": "tun", "tag": "tun-in", "interface_name": "'' =
     Some ([TStr ''type'', colon, TStr ''tun'', comma, TStr ''tag'', colon, TStr ''tun-in'',
     comma, TStr ''interface_name'', colon], InStr [])\<close>
  \<open>lex_run (InStr s) ''",'' =
     Some ([TStr s, comma], Blank)\<close>
  \<open>lex_run Blank ''    "address": ["'' =
     Some ([TStr ''address'', colon, arr_open], InStr [])\<close>
  \<open>lex_run (InStr s) ''"], "mtu": '' =
     Some ([TStr s, arr_close, comma, TStr ''mtu'', colon], Blank)\<close>
  \<open>lex_run (InNum n) '', "auto_route": true,'' =
     Some ([TNum n, comma, TStr ''auto_route'', colon, TWord ''true'', comma], Blank)\<close>
  \<open>lex_run Blank ''    "auto_redirect": '' =
     Some ([TStr ''auto_redirect'', colon], Blank)\<close>
  \<open>lex_run (InWord w) '', "strict_route": true, "stack": "system",'' =
     Some ([TWord w, comma, TStr ''strict_route'', colon, TWord ''true'', comma, TStr ''stack'',
     colon, TStr ''system'', comma], Blank)\<close>
  \<open>lex_run Blank ''    "route_exclude_address": '' =
     Some ([TStr ''route_exclude_address'', colon], Blank)\<close>
  \<open>lex_run Blank ''  }],'' =
     Some ([obj_close, arr_close, comma], Blank)\<close>
  \<open>lex_run Blank ''  "outbounds": [{'' =
     Some ([TStr ''outbounds'', colon, arr_open, obj_open], Blank)\<close>
  \<open>lex_run Blank ''    "type": "socks", "tag": "proxy", "server": "'' =
     Some ([TStr ''type'', colon, TStr ''socks'', comma, TStr ''tag'', colon, TStr ''proxy'',
     comma, TStr ''server'', colon], InStr [])\<close>
  by (code_simp)+

lemma lex_pieces_3:
  \<open>lex_run (InNum n) '', "version": "5", "network": "tcp"'' =
     Some ([TNum n, comma, TStr ''version'', colon, TStr ''5'', comma, TStr ''network'', colon,
     TStr ''tcp''], Blank)\<close>
  \<open>lex_run Blank ''  }, {"type": "direct", "tag": "direct"}],'' =
     Some ([obj_close, comma, obj_open, TStr ''type'', colon, TStr ''direct'', comma,
     TStr ''tag'', colon, TStr ''direct'', obj_close, arr_close, comma], Blank)\<close>
  \<open>lex_run Blank ''  "route": {'' =
     Some ([TStr ''route'', colon, obj_open], Blank)\<close>
  \<open>lex_run Blank ''    "rules": [{"ip_cidr": '' =
     Some ([TStr ''rules'', colon, arr_open, obj_open, TStr ''ip_cidr'', colon], Blank)\<close>
  \<open>lex_run Blank '', "action": "route", "outbound": "direct"}, '' =
     Some ([comma, TStr ''action'', colon, TStr ''route'', comma, TStr ''outbound'', colon,
     TStr ''direct'', obj_close, comma], Blank)\<close>
  \<open>lex_run Blank ''{"port": 53, "action": "hijack-dns"}, '' =
     Some ([obj_open, TStr ''port'', colon, TNum 53, comma, TStr ''action'', colon,
     TStr ''hijack-dns'', obj_close, comma], Blank)\<close>
  \<open>lex_run Blank ''{"network": "udp", "action": "reject"}],'' =
     Some ([obj_open, TStr ''network'', colon, TStr ''udp'', comma, TStr ''action'', colon,
     TStr ''reject'', obj_close, arr_close, comma], Blank)\<close>
  \<open>lex_run Blank ''    "final": "proxy", "auto_detect_interface": true'' =
     Some ([TStr ''final'', colon, TStr ''proxy'', comma, TStr ''auto_detect_interface'', colon],
     InWord ''true'')\<close>
  \<open>lex_run (InWord w) [nl] =
     Some ([TWord w], Blank)\<close>
  \<open>lex_run Blank ''  }'' =
     Some ([obj_close], Blank)\<close>
  \<open>lex_run Blank ''}'' =
     Some ([obj_close], Blank)\<close>
  by (code_simp)+


lemma lex_constants:
  "lex_run (InStr []) kDnsServerAddress = Some ([], InStr kDnsServerAddress)"
  "lex_run (InStr []) kDnsServerPath = Some ([], InStr kDnsServerPath)"
  "lex_run (InStr []) kDnsServerName = Some ([], InStr kDnsServerName)"
  "lex_run (InStr []) kTunAddress = Some ([], InStr kTunAddress)"
  by (code_simp)+

lemma lex_choice:
  "lex_run Blank (if b then ''true'' else ''false'') = Some ([], InWord (if b then ''true'' else ''false''))"
  by (cases b) (simp_all only: if_True if_False, code_simp, code_simp)

lemma lex_hole: "lex_run (InStr []) (jsonEscape t) = Some ([], InStr t)"
  using lex_escaped [of "[]" t] by simp

lemma lex_run_cat:
  "lex_run m (a @ b) = (case lex_run m a of None \<Rightarrow> None
     | Some (ts, m') \<Rightarrow> map_option (\<lambda>(us, m''). (ts @ us, m'')) (lex_run m' b))"
  by (induction a arbitrary: m)
    (auto simp: option.map_ident case_prod_unfold option.map_comp comp_def split: option.splits)

lemma lex_singbox_text:
  "lex_run Blank (singbox_text config) = Some (json_tokens (singbox_document config), Blank)"
  unfolding singbox_text_def
  by (simp only: lex_run_cat lex_choice lex_hole lex_constants lex_number lex_array lex_pieces_1 lex_pieces_2 lex_pieces_3
      option.case prod.case option.map)
    (simp add: singbox_document_def)

section \<open>Properties\<close>

text \<open>C24: The core's configuration says what was meant, for any bytes. Building it fails exactly
  where the upstream address or the bypass list is empty, with \<open>InvalidConfiguration\<close>; otherwise
  the text is well-formed JSON that reads as the intended document: the TUN interface with the
  excluded ranges, the SOCKS5 outbound to the probed address and the configured port, the routing
  rules, and nothing else. Quotes, backslashes and control bytes in a value stay in that value.\<close>

theorem singbox_config_reads_back:
  "case buildSingBoxConfig config of
     Inl e \<Rightarrow> err_code e = InvalidConfiguration \<and>
       (address (sb_upstream config) = [] \<or> sb_bypass_cidrs config = [])
   | Inr t \<Rightarrow> address (sb_upstream config) \<noteq> [] \<and> sb_bypass_cidrs config \<noteq> [] \<and>
       read_json t = Some (singbox_document config)"
  by (auto simp: buildSingBoxConfig_def read_json_text [OF lex_singbox_text])

end
