(* ===== verification/InetAddr.thy ===== *)
theory InetAddr
  imports Paths
begin

text \<open>
  The address conversions \<^verbatim>\<open>inet_pton\<close> and \<^verbatim>\<open>inet_ntop\<close> belong to the C library and are
  parameters of the model. \<open>address_codec\<close> is what the sources rely on: a conversion to
  text can be read back, in its own family only, and its text has no slash and no zero byte.
  The reference conversions below (dotted decimal; colon-separated groups with at most one
  \<open>::\<close>) satisfy it.
\<close>

locale address_codec =
  fixes I :: inet
  assumes pton4_length: "pton4 I s = Some a \<Longrightarrow> length a = 4"
    and pton6_length: "pton6 I s = Some a \<Longrightarrow> length a = 16"
    and ntop4_readable: "length a = 4 \<Longrightarrow>
      \<exists>t. ntop4 I a = Some t \<and> t \<noteq> [] \<and> slash \<notin> set t \<and> CHR 0x00 \<notin> set t \<and> pton4 I t = Some a"
    and ntop6_readable: "length a = 16 \<Longrightarrow>
      \<exists>t. ntop6 I a = Some t \<and> t \<noteq> [] \<and> slash \<notin> set t \<and> CHR 0x00 \<notin> set t \<and>
        pton4 I t = None \<and> pton6 I t = Some a"
begin

lemma ntop4_inject:
  "length a = 4 \<Longrightarrow> length b = 4 \<Longrightarrow> ntop4 I a = ntop4 I b \<longleftrightarrow> a = b"
  using ntop4_readable by (metis option.inject)

lemma ntop6_inject:
  "length a = 16 \<Longrightarrow> length b = 16 \<Longrightarrow> ntop6 I a = ntop6 I b \<longleftrightarrow> a = b"
  using ntop6_readable by (metis option.inject)

lemma ntop_disjoint: "length a = 4 \<Longrightarrow> length b = 16 \<Longrightarrow> ntop4 I a \<noteq> ntop6 I b"
  using ntop4_readable [of a] ntop6_readable [of b] by force

end

section \<open>Dotted decimal\<close>

definition octet_of_text :: "string \<Rightarrow> byte option" where
  "octet_of_text g =
     (if g \<noteq> [] \<and> length g \<le> 3 \<and> list_all is_digit g \<and> (hd g = CHR ''0'' \<longrightarrow> length g = 1)
         \<and> digits_value g \<le> 255
      then Some (word_of_nat (digits_value g)) else None)"

definition all_some :: "'a option list \<Rightarrow> 'a list option" where
  "all_some xs = (if None \<in> set xs then None else Some (map the xs))"

lemma all_some_Some [simp]: "all_some (map Some xs) = Some xs"
  by (simp add: all_some_def comp_def)

lemma all_some_member: "all_some (map f xs) = Some ys \<Longrightarrow> y \<in> set ys \<Longrightarrow> \<exists>x. f x = Some y"
proof -
  assume "all_some (map f xs) = Some ys" and "y \<in> set ys"
  then obtain x where "x \<in> set xs" and y: "y = the (f x)" and "None \<notin> set (map f xs)"
    by (auto simp: all_some_def split: if_splits)
  then have "f x \<noteq> None" by (metis image_eqI list.set_map)
  with y show ?thesis by auto
qed

lemma all_some_length: "all_some xs = Some ys \<Longrightarrow> length ys = length xs"
  by (auto simp: all_some_def split: if_splits)

definition ref_pton4 :: "string \<Rightarrow> byte list option" where
  "ref_pton4 s =
     (let gs = split_on CHR ''.'' s
      in if length gs = 4 then all_some (map octet_of_text gs) else None)"

definition ref_ntop4 :: "byte list \<Rightarrow> string option" where
  "ref_ntop4 a =
     (if length a = 4 then Some (join ''.'' (map (\<lambda>b. show_nat (unat b)) a)) else None)"

lemma show_nat_small: "n < 256 \<Longrightarrow>
   length (show_nat n) \<le> 3 \<and> (hd (show_nat n) = CHR ''0'' \<longrightarrow> length (show_nat n) = 1)"
proof -
  assume n: "n < 256"
  have zero: "d < 10 \<Longrightarrow> digit_char d = CHR ''0'' \<Longrightarrow> d = 0" for d
    using digit_val_digit_char [of d] by (simp add: digit_val_def)
  have s1: "m < 10 \<Longrightarrow> show_nat m = [digit_char m]" for m by (simp add: show_nat.simps)
  have s2: "10 \<le> m \<Longrightarrow> m < 100 \<Longrightarrow> show_nat m = [digit_char (m div 10), digit_char (m mod 10)]" for m
    by (subst show_nat.simps) (simp add: s1)
  have s3: "100 \<le> m \<Longrightarrow> m < 256 \<Longrightarrow> show_nat m =
      [digit_char (m div 10 div 10), digit_char (m div 10 mod 10), digit_char (m mod 10)]" for m
    by (subst show_nat.simps) (simp add: s2)
  consider "n < 10" | "10 \<le> n" "n < 100" | "100 \<le> n" by linarith
  then show ?thesis
  proof cases
    case 1
    then show ?thesis by (simp add: s1)
  next
    case 2
    then have "n div 10 < 10" "n div 10 > 0"
      using div_greater_zero_iff [of n 10] less_mult_imp_div_less [of n 10 10] by auto
    then have "digit_char (n div 10) \<noteq> CHR ''0''" using zero [of "n div 10"] by force
    with s2 [OF 2] show ?thesis by simp
  next
    case 3
    then have "n div 10 div 10 > 0" "n div 10 div 10 < 10"
      using n div_greater_zero_iff [of n 100] less_mult_imp_div_less [of n 10 100]
      by (simp_all add: div_mult2_eq [symmetric])
    then have "digit_char (n div 10 div 10) \<noteq> CHR ''0''"
      using zero [of "n div 10 div 10"] by force
    with s3 [OF 3 n] show ?thesis by simp
  qed
qed

lemma octet_of_show [simp]: "octet_of_text (show_nat (unat (b :: byte))) = Some b"
proof -
  have "unat b < 256" using unsigned_less [where ?'a = nat, of b] by simp
  then show ?thesis
    using show_nat_small [of "unat b"] show_nat_digits [of "unat b"]
    by (auto simp: octet_of_text_def list_all_iff)
qed

lemma ref_ntop4_readable:
  assumes "length a = 4"
  shows "\<exists>t. ref_ntop4 a = Some t \<and> t \<noteq> [] \<and> slash \<notin> set t \<and> CHR 0x00 \<notin> set t
    \<and> CHR '':'' \<notin> set t \<and> ref_pton4 t = Some a"
proof -
  let ?gs = "map (\<lambda>b. show_nat (unat b)) a"
  have ne: "?gs \<noteq> []" using assms by auto
  have "split_on CHR ''.'' (join ''.'' ?gs) = ?gs"
    by (rule split_on_join) (use ne in auto)
  moreover have "map octet_of_text ?gs = map Some a" by simp
  ultimately have "ref_pton4 (join ''.'' ?gs) = Some a"
    using assms by (simp add: ref_pton4_def del: map_map)
  moreover have "c \<notin> set (join ''.'' ?gs)" if "c \<in> {slash, CHR 0x00, CHR '':''}" for c
    using join_set [of "''.''" ?gs] that by auto
  moreover have "join ''.'' ?gs \<noteq> []" using assms by (cases a; cases "tl a") auto
  ultimately show ?thesis using assms by (simp add: ref_ntop4_def)
qed

section \<open>Groups of hexadecimal digits\<close>

definition hex_char :: "nat \<Rightarrow> char" where
  "hex_char d = (if d < 10 then char_of (48 + d) else char_of (87 + d))"

definition hex_val :: "char \<Rightarrow> nat option" where
  "hex_val c =
     (let n = of_char c :: nat
      in if 48 \<le> n \<and> n \<le> 57 then Some (n - 48)
         else if 97 \<le> n \<and> n \<le> 102 then Some (n - 87)
         else if 65 \<le> n \<and> n \<le> 70 then Some (n - 55)
         else None)"

lemma hex_val_hex_char [simp]: "d < 16 \<Longrightarrow> hex_val (hex_char d) = Some d"
  by (auto simp: hex_val_def hex_char_def Let_def)

definition group_of_text :: "string \<Rightarrow> byte list option" where
  "group_of_text g =
     (if g = [] \<or> 4 < length g then None
      else map_option (\<lambda>ds. let v = foldl (\<lambda>n d. 16 * n + d) 0 ds
                            in [word_of_nat (v div 256), word_of_nat (v mod 256)])
             (all_some (map hex_val g)))"

definition groups_of_text :: "string \<Rightarrow> byte list list option" where
  "groups_of_text s =
     (if s = [] then Some [] else all_some (map group_of_text (split_on CHR '':'' s)))"

definition ref_pton6 :: "string \<Rightarrow> byte list option" where
  "ref_pton6 s =
     (case find_str ''::'' s of
        None \<Rightarrow>
          (case groups_of_text s of
             Some gs \<Rightarrow> if length gs = 8 then Some (concat gs) else None
           | None \<Rightarrow> None)
      | Some i \<Rightarrow>
          (case (groups_of_text (take i s), groups_of_text (drop (i + 2) s)) of
             (Some ls, Some rs) \<Rightarrow>
               if length ls + length rs \<le> 7
               then Some (concat ls @ replicate (2 * (8 - length ls - length rs)) 0 @ concat rs)
               else None
           | _ \<Rightarrow> None))"

definition group_text :: "byte \<Rightarrow> byte \<Rightarrow> string" where
  "group_text x y =
     [hex_char (unat x div 16), hex_char (unat x mod 16),
      hex_char (unat y div 16), hex_char (unat y mod 16)]"

fun group_texts :: "byte list \<Rightarrow> string list" where
  "group_texts (x # y # rest) = group_text x y # group_texts rest"
| "group_texts _ = []"

definition ref_ntop6 :: "byte list \<Rightarrow> string option" where
  "ref_ntop6 a = (if length a = 16 then Some (join '':'' (group_texts a)) else None)"

definition ref_inet :: inet where
  "ref_inet = \<lparr>pton4 = ref_pton4, pton6 = ref_pton6, ntop4 = ref_ntop4, ntop6 = ref_ntop6\<rparr>"

lemma unat_byte_less [simp]: "unat (b :: byte) < 256"
  using unsigned_less [where ?'a = nat, of b] by simp

lemma nibbles [simp]: "unat (b :: byte) div 16 < 16" "unat b mod 16 < 16"
  using unat_byte_less [of b] by (linarith, simp)

lemma hex_char_avoids:
  "d < 16 \<Longrightarrow> hex_char d \<notin> {CHR '':'', CHR ''.'', slash, CHR 0x00, CHR ''\"'', CHR 0x5C}"
proof -
  assume "d < 16"
  then have "(of_char (hex_char d) :: nat) \<in> {48 ..< 58} \<union> {97 ..< 103}"
    by (auto simp: hex_char_def)
  then show ?thesis by auto
qed

lemma hex_char_neqs [simp]:
  "d < 16 \<Longrightarrow> hex_char d \<noteq> CHR '':''" "d < 16 \<Longrightarrow> hex_char d \<noteq> CHR ''.''"
  "d < 16 \<Longrightarrow> hex_char d \<noteq> slash" "d < 16 \<Longrightarrow> hex_char d \<noteq> CHR 0x00"
  using hex_char_avoids by blast+

lemma hex_char_neqs_sym [simp]:
  "d < 16 \<Longrightarrow> CHR '':'' \<noteq> hex_char d" "d < 16 \<Longrightarrow> CHR ''.'' \<noteq> hex_char d"
  "d < 16 \<Longrightarrow> slash \<noteq> hex_char d" "d < 16 \<Longrightarrow> CHR 0x00 \<noteq> hex_char d"
  using hex_char_neqs [of d] by metis+

lemma group_of_group_text [simp]: "group_of_text (group_text x y) = Some [x, y]"
proof -
  let ?X = "unat x" and ?Y = "unat y"
  have v: "16 * (16 * (16 * (?X div 16) + ?X mod 16) + ?Y div 16) + ?Y mod 16 = 256 * ?X + ?Y"
    by presburger
  have "all_some (map hex_val (group_text x y)) =
      Some [?X div 16, ?X mod 16, ?Y div 16, ?Y mod 16]"
    by (simp add: group_text_def all_some_def)
  then show ?thesis
    by (simp add: group_of_text_def Let_def v) (simp add: group_text_def)
qed

lemma group_text_set:
  "c \<in> set (group_text x y) \<Longrightarrow> c \<notin> {CHR '':'', CHR ''.'', slash, CHR 0x00}"
  by (auto simp: group_text_def)

lemma group_texts_set:
  "g \<in> set (group_texts a) \<Longrightarrow> c \<in> set g \<Longrightarrow> c \<notin> {CHR '':'', CHR ''.'', slash, CHR 0x00}"
proof (induction a rule: group_texts.induct)
  case (1 x y rest)
  then show ?case using group_text_set [of c x y] by auto
qed simp_all

lemma group_texts_parse:
  "even (length a) \<Longrightarrow> map group_of_text (group_texts a) = map Some (map (\<lambda>i. [a ! (2*i), a ! (2*i+1)]) [0 ..< length a div 2])"
proof (induction a rule: group_texts.induct)
  case (1 x y rest)
  have "[0 ..< length (x # y # rest) div 2] = 0 # map Suc [0 ..< length rest div 2]"
    by (simp add: upt_conv_Cons map_Suc_upt del: upt_Suc)
  with 1 show ?case by simp
qed simp_all

lemma length16E:
  assumes "length a = 16"
  obtains x0 x1 x2 x3 x4 x5 x6 x7 x8 x9 xa xb xc xd xe xf
  where "a = [x0, x1, x2, x3, x4, x5, x6, x7, x8, x9, xa, xb, xc, xd, xe, xf]"
  using assms by (auto simp: length_Suc_conv numeral_eq_Suc)

lemma find_str_cons_neq: "x \<noteq> p \<Longrightarrow> find_str (p # ps) (x # xs) = map_option Suc (find_str (p # ps) xs)"
  by simp

lemma find_double_colon_step:
  "find_str ''::'' (group_text u v @ s) = None \<Longrightarrow>
   find_str ''::'' (group_text x y @ CHR '':'' # group_text u v @ s) = None"
  by (simp add: group_text_def)

lemma find_double_colon_last: "find_str ''::'' (group_text x y) = None"
  by (simp add: group_text_def)

lemma find_double_colon_groups:
  "find_str ''::'' (join '':'' (group_texts a)) = None"
proof (induction a rule: group_texts.induct)
  case (1 x y rest)
  show ?case
  proof (cases "group_texts rest")
    case Nil
    then show ?thesis by (simp add: find_double_colon_last)
  next
    case (Cons g gs)
    then obtain u v r where "rest = u # v # r" "g = group_text u v" "gs = group_texts r"
      by (cases rest rule: group_texts.cases) auto
    moreover obtain s where "join '':'' (g # gs) = g @ s"
      by (cases gs) auto
    ultimately show ?thesis
      using 1 find_double_colon_step [of u v s x y] Cons by simp
  qed
qed simp_all

lemma ref_ntop6_readable:
  assumes "length a = 16"
  shows "\<exists>t. ref_ntop6 a = Some t \<and> t \<noteq> [] \<and> slash \<notin> set t \<and> CHR 0x00 \<notin> set t \<and>
    ref_pton4 t = None \<and> ref_pton6 t = Some a"
proof -
  let ?gs = "group_texts a" and ?t = "join '':'' (group_texts a)"
  from assms obtain x0 x1 x2 x3 x4 x5 x6 x7 x8 x9 xa xb xc xd xe xf
    where a: "a = [x0, x1, x2, x3, x4, x5, x6, x7, x8, x9, xa, xb, xc, xd, xe, xf]"
    by (rule length16E)
  have avoid: "c \<notin> set ?t" if "c \<in> {CHR ''.'', slash, CHR 0x00}" for c
    using join_set [of "'':''" ?gs] group_texts_set [of _ a] that by fastforce
  have ne: "?t \<noteq> []" by (simp add: a group_text_def)
  have "split_on CHR '':'' ?t = ?gs"
    by (rule split_on_join) (use group_texts_set [of _ a] in \<open>auto simp: a\<close>)
  then have "groups_of_text ?t = all_some (map group_of_text ?gs)"
    using ne by (simp add: groups_of_text_def)
  also have "\<dots> = Some [[x0, x1], [x2, x3], [x4, x5], [x6, x7], [x8, x9], [xa, xb], [xc, xd], [xe, xf]]"
    by (simp add: a all_some_def)
  finally have "ref_pton6 ?t = Some a"
    using find_double_colon_groups [of a] by (simp add: ref_pton6_def a)
  moreover have "ref_pton4 ?t = None"
    using avoid split_on_single [of "CHR ''.''" ?t] by (simp add: ref_pton4_def)
  ultimately show ?thesis using avoid ne assms by (simp add: ref_ntop6_def)
qed

lemma ref_pton6_length: "ref_pton6 s = Some a \<Longrightarrow> length a = 16"
proof -
  have two: "length (concat gs) = 2 * length gs"
    if "all_some (map group_of_text xs) = Some gs" for xs gs
  proof -
    have "length g = 2" if "group_of_text t = Some g" for t g
      using that by (auto simp: group_of_text_def Let_def split: if_splits)
    moreover have "\<exists>t. group_of_text t = Some g" if "g \<in> set gs" for g
      using \<open>all_some (map group_of_text xs) = Some gs\<close> that by (rule all_some_member)
    ultimately have "\<forall>g \<in> set gs. length g = 2" by blast
    then show ?thesis by (induction gs) auto
  qed
  have g: "length (concat gs) = 2 * length gs" if "groups_of_text t = Some gs" for t gs
    using that two by (auto simp: groups_of_text_def split: if_splits)
  assume "ref_pton6 s = Some a"
  then show ?thesis
    by (auto simp: ref_pton6_def g split: option.splits if_splits)
qed

interpretation ref: address_codec ref_inet
proof
  show "pton4 ref_inet s = Some a \<Longrightarrow> length a = 4" for s a
    by (auto simp: ref_inet_def ref_pton4_def Let_def split: if_splits dest: all_some_length)
  show "pton6 ref_inet s = Some a \<Longrightarrow> length a = 16" for s a
    by (simp add: ref_inet_def ref_pton6_length)
  show "length a = 4 \<Longrightarrow> \<exists>t. ntop4 ref_inet a = Some t \<and> t \<noteq> [] \<and> slash \<notin> set t \<and>
      CHR 0x00 \<notin> set t \<and> pton4 ref_inet t = Some a" for a
    using ref_ntop4_readable by (fastforce simp: ref_inet_def)
  show "length a = 16 \<Longrightarrow> \<exists>t. ntop6 ref_inet a = Some t \<and> t \<noteq> [] \<and> slash \<notin> set t \<and>
      CHR 0x00 \<notin> set t \<and> pton4 ref_inet t = None \<and> pton6 ref_inet t = Some a" for a
    using ref_ntop6_readable by (simp add: ref_inet_def)
qed

end
