(* ===== verification/BypassPolicy.thy ===== *)
theory BypassPolicy
  imports InetAddr
begin

text \<open>
  \<^verbatim>\<open>src/bypass_policy.cpp\<close>: CIDR blocks in binary form, the fixed ranges, the host
  addresses of the active interfaces, and the list that goes into the routing rules.

  A block denotes a set of addresses. The lemmas relate every operation to these sets:
  \<^verbatim>\<open>containsCidr\<close> decides inclusion, \<^verbatim>\<open>overlapsTunAddressSpace\<close> decides whether the
  TUN range is met, parsing clears exactly the host bits, and \<^verbatim>\<open>allCidrs\<close> drops entries
  without losing an address.
\<close>

section \<open>Blocks\<close>

record binary_cidr =
  cidr_family :: family
  cidr_address :: "byte list"
  cidr_prefix :: nat

definition family_bytes :: "family \<Rightarrow> nat" where
  "family_bytes f = (if f = AF_INET then 4 else 16)"

text \<open>\<open>address[full_bytes] &= 0xff << (8 - remaining_bits)\<close>, then the bytes behind are cleared.\<close>

definition mask_address :: "nat \<Rightarrow> nat \<Rightarrow> byte list \<Rightarrow> byte list" where
  "mask_address bytes prefix address =
     (let full_bytes = prefix div 8;
          remaining_bits = prefix mod 8;
          masked = (if remaining_bits \<noteq> 0 \<and> full_bytes < bytes
                    then address[full_bytes :=
                           and (address ! full_bytes) (ucast (push_bit (8 - remaining_bits) (0xFF :: u32)))]
                    else address);
          clear_from = full_bytes + (if remaining_bits = 0 then 0 else 1)
      in take clear_from masked @ replicate (bytes - clear_from) 0 @ drop (max clear_from bytes) masked)"

definition zero_padded :: "byte list \<Rightarrow> byte list" where
  "zero_padded a = a @ replicate (16 - length a) 0"

definition parse_address :: "inet \<Rightarrow> string \<Rightarrow> (family \<times> byte list) option" where
  "parse_address I text =
     (case pton4 I (c_str text) of
        Some a \<Rightarrow> Some (AF_INET, zero_padded a)
      | None \<Rightarrow>
          (case pton6 I (c_str text) of
             Some a \<Rightarrow> Some (AF_INET6, zero_padded a)
           | None \<Rightarrow> None))"

definition parseCidr :: "inet \<Rightarrow> string \<Rightarrow> binary_cidr result" where
  "parseCidr I cidr =
     (case rfind_char slash cidr of
        None \<Rightarrow> failure InvalidConfiguration (''invalid CIDR: '' @ cidr)
      | Some separator \<Rightarrow>
          if separator = 0 \<or> length cidr \<le> separator + 1 then
            failure InvalidConfiguration (''invalid CIDR: '' @ cidr)
          else
            let address_text = take separator cidr; prefix_text = drop (separator + 1) cidr
            in (case from_chars_unsigned (2 ^ 32 - 1) prefix_text of
                  FcOk prefix [] \<Rightarrow>
                    (case parse_address I address_text of
                       None \<Rightarrow>
                         failure InvalidConfiguration (''invalid CIDR address: '' @ address_text)
                     | Some (f, address) \<Rightarrow>
                         if f = AF_INET \<and> 32 < prefix then
                           failure InvalidConfiguration ''invalid IPv4 CIDR prefix''
                         else if f = AF_INET6 \<and> 128 < prefix then
                           failure InvalidConfiguration ''invalid IPv6 CIDR prefix''
                         else success \<lparr>cidr_family = f,
                                cidr_address = mask_address (family_bytes f) prefix address,
                                cidr_prefix = prefix\<rparr>)
                | _ \<Rightarrow> failure InvalidConfiguration (''invalid CIDR prefix: '' @ cidr)))"

definition format_address :: "inet \<Rightarrow> family \<Rightarrow> byte list \<Rightarrow> string option" where
  "format_address I f address =
     (case f of
        AF_INET \<Rightarrow> ntop4 I (take 4 address)
      | AF_INET6 \<Rightarrow> ntop6 I address
      | _ \<Rightarrow> None)"

definition formatCidr :: "inet \<Rightarrow> binary_cidr \<Rightarrow> string" where
  "formatCidr I c =
     (case format_address I (cidr_family c) (cidr_address c) of
        None \<Rightarrow> []
      | Some text \<Rightarrow> text @ ''/'' @ show_nat (cidr_prefix c))"

definition address_bit :: "byte list \<Rightarrow> nat \<Rightarrow> byte" where
  "address_bit a i = and (drop_bit (7 - i mod 8) (a ! (i div 8))) 1"

definition overlapsTunAddressSpace :: "binary_cidr \<Rightarrow> bool" where
  "overlapsTunAddressSpace c =
     (if cidr_family c \<noteq> AF_INET then False
      else let shared_prefix = min (cidr_prefix c) kTunAddressSpacePrefixBits
           in list_all (\<lambda>i. address_bit (cidr_address c) i = address_bit kTunAddressSpacePrefix i)
                [0 ..< shared_prefix])"

definition containsCidr :: "binary_cidr \<Rightarrow> binary_cidr \<Rightarrow> bool" where
  "containsCidr outer inner =
     (if cidr_family outer \<noteq> cidr_family inner \<or> cidr_prefix inner < cidr_prefix outer then False
      else list_all (\<lambda>i. address_bit (cidr_address outer) i = address_bit (cidr_address inner) i)
             [0 ..< cidr_prefix outer])"

definition isUnspecifiedAddress :: "binary_cidr \<Rightarrow> bool" where
  "isUnspecifiedAddress c \<longleftrightarrow>
     list_all (\<lambda>b. b = 0) (take (family_bytes (cidr_family c)) (cidr_address c))"

section \<open>Interface addresses\<close>

type_synonym seen_output = "string list \<times> string set"

definition appendInterfaceAddress ::
  "inet \<Rightarrow> binary_cidr \<Rightarrow> seen_output \<Rightarrow> unit result \<times> seen_output" where
  "appendInterfaceAddress I c st =
     (let (output, seen) = st
      in if isUnspecifiedAddress c \<or> overlapsTunAddressSpace c then (success (), st)
         else let formatted = formatCidr I c
         in if formatted = [] then
              (failure StateError ''cannot format detected network address'', st)
            else if \<exists>existing_text \<in> seen.
                (case parseCidr I existing_text of
                   Inl _ \<Rightarrow> False
                 | Inr existing \<Rightarrow> containsCidr existing c) then (success (), st)
            else if formatted \<notin> seen then
              (if kMaximumInterfaceCidrs \<le> length output then
                 (failure StateError
                    (''more than '' @ show_nat kMaximumInterfaceCidrs @
                     '' active interface addresses were detected; refusing an incomplete bypass policy''),
                  (output, insert formatted seen))
               else (success (), (output @ [formatted], insert formatted seen)))
            else (success (), st))"

definition skipped_interface :: "string \<Rightarrow> ifaddr \<Rightarrow> bool" where
  "skipped_interface excluded current \<longleftrightarrow>
     ifa_addr current = None \<or> ifa_name current = None \<or> \<not> ifa_up current
     \<or> ifa_name current = Some excluded
     \<or> fst (the (ifa_addr current)) \<noteq> AF_INET \<and> fst (the (ifa_addr current)) \<noteq> AF_INET6"

definition host_cidr :: "family \<times> byte list \<Rightarrow> binary_cidr" where
  "host_cidr fa =
     \<lparr>cidr_family = fst fa,
      cidr_address = zero_padded (take (family_bytes (fst fa)) (snd fa)),
      cidr_prefix = (if fst fa = AF_INET then 32 else 128)\<rparr>"

fun collect_addresses ::
  "inet \<Rightarrow> string \<Rightarrow> ifaddr list \<Rightarrow> seen_output \<Rightarrow> unit result \<times> seen_output" where
  "collect_addresses I excluded [] st = (success (), st)"
| "collect_addresses I excluded (current # rest) st =
     (if skipped_interface excluded current then collect_addresses I excluded rest st
      else (case appendInterfaceAddress I (host_cidr (the (ifa_addr current))) st of
              (Inl e, st') \<Rightarrow> (Inl e, st')
            | (Inr _, st') \<Rightarrow> collect_addresses I excluded rest st'))"

definition collectInterfaceAddresses ::
  "os \<Rightarrow> string \<Rightarrow> seen_output \<Rightarrow> hist \<Rightarrow> (unit result \<times> seen_output) run" where
  "collectInterfaceAddresses S excluded st h = do {
     (got, h') \<leftarrow> sys S CGetIfAddrs h;
     if r_ret got \<noteq> 0 then
       Some ((failure StateError
         (''cannot enumerate local interface addresses: '' @ strerror S (cur_errno h')), st), h')
     else Some (collect_addresses (inet_of S) excluded (interfaces S h) st, h')
   }"

section \<open>The policy\<close>

record bypass_policy =
  fixed_cidrs :: "string list"
  interface_cidrs :: "string list"
  upstream_cidr :: string

definition fixedBypassCidrs :: "string list" where
  "fixedBypassCidrs =
     [''127.0.0.0/8'', ''::1/128'', ''10.0.0.0/8'', ''172.16.0.0/12'', ''192.168.0.0/16'',
      ''100.64.0.0/10'', ''169.254.0.0/16'', ''fe80::/10'', ''fc00::/7'', ''224.0.0.0/4'',
      ''ff00::/8'', ''255.255.255.255/32'']"

definition canonicalizeCidr :: "inet \<Rightarrow> string \<Rightarrow> string result" where
  "canonicalizeCidr I cidr =
     (case parseCidr I cidr of
        Inl e \<Rightarrow> Inl e
      | Inr c \<Rightarrow>
          let formatted = formatCidr I c
          in if formatted = [] then failure InvalidConfiguration ''cannot format CIDR''
             else success formatted)"

definition addressHostCidr :: "inet \<Rightarrow> string \<Rightarrow> string result" where
  "addressHostCidr I address =
     (case parse_address I address of
        None \<Rightarrow> failure InvalidConfiguration ''upstream address is not an IP address''
      | Some (f, a) \<Rightarrow>
          let c = \<lparr>cidr_family = f, cidr_address = a,
                   cidr_prefix = (if f = AF_INET then 32 else 128)\<rparr>
          in if isUnspecifiedAddress c then
               failure InvalidConfiguration ''upstream address is unspecified''
             else success (formatCidr I c))"

type_synonym merged = "string list \<times> binary_cidr list"

definition append_cidr :: "inet \<Rightarrow> bool \<Rightarrow> string \<Rightarrow> merged \<Rightarrow> merged" where
  "append_cidr I mandatory cidr st =
     (let (output, parsed_output) = st
      in if cidr = [] then st
         else (case parseCidr I cidr of
           Inl _ \<Rightarrow> st
         | Inr parsed \<Rightarrow>
             if \<not> mandatory \<and> list_ex (\<lambda>existing. containsCidr existing parsed) parsed_output then st
             else if \<not> list_ex (\<lambda>existing. cidr_family existing = cidr_family parsed
                      \<and> cidr_prefix existing = cidr_prefix parsed
                      \<and> cidr_address existing = cidr_address parsed) parsed_output
             then (output @ [cidr], parsed_output @ [parsed])
             else st))"

definition merge_cidrs :: "inet \<Rightarrow> bypass_policy \<Rightarrow> merged" where
  "merge_cidrs I p =
     (let st = (if upstream_cidr p \<noteq> [] then append_cidr I True (upstream_cidr p) ([], []) else ([], []));
          st = fold (append_cidr I False) (fixed_cidrs p) st
      in fold (append_cidr I False) (interface_cidrs p) st)"

definition allCidrs :: "inet \<Rightarrow> bypass_policy \<Rightarrow> string list" where
  "allCidrs I p = fst (merge_cidrs I p)"

definition collectBypassPolicy ::
  "os \<Rightarrow> string \<Rightarrow> string \<Rightarrow> hist \<Rightarrow> bypass_policy result run" where
  "collectBypassPolicy S upstream_address excluded_interface h = do {
     ((collected, interface_list, _), h) \<leftarrow>
       collectInterfaceAddresses S excluded_interface ([], set fixedBypassCidrs) h;
     case collected of
       Inl e \<Rightarrow> Some (Inl e, h)
     | Inr _ \<Rightarrow>
         if upstream_address \<noteq> [] then
           (case addressHostCidr (inet_of S) upstream_address of
              Inl e \<Rightarrow> Some (Inl e, h)
            | Inr upstream \<Rightarrow>
                Some (success \<lparr>fixed_cidrs = fixedBypassCidrs, interface_cidrs = interface_list,
                        upstream_cidr = upstream\<rparr>, h))
         else Some (success \<lparr>fixed_cidrs = fixedBypassCidrs, interface_cidrs = interface_list,
                      upstream_cidr = []\<rparr>, h)
   }"

section \<open>Bits of an address\<close>

definition abit :: "byte list \<Rightarrow> nat \<Rightarrow> bool" where
  "abit a i = bit (a ! (i div 8)) (7 - i mod 8)"

lemma address_bit_abit: "address_bit a i = of_bool (abit a i)"
  by (simp add: address_bit_def abit_def and_one_eq bit_iff_odd_drop_bit mod_2_eq_odd)

lemma address_bit_eq [simp]: "address_bit a i = address_bit b j \<longleftrightarrow> abit a i = abit b j"
  by (simp add: address_bit_abit)

lemma mask_byte_bit:
  "r < 8 \<Longrightarrow> bit (ucast (push_bit (8 - r) (0xFF :: u32)) :: byte) n \<longleftrightarrow> n < 8 \<and> 8 - r \<le> n"
proof -
  assume "r < 8"
  have m: "(0xFF :: u32) = mask 8" by (simp add: mask_eq_exp_minus_1)
  from \<open>r < 8\<close> show ?thesis unfolding m by (auto simp: bit_ucast_iff bit_push_bit_iff bit_mask_iff)
qed

lemma length_mask_address [simp]:
  "length a = 16 \<Longrightarrow> b \<le> 16 \<Longrightarrow> p \<le> 8 * b \<Longrightarrow> length (mask_address b p a) = 16"
  by (auto simp: mask_address_def Let_def)

lemma bit_order:
  "(j :: nat) < 8 \<Longrightarrow> r < 8 \<Longrightarrow> r \<noteq> 0 \<Longrightarrow> 8 - r \<le> 7 - j \<longleftrightarrow> 8 * f + j < 8 * f + r"
  by arith

lemma abit_mask_address:
  assumes a: "length a = 16" and b: "b \<le> 16" and p: "p \<le> 8 * b" and i: "i < 128"
  shows "abit (mask_address b p a) i \<longleftrightarrow> abit a i \<and> (i < 8 * b \<longrightarrow> i < p)"
proof -
  let ?f = "p div 8" and ?r = "p mod 8" and ?k = "i div 8" and ?j = "i mod 8"
  define cf where "cf = ?f + (if ?r = 0 then 0 else 1)"
  define m where "m = (if ?r \<noteq> 0 \<and> ?f < b
    then a[?f := and (a ! ?f) (ucast (push_bit (8 - ?r) (0xFF :: u32)))] else a)"
  have j: "?j < 8" "?r < 8" by simp_all
  have ik: "i = 8 * ?k + ?j" and pf: "p = 8 * ?f + ?r" by simp_all
  have "cf * 8 \<le> p + 7"
  proof (cases "?r = 0")
    case True
    then have "cf = ?f" by (simp add: cf_def)
    then show ?thesis using pf by linarith
  next
    case False
    then have "cf = ?f + 1" by (simp add: cf_def)
    then show ?thesis using pf False by linarith
  qed
  with p have cf: "cf \<le> b" by linarith
  have m: "length m = 16" using a by (simp add: m_def)
  have k: "?k < 16" using i by (simp add: less_mult_imp_div_less)
  have "mask_address b p a = take cf m @ replicate (b - cf) 0 @ drop b m"
    using cf by (simp add: mask_address_def cf_def m_def Let_def max_def)
  then have nth: "mask_address b p a ! ?k = (if ?k < cf then m ! ?k else if ?k < b then 0 else m ! ?k)"
    using m cf b k by (auto simp: nth_append)
  have range: "?k < ?f \<or> ?r \<noteq> 0 \<and> ?k = ?f \<or> cf \<le> ?k"
  proof (cases "?r = 0")
    case True
    then have "cf = ?f" by (simp add: cf_def)
    then show ?thesis by linarith
  next
    case False
    then have "cf = ?f + 1" by (simp add: cf_def)
    then show ?thesis using False by linarith
  qed
  consider (masked) "?r \<noteq> 0" "?k = ?f" | (kept) "?k < ?f" | (cleared) "cf \<le> ?k" "?k < b"
    | (behind) "cf \<le> ?k" "b \<le> ?k"
    using range by linarith
  then show ?thesis
  proof cases
    case masked
    then have fb: "?f < b" and kc: "?k < cf" using cf by (simp_all add: cf_def)
    have "mask_address b p a ! ?k = and (a ! ?k) (ucast (push_bit (8 - ?r) (0xFF :: u32)))"
      using nth kc masked fb a k by (simp add: m_def)
    then have "abit (mask_address b p a) i \<longleftrightarrow> abit a i \<and> 8 - ?r \<le> 7 - ?j"
      by (auto simp: abit_def bit_and_iff mask_byte_bit)
    moreover have "8 - ?r \<le> 7 - ?j \<longleftrightarrow> i < p"
      using ik pf masked(2) bit_order [OF j masked(1), of ?f] by metis
    moreover have "i < 8 * b" using ik masked(2) fb j(1) by linarith
    ultimately show ?thesis by blast
  next
    case kept
    then have "mask_address b p a ! ?k = a ! ?k" using nth by (auto simp: cf_def m_def)
    moreover have "i < p" using ik pf kept j(1) by linarith
    ultimately show ?thesis by (simp add: abit_def)
  next
    case cleared
    then have "\<not> abit (mask_address b p a) i" using nth by (simp add: abit_def)
    moreover have "i < 8 * b" using ik cleared j(1) by linarith
    moreover have "p \<le> i" using cleared(1) ik pf j unfolding cf_def by (cases "?r = 0") auto
    ultimately show ?thesis by simp
  next
    case behind
    then have "?k \<noteq> ?f \<or> \<not> ?f < b" by simp
    then have "mask_address b p a ! ?k = a ! ?k" using nth behind by (auto simp: m_def)
    moreover have "8 * b \<le> i" using behind ik by linarith
    ultimately show ?thesis by (simp add: abit_def)
  qed
qed

text \<open>Every pattern of bits is the pattern of an address.\<close>

lemma address_of_bits: "\<exists>a. length a = n \<and> (\<forall>i < 8 * n. abit a i = P i)"
proof (intro exI conjI allI impI)
  let ?a = "map (\<lambda>k. horner_sum of_bool 2 (map (\<lambda>j. P (8 * k + (7 - j))) [0 ..< 8]) :: byte) [0 ..< n]"
  show "length ?a = n" by simp
  fix i assume i: "i < 8 * n"
  then have k: "i div 8 < n" by (simp add: less_mult_imp_div_less mult.commute)
  have "7 - i mod 8 < 8" "8 * (i div 8) + (7 - (7 - i mod 8)) = i" by auto
  then show "abit ?a i = P i"
    using k by (simp add: abit_def bit_horner_sum_bit_word_iff del: upt_Suc)
qed

lemma abit_eqI:
  assumes "length a = n" "length b = n" and eq: "\<And>i. i < 8 * n \<Longrightarrow> abit a i = abit b i"
  shows "a = b"
proof (rule nth_equalityI)
  show "length a = length b" using assms by simp
  fix k assume k: "k < length a"
  show "a ! k = b ! k"
  proof (rule bit_word_eqI)
    fix j assume "j < LENGTH(8)"
    then have j: "j < 8" by simp
    have "(8 * k + (7 - j)) div 8 = k" "(8 * k + (7 - j)) mod 8 = 7 - j"
      by (simp_all only: div_mult_self2 div_mult_self4 mod_mult_self4 zero_neq_numeral) auto
    moreover have "7 - (7 - j) = j" "8 * k + (7 - j) < 8 * n" using j k assms(1) by auto
    ultimately show "bit (a ! k) j = bit (b ! k) j"
      using eq [of "8 * k + (7 - j)"] by (simp only: abit_def)
  qed
qed

section \<open>The addresses a block stands for\<close>

type_synonym address = "family \<times> byte list"

definition prefix_set :: "family \<Rightarrow> byte list \<Rightarrow> nat \<Rightarrow> address set" where
  "prefix_set f a p =
     {(g, x). g = f \<and> length x = family_bytes f \<and> (\<forall>i < p. abit x i = abit a i)}"

definition denote :: "binary_cidr \<Rightarrow> address set" where
  "denote c = prefix_set (cidr_family c) (cidr_address c) (cidr_prefix c)"

definition wf_cidr :: "binary_cidr \<Rightarrow> bool" where
  "wf_cidr c \<longleftrightarrow>
     cidr_family c \<in> {AF_INET, AF_INET6} \<and> length (cidr_address c) = 16 \<and>
     cidr_prefix c \<le> 8 * family_bytes (cidr_family c) \<and>
     (\<forall>i < 128. cidr_prefix c \<le> i \<longrightarrow> \<not> abit (cidr_address c) i)"

lemma family_bytes_simps [simp]: "family_bytes AF_INET = 4" "family_bytes AF_INET6 = 16"
  by (simp_all add: family_bytes_def)

lemma family_bytes_le: "family_bytes f \<le> 16"
  by (simp add: family_bytes_def)

lemma prefix_set_member:
  assumes "p \<le> 8 * family_bytes f"
  shows "\<exists>x. (f, x) \<in> prefix_set f a p \<and>
    (\<forall>i < 8 * family_bytes f. p \<le> i \<longrightarrow> abit x i = P i)"
proof -
  obtain x where "length x = family_bytes f"
    and "\<forall>i < 8 * family_bytes f. abit x i = (if i < p then abit a i else P i)"
    using address_of_bits [of "family_bytes f" "\<lambda>i. if i < p then abit a i else P i"] by blast
  with assms show ?thesis by (intro exI [of _ x]) (auto simp: prefix_set_def)
qed

text \<open>One prefix set lies in another where it is at least as long and agrees with it.\<close>

lemma prefix_set_subset_iff:
  assumes "p \<le> 8 * family_bytes f" and "q \<le> 8 * family_bytes g"
  shows "prefix_set f a p \<subseteq> prefix_set g b q \<longleftrightarrow>
    f = g \<and> q \<le> p \<and> (\<forall>i < q. abit a i = abit b i)"
proof
  assume sub: "prefix_set f a p \<subseteq> prefix_set g b q"
  obtain x where x: "(f, x) \<in> prefix_set f a p"
    "\<forall>i < 8 * family_bytes f. p \<le> i \<longrightarrow> abit x i = (\<not> abit b i)"
    using prefix_set_member [OF assms(1), of a "\<lambda>i. \<not> abit b i"] by blast
  with sub have x': "(f, x) \<in> prefix_set g b q" by blast
  then have fg: "f = g" by (simp add: prefix_set_def)
  have qp: "q \<le> p"
  proof (rule ccontr)
    assume "\<not> q \<le> p"
    then have "p < 8 * family_bytes f" using assms(2) fg by simp
    then have "abit x p = (\<not> abit b p)" using x(2) by blast
    moreover have "abit x p = abit b p" using x' \<open>\<not> q \<le> p\<close> by (simp add: prefix_set_def)
    ultimately show False by simp
  qed
  then have "\<forall>i < q. abit a i = abit b i" using x(1) x' by (auto simp: prefix_set_def)
  with fg qp show "f = g \<and> q \<le> p \<and> (\<forall>i < q. abit a i = abit b i)" by blast
next
  assume "f = g \<and> q \<le> p \<and> (\<forall>i < q. abit a i = abit b i)"
  then show "prefix_set f a p \<subseteq> prefix_set g b q" by (auto simp: prefix_set_def)
qed

lemma prefix_set_meet_iff:
  assumes "p \<le> 8 * family_bytes f" and "q \<le> 8 * family_bytes f"
  shows "prefix_set f a p \<inter> prefix_set f b q \<noteq> {} \<longleftrightarrow> (\<forall>i < min p q. abit a i = abit b i)"
proof
  assume "prefix_set f a p \<inter> prefix_set f b q \<noteq> {}"
  then show "\<forall>i < min p q. abit a i = abit b i" by (auto simp: prefix_set_def)
next
  assume eq: "\<forall>i < min p q. abit a i = abit b i"
  obtain x where x: "(f, x) \<in> prefix_set f a p"
    "\<forall>i < 8 * family_bytes f. p \<le> i \<longrightarrow> abit x i = abit b i"
    using prefix_set_member [OF assms(1), of a "abit b"] by blast
  have "abit x i = abit b i" if "i < q" for i
    using that x eq assms(2) by (cases "i < p") (auto simp: prefix_set_def)
  with x(1) have "(f, x) \<in> prefix_set f b q" by (auto simp: prefix_set_def)
  with x(1) show "prefix_set f a p \<inter> prefix_set f b q \<noteq> {}" by blast
qed

lemma containsCidr_iff:
  assumes "wf_cidr c" and "wf_cidr d"
  shows "containsCidr c d \<longleftrightarrow> denote d \<subseteq> denote c"
  using assms prefix_set_subset_iff [of "cidr_prefix d" "cidr_family d" "cidr_prefix c" "cidr_family c"]
  by (auto simp: containsCidr_def denote_def wf_cidr_def list_all_iff)

text \<open>198.18.0.0/15, the range of the TUN device.\<close>

definition tun_space :: "address set" where
  "tun_space = prefix_set AF_INET kTunAddressSpacePrefix kTunAddressSpacePrefixBits"

lemma overlapsTun_iff:
  assumes "wf_cidr c"
  shows "overlapsTunAddressSpace c \<longleftrightarrow> denote c \<inter> tun_space \<noteq> {}"
proof (cases "cidr_family c = AF_INET")
  case True
  with assms have "cidr_prefix c \<le> 8 * family_bytes AF_INET" by (simp add: wf_cidr_def)
  from prefix_set_meet_iff [OF this, of kTunAddressSpacePrefixBits] True show ?thesis
    by (auto simp: overlapsTunAddressSpace_def denote_def tun_space_def list_all_iff Let_def
        kTunAddressSpacePrefixBits_def)
next
  case False
  then show ?thesis
    by (auto simp: overlapsTunAddressSpace_def denote_def tun_space_def prefix_set_def)
qed

text \<open>
  An interface of "does this block hold that one", against the sets the blocks stand for. What
  a loop that drops held blocks needs is derived once, here.
\<close>

locale denotation =
  fixes wf :: "'c \<Rightarrow> bool" and covers :: "'c \<Rightarrow> 'c \<Rightarrow> bool" and den :: "'c \<Rightarrow> 'a set"
  assumes covers_iff: "wf c \<Longrightarrow> wf d \<Longrightarrow> covers c d \<longleftrightarrow> den d \<subseteq> den c"
begin

lemma covers_refl: "wf c \<Longrightarrow> covers c c"
  by (simp add: covers_iff)

lemma covers_trans: "wf c \<Longrightarrow> wf d \<Longrightarrow> wf e \<Longrightarrow> covers c d \<Longrightarrow> covers d e \<Longrightarrow> covers c e"
  by (auto simp: covers_iff)

lemma absorbed:
  assumes "list_all wf cs" and "wf d" and "list_ex (\<lambda>c. covers c d) cs"
  shows "(\<Union>c \<in> set cs. den c) \<union> den d = (\<Union>c \<in> set cs. den c)"
  using assms covers_iff by (fastforce simp: list_all_iff list_ex_iff)

lemma kept_apart:
  assumes "list_all wf cs" and "wf d" and "\<not> list_ex (\<lambda>c. covers c d) cs"
  shows "\<forall>c \<in> set cs. \<not> den d \<subseteq> den c"
  using assms covers_iff by (fastforce simp: list_all_iff list_ex_iff)

end

interpretation blocks: denotation wf_cidr containsCidr denote
  by unfold_locales (rule containsCidr_iff)

section \<open>Parsing and printing of blocks\<close>

lemma wf_cidr_mask:
  assumes "f \<in> {AF_INET, AF_INET6}" and "length a = 16" and "p \<le> 8 * family_bytes f"
    and "\<forall>i < 128. 8 * family_bytes f \<le> i \<longrightarrow> \<not> abit a i"
  shows "wf_cidr \<lparr>cidr_family = f, cidr_address = mask_address (family_bytes f) p a, cidr_prefix = p\<rparr>"
  using assms family_bytes_le [of f] by (auto simp: wf_cidr_def abit_mask_address)

lemma denote_mask:
  assumes "length a = 16" and "p \<le> 8 * family_bytes f"
  shows "denote \<lparr>cidr_family = f, cidr_address = mask_address (family_bytes f) p a, cidr_prefix = p\<rparr>
    = prefix_set f a p"
proof -
  have "abit (mask_address (family_bytes f) p a) i = abit a i" if "i < p" for i
    using that assms family_bytes_le [of f] by (simp add: abit_mask_address)
  then show ?thesis by (auto simp: denote_def prefix_set_def)
qed

lemma mask_wf:
  assumes "wf_cidr c"
  shows "mask_address (family_bytes (cidr_family c)) (cidr_prefix c) (cidr_address c) = cidr_address c"
proof (rule abit_eqI [of _ 16])
  show "length (mask_address (family_bytes (cidr_family c)) (cidr_prefix c) (cidr_address c)) = 16"
    using assms family_bytes_le by (simp add: wf_cidr_def)
  show "length (cidr_address c) = 16" using assms by (simp add: wf_cidr_def)
  fix i :: nat assume "i < 8 * 16"
  then show "abit (mask_address (family_bytes (cidr_family c)) (cidr_prefix c) (cidr_address c)) i =
      abit (cidr_address c) i"
    using assms family_bytes_le [of "cidr_family c"]
    by (simp add: wf_cidr_def abit_mask_address) (meson leI)
qed

lemma abit_zero_padded: "length a \<le> 16 \<Longrightarrow> i < 128 \<Longrightarrow>
   abit (zero_padded a) i \<longleftrightarrow> i < 8 * length a \<and> abit a i"
proof -
  assume a: "length a \<le> 16" and i: "i < 128"
  have "i div 8 < length a \<longleftrightarrow> i < 8 * length a" by (simp add: div_less_iff_less_mult mult.commute)
  moreover have "i div 8 < 16" using i by (simp add: div_less_iff_less_mult)
  ultimately show ?thesis using a by (auto simp: abit_def zero_padded_def nth_append)
qed

lemma length_zero_padded [simp]: "length a \<le> 16 \<Longrightarrow> length (zero_padded a) = 16"
  by (simp add: zero_padded_def)

lemma zero_padded_take:
  assumes "wf_cidr c"
  shows "zero_padded (take (family_bytes (cidr_family c)) (cidr_address c)) = cidr_address c"
proof (rule abit_eqI [of _ 16])
  let ?n = "family_bytes (cidr_family c)"
  have len: "length (take ?n (cidr_address c)) = ?n"
    using assms family_bytes_le [of "cidr_family c"] by (simp add: wf_cidr_def)
  show "length (zero_padded (take ?n (cidr_address c))) = 16"
    using len family_bytes_le by simp
  show "length (cidr_address c) = 16" using assms by (simp add: wf_cidr_def)
  fix i :: nat assume i: "i < 8 * 16"
  have "abit (take ?n (cidr_address c)) i = abit (cidr_address c) i" if "i < 8 * ?n"
    using that by (simp add: abit_def div_less_iff_less_mult mult.commute)
  then show "abit (zero_padded (take ?n (cidr_address c))) i = abit (cidr_address c) i"
    using assms i len family_bytes_le [of "cidr_family c"]
    by (auto simp: abit_zero_padded wf_cidr_def)
qed

lemma parseCidr_split:
  assumes "slash \<notin> set n" "n \<noteq> []" "t \<noteq> []"
    and "from_chars_unsigned (2 ^ 32 - 1) n = FcOk p []" and "parse_address I t = Some (f, a)"
    and "\<not> (f = AF_INET \<and> 32 < p)" "\<not> (f = AF_INET6 \<and> 128 < p)"
  shows "parseCidr I (t @ slash # n) = Inr \<lparr>cidr_family = f,
    cidr_address = mask_address (family_bytes f) p a, cidr_prefix = p\<rparr>"
proof -
  have r: "rfind_char slash (t @ slash # n) = Some (length t)" using assms(1) by (rule rfind_char_split)
  have d: "take (length t) (t @ slash # n) = t" "drop (length t + 1) (t @ slash # n) = n" by simp_all
  have g: "\<not> (length t = 0 \<or> length (t @ slash # n) \<le> length t + 1)"
    using assms(2,3) by simp
  show ?thesis
    unfolding parseCidr_def r option.case Let_def d if_not_P [OF g] assms(4,5)
      from_chars_result.case list.case prod.case if_not_P [OF assms(6)] if_not_P [OF assms(7)] ..
qed

context address_codec
begin

lemma parse_address_wf:
  assumes "parse_address I t = Some (f, a)"
  shows "f \<in> {AF_INET, AF_INET6} \<and> length a = 16 \<and>
    (\<forall>i < 128. 8 * family_bytes f \<le> i \<longrightarrow> \<not> abit a i)"
  using assms pton4_length pton6_length
  by (auto simp: parse_address_def abit_zero_padded split: option.splits)

lemma parseCidr_parts:
  assumes "parseCidr I s = Inr c"
  shows "\<exists>t n f a p. s = t @ ''/'' @ n \<and> from_chars_unsigned (2 ^ 32 - 1) n = FcOk p [] \<and>
     parse_address I t = Some (f, a) \<and> p \<le> 8 * family_bytes f \<and>
     c = \<lparr>cidr_family = f, cidr_address = mask_address (family_bytes f) p a, cidr_prefix = p\<rparr>
     \<and> denote c = prefix_set f a p"
proof -
  from assms obtain i p f a where i: "rfind_char slash s = Some i"
    and n: "from_chars_unsigned (2 ^ 32 - 1) (drop (i + 1) s) = FcOk p []"
    and pa: "parse_address I (take i s) = Some (f, a)"
    and p: "\<not> (f = AF_INET \<and> 32 < p)" "\<not> (f = AF_INET6 \<and> 128 < p)"
    and c: "c = \<lparr>cidr_family = f, cidr_address = mask_address (family_bytes f) p a, cidr_prefix = p\<rparr>"
    unfolding parseCidr_def Let_def
    by (auto split: option.splits if_splits from_chars_result.splits list.splits prod.splits)
  from parse_address_wf [OF pa] p have ple: "p \<le> 8 * family_bytes f" by auto
  have "denote c = prefix_set f a p"
    using parse_address_wf [OF pa] ple unfolding c by (intro denote_mask) auto
  moreover have "s = take i s @ ''/'' @ drop (i + 1) s"
    using rfind_charD [OF i] by simp
  ultimately show ?thesis using pa ple c n by blast
qed

lemma parseCidr_bits:
  assumes "parseCidr I s = Inr c"
  shows "\<exists>t n f a. s = t @ ''/'' @ n \<and> from_chars_unsigned (2 ^ 32 - 1) n = FcOk (cidr_prefix c) [] \<and>
     parse_address I t = Some (f, a) \<and> cidr_family c = f \<and> cidr_prefix c \<le> 8 * family_bytes f \<and>
     length (cidr_address c) = 16 \<and>
     (\<forall>i < 128. abit (cidr_address c) i \<longleftrightarrow> i < cidr_prefix c \<and> abit a i) \<and>
     denote c = prefix_set f a (cidr_prefix c)"
proof -
  obtain t n f a p where s: "s = t @ ''/'' @ n" "from_chars_unsigned (2 ^ 32 - 1) n = FcOk p []"
    and pa: "parse_address I t = Some (f, a)" and p: "p \<le> 8 * family_bytes f"
    and c: "c = \<lparr>cidr_family = f, cidr_address = mask_address (family_bytes f) p a, cidr_prefix = p\<rparr>"
    and d: "denote c = prefix_set f a p"
    using parseCidr_parts [OF assms] by blast
  have "abit (cidr_address c) i \<longleftrightarrow> i < p \<and> abit a i" if "i < 128" for i
    using parse_address_wf [OF pa] p family_bytes_le [of f] that
    by (auto simp: c abit_mask_address)
  moreover have "length (cidr_address c) = 16"
    using parse_address_wf [OF pa] p family_bytes_le [of f] by (simp add: c)
  ultimately show ?thesis using s pa p d by (auto simp: c)
qed

lemma parseCidr_wf: "parseCidr I s = Inr c \<Longrightarrow> wf_cidr c"
proof -
  assume "parseCidr I s = Inr c"
  then obtain t f a p where pa: "parse_address I t = Some (f, a)" and "p \<le> 8 * family_bytes f"
    and c: "c = \<lparr>cidr_family = f, cidr_address = mask_address (family_bytes f) p a, cidr_prefix = p\<rparr>"
    using parseCidr_parts by blast
  with parse_address_wf [OF pa] wf_cidr_mask [of f a p] show ?thesis by blast
qed

lemma format_address_wf:
  assumes "wf_cidr c"
  shows "\<exists>t. format_address I (cidr_family c) (cidr_address c) = Some t \<and> t \<noteq> [] \<and> slash \<notin> set t \<and>
    parse_address I t = Some (cidr_family c, cidr_address c)"
proof -
  have pad: "zero_padded (take (family_bytes (cidr_family c)) (cidr_address c)) = cidr_address c"
    using assms by (rule zero_padded_take)
  have len: "length (cidr_address c) = 16" and fam: "cidr_family c = AF_INET \<or> cidr_family c = AF_INET6"
    using assms by (auto simp: wf_cidr_def)
  from fam show ?thesis
  proof
    assume "cidr_family c = AF_INET"
    with pad len ntop4_readable [of "take 4 (cidr_address c)"] show ?thesis
      by (auto simp: format_address_def parse_address_def)
  next
    assume "cidr_family c = AF_INET6"
    with pad len ntop6_readable [of "cidr_address c"] show ?thesis
      by (auto simp: format_address_def parse_address_def)
  qed
qed

lemma parse_formatCidr:
  assumes "wf_cidr c"
  shows "parseCidr I (formatCidr I c) = Inr c \<and> formatCidr I c \<noteq> []"
proof -
  from format_address_wf [OF assms] obtain t where t:
    "format_address I (cidr_family c) (cidr_address c) = Some t" "t \<noteq> []" "slash \<notin> set t"
    "parse_address I t = Some (cidr_family c, cidr_address c)" by blast
  let ?n = "show_nat (cidr_prefix c)"
  have f: "formatCidr I c = t @ slash # ?n" using t(1) by (simp add: formatCidr_def)
  have "cidr_prefix c \<le> 128" using assms family_bytes_le [of "cidr_family c"] by (auto simp: wf_cidr_def)
  then have "from_chars_unsigned (2 ^ 32 - 1) ?n = FcOk (cidr_prefix c) []"
    by (intro from_chars_show_nat) simp
  moreover have "\<not> (cidr_family c = AF_INET \<and> 32 < cidr_prefix c)"
    "\<not> (cidr_family c = AF_INET6 \<and> 128 < cidr_prefix c)"
    using assms by (auto simp: wf_cidr_def)
  ultimately have "parseCidr I (t @ slash # ?n) = Inr \<lparr>cidr_family = cidr_family c,
      cidr_address = mask_address (family_bytes (cidr_family c)) (cidr_prefix c) (cidr_address c),
      cidr_prefix = cidr_prefix c\<rparr>"
    using t(2,4) by (intro parseCidr_split) simp_all
  then have "parseCidr I (formatCidr I c) = Inr c" unfolding f mask_wf [OF assms] by simp
  then show ?thesis using f by simp
qed

end

section \<open>Merging loses no address\<close>

definition text_denote :: "inet \<Rightarrow> string \<Rightarrow> address set" where
  "text_denote I s = (case parseCidr I s of Inl _ \<Rightarrow> {} | Inr c \<Rightarrow> denote c)"

lemma parseCidr_Nil [simp]: "parseCidr I [] = failure InvalidConfiguration ''invalid CIDR: ''"
  by (simp add: parseCidr_def)

lemma text_denote_Nil [simp]: "text_denote I [] = {}"
  by (simp add: text_denote_def)

definition merged_ok :: "inet \<Rightarrow> merged \<Rightarrow> bool" where
  "merged_ok I st \<longleftrightarrow> list_all2 (\<lambda>s c. parseCidr I s = Inr c) (fst st) (snd st)"

definition merged_union :: "merged \<Rightarrow> address set" where
  "merged_union st = (\<Union>c \<in> set (snd st). denote c)"

definition merged_apart :: "merged \<Rightarrow> bool" where
  "merged_apart st \<longleftrightarrow> sorted_wrt (\<lambda>c d. \<not> denote d \<subseteq> denote c) (snd st)"

lemma merged_ok_texts: "merged_ok I st \<Longrightarrow> (\<Union>s \<in> set (fst st). text_denote I s) = merged_union st"
proof -
  assume "merged_ok I st"
  then have "list_all2 (\<lambda>s c. parseCidr I s = Inr c) (fst st) (snd st)" by (simp add: merged_ok_def)
  then show ?thesis
    unfolding merged_union_def by (induction rule: list_all2_induct) (auto simp: text_denote_def)
qed

context address_codec
begin

lemma merged_ok_wf: "merged_ok I st \<Longrightarrow> list_all wf_cidr (snd st)"
  using parseCidr_wf
  by (auto simp: merged_ok_def list_all_length list_all2_conv_all_nth)

lemma append_cidr_cases:
  assumes "merged_ok I st"
  shows "(append_cidr I m s st = st \<and> text_denote I s \<subseteq> merged_union st) \<or>
    (\<exists>c. parseCidr I s = Inr c \<and> append_cidr I m s st = (fst st @ [s], snd st @ [c]) \<and>
       (\<not> m \<longrightarrow> (\<forall>d \<in> set (snd st). \<not> denote c \<subseteq> denote d)))"
proof (cases "parseCidr I s")
  case (Inl e)
  then show ?thesis by (simp add: append_cidr_def text_denote_def split: prod.splits)
next
  case (Inr c)
  note wf = merged_ok_wf [OF assms] and wfc = parseCidr_wf [OF Inr]
  have ne: "s \<noteq> []" using Inr by auto
  let ?same = "list_ex (\<lambda>e. cidr_family e = cidr_family c \<and> cidr_prefix e = cidr_prefix c
    \<and> cidr_address e = cidr_address c) (snd st)"
  consider (held) "\<not> m" "list_ex (\<lambda>e. containsCidr e c) (snd st)"
    | (same) "m \<or> \<not> list_ex (\<lambda>e. containsCidr e c) (snd st)" ?same
    | (new) "m \<or> \<not> list_ex (\<lambda>e. containsCidr e c) (snd st)" "\<not> ?same"
    by blast
  then show ?thesis
  proof cases
    case held
    with blocks.absorbed [OF wf wfc] have "denote c \<subseteq> merged_union st"
      by (auto simp: merged_union_def)
    with held Inr ne show ?thesis by (auto simp: append_cidr_def text_denote_def split: prod.splits)
  next
    case same
    then obtain e where "e \<in> set (snd st)" and "denote e = denote c"
      by (auto simp: list_ex_iff denote_def)
    then have "denote c \<subseteq> merged_union st" by (auto simp: merged_union_def)
    with same Inr ne show ?thesis by (auto simp: append_cidr_def text_denote_def split: prod.splits)
  next
    case new
    then have "append_cidr I m s st = (fst st @ [s], snd st @ [c])"
      using Inr ne by (auto simp: append_cidr_def split: prod.splits)
    with new Inr blocks.kept_apart [OF wf wfc] show ?thesis by blast
  qed
qed

lemma append_cidr_step:
  assumes "merged_ok I st" and "merged_apart st" and "m \<longrightarrow> snd st = []"
  shows "merged_ok I (append_cidr I m s st) \<and> merged_apart (append_cidr I m s st) \<and>
    merged_union (append_cidr I m s st) = merged_union st \<union> text_denote I s \<and>
    (\<exists>ys. fst (append_cidr I m s st) = fst st @ ys)"
  using append_cidr_cases [OF assms(1), of m s]
proof
  assume "append_cidr I m s st = st \<and> text_denote I s \<subseteq> merged_union st"
  with assms show ?thesis by auto
next
  assume "\<exists>c. parseCidr I s = Inr c \<and> append_cidr I m s st = (fst st @ [s], snd st @ [c]) \<and>
       (\<not> m \<longrightarrow> (\<forall>d \<in> set (snd st). \<not> denote c \<subseteq> denote d))"
  then obtain c where c: "parseCidr I s = Inr c"
    "append_cidr I m s st = (fst st @ [s], snd st @ [c])"
    "\<not> m \<Longrightarrow> \<forall>d \<in> set (snd st). \<not> denote c \<subseteq> denote d" by blast
  have "merged_ok I (fst st @ [s], snd st @ [c])"
    using assms(1) c(1) by (auto simp: merged_ok_def intro!: list_all2_appendI)
  moreover have "merged_apart (fst st @ [s], snd st @ [c])"
    using assms(2,3) c(3) by (auto simp: merged_apart_def sorted_wrt_append)
  ultimately show ?thesis using c by (auto simp: merged_union_def text_denote_def)
qed

lemma fold_append_cidr:
  assumes "merged_ok I st" and "merged_apart st"
  shows "merged_ok I (fold (append_cidr I False) xs st) \<and>
    merged_apart (fold (append_cidr I False) xs st) \<and>
    merged_union (fold (append_cidr I False) xs st) = merged_union st \<union> (\<Union>s \<in> set xs. text_denote I s) \<and>
    (\<exists>ys. fst (fold (append_cidr I False) xs st) = fst st @ ys)"
  using assms
proof (induction xs arbitrary: st)
  case Nil
  then show ?case by simp
next
  case (Cons s xs)
  from append_cidr_step [OF Cons.prems, of False s] Cons.IH [of "append_cidr I False s st"]
  show ?case by (auto simp: Un_assoc)
qed

lemma merge_cidrs_ok:
  "merged_ok I (merge_cidrs I p) \<and> merged_apart (merge_cidrs I p) \<and>
   merged_union (merge_cidrs I p) =
     text_denote I (upstream_cidr p) \<union> (\<Union>s \<in> set (fixed_cidrs p @ interface_cidrs p). text_denote I s) \<and>
   (ok (parseCidr I (upstream_cidr p)) \<longrightarrow> (\<exists>ys. allCidrs I p = upstream_cidr p # ys))"
proof -
  define st where
    "st = (if upstream_cidr p \<noteq> [] then append_cidr I True (upstream_cidr p) ([], []) else ([], []))"
  have empty: "merged_ok I ([], [])" "merged_apart ([], [])" "merged_union ([], []) = {}"
    by (simp_all add: merged_ok_def merged_apart_def merged_union_def)
  have st: "merged_ok I st" "merged_apart st" "merged_union st = text_denote I (upstream_cidr p)"
    using append_cidr_step [OF empty(1,2), of True "upstream_cidr p"] empty by (auto simp: st_def)
  have up: "ok (parseCidr I (upstream_cidr p)) \<Longrightarrow> fst st = [upstream_cidr p]"
    by (auto simp: st_def append_cidr_def elim!: okE)
  note one = fold_append_cidr [OF st(1,2), of "fixed_cidrs p"]
  note two = fold_append_cidr [of "fold (append_cidr I False) (fixed_cidrs p) st" "interface_cidrs p"]
  have m: "merge_cidrs I p = fold (append_cidr I False) (interface_cidrs p)
      (fold (append_cidr I False) (fixed_cidrs p) st)"
    by (simp add: merge_cidrs_def st_def Let_def)
  show ?thesis
    unfolding allCidrs_def m using one two st(3) up by auto
qed

lemma allCidrs_apart:
  "sorted_wrt (\<lambda>s t. \<not> text_denote I t \<subseteq> text_denote I s) (allCidrs I p)"
proof -
  let ?st = "merge_cidrs I p"
  have "list_all2 (\<lambda>s c. parseCidr I s = Inr c) (fst ?st) (snd ?st)"
    and "sorted_wrt (\<lambda>c d. \<not> denote d \<subseteq> denote c) (snd ?st)"
    using merge_cidrs_ok [of p] by (simp_all add: merged_ok_def merged_apart_def)
  then show ?thesis
    unfolding allCidrs_def
    by (fastforce simp: sorted_wrt_iff_nth_less list_all2_conv_all_nth text_denote_def)
qed

end

section \<open>Interface addresses are collected exactly\<close>

text \<open>Every entry the kernel returns carries a whole address of its family.\<close>

definition whole_addresses :: "ifaddr list \<Rightarrow> bool" where
  "whole_addresses ifs \<longleftrightarrow>
     list_all (\<lambda>i. case ifa_addr i of None \<Rightarrow> True | Some (f, a) \<Rightarrow> family_bytes f \<le> length a) ifs"

text \<open>
  The addresses the policy is to hold: those of interfaces that are up and not the excluded
  one, but for the unspecified address and the TUN range.
\<close>

definition interface_hosts :: "string \<Rightarrow> ifaddr list \<Rightarrow> address set" where
  "interface_hosts excluded ifs =
     {(f, take (family_bytes f) a) | f a i. i \<in> set ifs \<and> ifa_addr i = Some (f, a) \<and>
        ifa_up i \<and> ifa_name i \<noteq> None \<and> ifa_name i \<noteq> Some excluded \<and> f \<in> {AF_INET, AF_INET6} \<and>
        take (family_bytes f) a \<noteq> replicate (family_bytes f) 0 \<and>
        (f, take (family_bytes f) a) \<notin> tun_space}"

lemma host_cidr_wf:
  assumes "f \<in> {AF_INET, AF_INET6}" and "family_bytes f \<le> length a"
  shows "wf_cidr (host_cidr (f, a)) \<and> denote (host_cidr (f, a)) = {(f, take (family_bytes f) a)}"
proof -
  let ?n = "family_bytes f" and ?t = "take (family_bytes f) a"
  have t: "length ?t = ?n" "?n \<le> 16" using assms(2) family_bytes_le by auto
  have p: "cidr_prefix (host_cidr (f, a)) = 8 * ?n" using assms(1) by (auto simp: host_cidr_def)
  have bits: "abit (zero_padded ?t) i = abit ?t i" if "i < 8 * ?n" for i
    using that t abit_zero_padded [of ?t i] by simp
  have "x = ?t" if "length x = ?n" "\<forall>i < 8 * ?n. abit x i = abit ?t i" for x
    using that t by (intro abit_eqI [of x ?n ?t]) auto
  then have "denote (host_cidr (f, a)) = {(f, ?t)}"
    using t bits p by (auto simp: denote_def prefix_set_def host_cidr_def)
  moreover have "wf_cidr (host_cidr (f, a))"
    using assms(1) t p by (auto simp: wf_cidr_def host_cidr_def abit_zero_padded)
  ultimately show ?thesis by blast
qed

lemma isUnspecified_host:
  assumes "f \<in> {AF_INET, AF_INET6}" and "family_bytes f \<le> length a"
  shows "isUnspecifiedAddress (host_cidr (f, a)) \<longleftrightarrow>
    take (family_bytes f) a = replicate (family_bytes f) 0"
proof -
  have "length (take (family_bytes f) a) = family_bytes f" using assms(2) by simp
  moreover have "list_all (\<lambda>b. b = 0) xs \<longleftrightarrow> xs = replicate (length xs) 0" for xs :: "byte list"
    by (induction xs) auto
  ultimately show ?thesis
    by (simp add: isUnspecifiedAddress_def host_cidr_def zero_padded_def)
qed

definition texts_union :: "inet \<Rightarrow> string set \<Rightarrow> address set" where
  "texts_union I T = (\<Union>s \<in> T. text_denote I s)"

context address_codec
begin

lemma appendInterfaceAddress_step:
  assumes f: "f \<in> {AF_INET, AF_INET6}" and a: "family_bytes f \<le> length a"
    and st: "appendInterfaceAddress I (host_cidr (f, a)) (output, seen) = (Inr u, (output', seen'))"
    and inv: "seen = base \<union> set output" and bound: "length output \<le> kMaximumInterfaceCidrs"
  shows "seen' = base \<union> set output' \<and> length output' \<le> kMaximumInterfaceCidrs \<and>
    (let x = (f, take (family_bytes f) a) in
     (if snd x = replicate (family_bytes f) 0 \<or> x \<in> tun_space then output' = output
      else x \<in> texts_union I seen' \<and>
        (output' = output \<or> (\<exists>s. output' = output @ [s] \<and> text_denote I s = {x}))))"
proof -
  let ?c = "host_cidr (f, a)" and ?x = "(f, take (family_bytes f) a)"
  note wf = host_cidr_wf [OF f a]
  have par: "parseCidr I (formatCidr I ?c) = Inr ?c" "formatCidr I ?c \<noteq> []"
    using parse_formatCidr wf by blast+
  have tun: "overlapsTunAddressSpace ?c \<longleftrightarrow> ?x \<in> tun_space"
    using overlapsTun_iff wf by auto
  have den_text: "text_denote I (formatCidr I ?c) = {?x}" using par wf by (simp add: text_denote_def)
  have in_union: "?x \<in> texts_union I seen"
    if "s \<in> seen" "parseCidr I s = Inr e" "containsCidr e ?c" for s e
    using that wf containsCidr_iff [of e ?c] parseCidr_wf [OF that(2)]
    by (force simp: texts_union_def text_denote_def)
  let ?skip = "isUnspecifiedAddress ?c \<or> overlapsTunAddressSpace ?c"
  let ?held = "\<lambda>t. case parseCidr I t of Inl _ \<Rightarrow> False | Inr existing \<Rightarrow> containsCidr existing ?c"
  have skip: "?skip \<longleftrightarrow> snd ?x = replicate (family_bytes f) 0 \<or> ?x \<in> tun_space"
    using isUnspecified_host [OF f a] tun by simp
  show ?thesis
  proof (cases ?skip)
    case True
    with st have "output' = output" "seen' = seen" by (simp_all add: appendInterfaceAddress_def)
    with True skip inv bound show ?thesis by (simp add: Let_def)
  next
    case noskip: False
    show ?thesis
    proof (cases "\<exists>t \<in> seen. ?held t")
      case True
      with st noskip par(2) have "output' = output" "seen' = seen"
        by (simp_all add: appendInterfaceAddress_def)
      moreover from True obtain t where t: "t \<in> seen" "?held t" by blast
      then obtain e where "parseCidr I t = Inr e" "containsCidr e ?c"
        by (cases "parseCidr I t") auto
      with t(1) have "?x \<in> texts_union I seen" by (rule in_union)
      ultimately show ?thesis using noskip skip inv bound by (simp add: Let_def)
    next
      case noheld: False
      show ?thesis
      proof (cases "formatCidr I ?c \<in> seen")
        case True
        with st noskip noheld par(2) have "output' = output" "seen' = seen"
          by (simp_all add: appendInterfaceAddress_def)
        moreover have "?x \<in> texts_union I seen" using den_text True by (auto simp: texts_union_def)
        ultimately show ?thesis using noskip skip inv bound by (simp add: Let_def)
      next
        case False
        with st noskip noheld par(2) have "output' = output @ [formatCidr I ?c]"
          "seen' = insert (formatCidr I ?c) seen" "length output < kMaximumInterfaceCidrs"
          by (simp_all add: appendInterfaceAddress_def Let_def split: if_splits)
        moreover have "?x \<in> texts_union I (insert (formatCidr I ?c) seen)"
          using den_text by (auto simp: texts_union_def)
        ultimately show ?thesis using noskip skip inv den_text by (simp add: Let_def)
      qed
    qed
  qed
qed

lemma interface_hosts_UN: "interface_hosts excluded ifs = (\<Union>i \<in> set ifs. interface_hosts excluded [i])"
proof (rule set_eqI)
  fix x :: address
  obtain f b where x: "x = (f, b)" by (rule prod.exhaust)
  show "x \<in> interface_hosts excluded ifs \<longleftrightarrow> x \<in> (\<Union>i \<in> set ifs. interface_hosts excluded [i])"
    unfolding x interface_hosts_def mem_Collect_eq UN_iff list.set insert_iff empty_iff prod.inject by blast
qed

lemma interface_hosts_Cons:
  "interface_hosts excluded (i # ifs) = interface_hosts excluded [i] \<union> interface_hosts excluded ifs"
  by (simp only: interface_hosts_UN [of excluded "i # ifs"] interface_hosts_UN [of excluded ifs]
        list.set(2) UN_insert)

lemma interface_hosts_skipped: "skipped_interface excluded i \<Longrightarrow> interface_hosts excluded [i] = {}"
  by (auto simp: interface_hosts_def skipped_interface_def)

lemma interface_hosts_single:
  assumes "\<not> skipped_interface excluded i" and "ifa_addr i = Some (f, a)"
  shows "f \<in> {AF_INET, AF_INET6} \<and> interface_hosts excluded [i] =
    (let x = (f, take (family_bytes f) a) in
     if snd x = replicate (family_bytes f) 0 \<or> x \<in> tun_space then {} else {x})"
  using assms by (auto simp: interface_hosts_def skipped_interface_def Let_def)

lemma texts_union_simps:
  "texts_union I (A \<union> B) = texts_union I A \<union> texts_union I B"
  "texts_union I (insert s A) = text_denote I s \<union> texts_union I A"
  "texts_union I {} = {}"
  by (auto simp: texts_union_def)

lemma collect_addresses_step:
  assumes "whole_addresses ifs" and "seen = base \<union> set out" and "length out \<le> kMaximumInterfaceCidrs"
    and "collect_addresses I excluded ifs (out, seen) = (Inr u, (out', seen'))"
  shows "seen' = base \<union> set out' \<and> length out' \<le> kMaximumInterfaceCidrs \<and>
    (\<exists>ys. out' = out @ ys \<and> texts_union I (set ys) \<subseteq> interface_hosts excluded ifs) \<and>
    interface_hosts excluded ifs \<subseteq> texts_union I seen'"
  using assms
proof (induction ifs arbitrary: out seen)
  case Nil
  then show ?case by (auto simp: interface_hosts_def texts_union_def)
next
  case (Cons i ifs)
  have w: "whole_addresses ifs" using Cons.prems(1) by (simp add: whole_addresses_def)
  show ?case
  proof (cases "skipped_interface excluded i")
    case True
    with Cons.prems have "collect_addresses I excluded ifs (out, seen) = (Inr u, (out', seen'))"
      by simp
    from Cons.IH [OF w Cons.prems(2,3) this] interface_hosts_skipped [OF True] show ?thesis
      unfolding interface_hosts_Cons [of excluded i ifs] by blast
  next
    case False
    then obtain f a where fa: "ifa_addr i = Some (f, a)" by (auto simp: skipped_interface_def)
    note single = interface_hosts_single [OF False fa]
    have whole: "family_bytes f \<le> length a" using Cons.prems(1) fa by (simp add: whole_addresses_def)
    let ?x = "(f, take (family_bytes f) a)"
    obtain r out1 seen1 where step: "appendInterfaceAddress I (host_cidr (f, a)) (out, seen) = (r, (out1, seen1))"
      by (metis prod.exhaust)
    with Cons.prems(4) False fa obtain v where r: "r = Inr v"
      and rest: "collect_addresses I excluded ifs (out1, seen1) = (Inr u, (out', seen'))"
      by (cases r) auto
    note one = appendInterfaceAddress_step
      [OF single [THEN conjunct1] whole step [unfolded r] Cons.prems(2,3)]
    from Cons.IH [OF w _ _ rest] one obtain ys where ys:
      "seen' = base \<union> set out'" "length out' \<le> kMaximumInterfaceCidrs" "out' = out1 @ ys"
      "texts_union I (set ys) \<subseteq> interface_hosts excluded ifs"
      "interface_hosts excluded ifs \<subseteq> texts_union I seen'" by blast
    have sub: "texts_union I seen1 \<subseteq> texts_union I seen'"
      using one ys by (auto simp: texts_union_def)
    have "\<exists>zs. out1 = out @ zs \<and> texts_union I (set zs) \<subseteq> interface_hosts excluded [i] \<and>
        interface_hosts excluded [i] \<subseteq> texts_union I seen1"
      using one single by (auto simp: Let_def texts_union_simps split: if_splits)
    then obtain zs where zs: "out1 = out @ zs" "texts_union I (set zs) \<subseteq> interface_hosts excluded [i]"
      "interface_hosts excluded [i] \<subseteq> texts_union I seen1" by blast
    have "out' = out @ (zs @ ys) \<and>
        texts_union I (set (zs @ ys)) \<subseteq> interface_hosts excluded (i # ifs)"
      using ys(3,4) zs(1,2) by (auto simp: texts_union_simps interface_hosts_Cons [of excluded i ifs])
    with ys sub zs(3) show ?thesis
      by (auto simp: interface_hosts_Cons [of excluded i ifs])
  qed
qed

end

section \<open>The policy as a whole\<close>

context address_codec
begin

lemma appendInterfaceAddress_ok:
  assumes "f \<in> {AF_INET, AF_INET6}" and "family_bytes f \<le> length a"
    and "length out < kMaximumInterfaceCidrs"
  shows "\<exists>st'. appendInterfaceAddress I (host_cidr (f, a)) (out, seen) = (Inr (), st') \<and>
    length (fst st') \<le> Suc (length out)"
proof -
  have "formatCidr I (host_cidr (f, a)) \<noteq> []"
    using parse_formatCidr host_cidr_wf [OF assms(1,2)] by blast
  with assms(3) show ?thesis by (simp add: appendInterfaceAddress_def Let_def)
qed

lemma collect_addresses_ok:
  assumes "whole_addresses ifs" and "length out + length ifs \<le> kMaximumInterfaceCidrs"
  shows "fst (collect_addresses I excluded ifs (out, sn)) = Inr ()"
  using assms
proof (induction ifs arbitrary: out sn)
  case Nil
  then show ?case by simp
next
  case (Cons i ifs)
  have w: "whole_addresses ifs" using Cons.prems(1) by (simp add: whole_addresses_def)
  show ?case
  proof (cases "skipped_interface excluded i")
    case True
    with Cons w show ?thesis by simp
  next
    case False
    then obtain f a where fa: "ifa_addr i = Some (f, a)" by (auto simp: skipped_interface_def)
    have "f \<in> {AF_INET, AF_INET6}" using False fa by (auto simp: skipped_interface_def)
    moreover have "family_bytes f \<le> length a" using Cons.prems(1) fa by (simp add: whole_addresses_def)
    moreover have "length out < kMaximumInterfaceCidrs" using Cons.prems(2) by simp
    ultimately obtain o1 s1 where
      st: "appendInterfaceAddress I (host_cidr (f, a)) (out, sn) = (Inr (), (o1, s1))"
        "length o1 \<le> Suc (length out)"
      using appendInterfaceAddress_ok [of f a out sn] by auto
    with Cons.IH [OF w, of o1 s1] Cons.prems(2) False fa show ?thesis by simp
  qed
qed

lemma addressHostCidr_denote:
  assumes "addressHostCidr I t = Inr s"
  shows "\<exists>f a. parse_address I t = Some (f, a) \<and> text_denote I s = {(f, take (family_bytes f) a)} \<and>
    s \<noteq> [] \<and> ok (parseCidr I s)"
proof -
  from assms obtain f a where pa: "parse_address I t = Some (f, a)"
    by (auto simp: addressHostCidr_def Let_def split: option.splits if_splits)
  have f: "f \<in> {AF_INET, AF_INET6}" and a: "length a = 16"
    and z: "\<forall>i < 128. 8 * family_bytes f \<le> i \<longrightarrow> \<not> abit a i"
    using parse_address_wf [OF pa] by auto
  let ?c = "\<lparr>cidr_family = f, cidr_address = a, cidr_prefix = (if f = AF_INET then 32 else 128)\<rparr>"
  have wf: "wf_cidr ?c" using f a z by (auto simp: wf_cidr_def)
  have "zero_padded (take (family_bytes f) a) = a" using zero_padded_take [OF wf] by simp
  then have hc: "?c = host_cidr (f, a)" by (simp add: host_cidr_def)
  have len: "family_bytes f \<le> length a" using a family_bytes_le by simp
  have "s = formatCidr I ?c"
    using assms pa by (auto simp: addressHostCidr_def Let_def split: if_splits)
  with parse_formatCidr [OF wf] host_cidr_wf [OF f len] hc pa show ?thesis
    by (auto simp: text_denote_def)
qed

end

definition upstream_hosts :: "inet \<Rightarrow> string \<Rightarrow> address set" where
  "upstream_hosts I t =
     (if t = [] then {}
      else (case parse_address I t of None \<Rightarrow> {} | Some (f, a) \<Rightarrow> {(f, take (family_bytes f) a)}))"

text \<open>What a collected policy \<open>p\<close> is to satisfy, for the upstream address \<open>up\<close>.\<close>

definition exact_policy :: "inet \<Rightarrow> string \<Rightarrow> string \<Rightarrow> ifaddr list \<Rightarrow> bypass_policy \<Rightarrow> bool" where
  "exact_policy I up excluded ifs p \<longleftrightarrow>
     texts_union I (set (allCidrs I p)) =
       texts_union I (set fixedBypassCidrs) \<union> interface_hosts excluded ifs \<union> upstream_hosts I up \<and>
     sorted_wrt (\<lambda>s t. \<not> text_denote I t \<subseteq> text_denote I s) (allCidrs I p) \<and>
     length (interface_cidrs p) \<le> kMaximumInterfaceCidrs \<and>
     (up \<noteq> [] \<longrightarrow> allCidrs I p \<noteq> [] \<and> text_denote I (hd (allCidrs I p)) = upstream_hosts I up)"

context address_codec
begin

lemma exact_policyI:
  assumes whole: "whole_addresses ifs"
    and col: "collect_addresses I excluded ifs ([], set fixedBypassCidrs) = (Inr u, (out, sn))"
    and up: "if up = [] then cidr = [] else addressHostCidr I up = Inr cidr"
  shows "exact_policy I up excluded ifs
    \<lparr>fixed_cidrs = fixedBypassCidrs, interface_cidrs = out, upstream_cidr = cidr\<rparr>"
proof -
  let ?p = "\<lparr>fixed_cidrs = fixedBypassCidrs, interface_cidrs = out, upstream_cidr = cidr\<rparr>"
  have c: "sn = set fixedBypassCidrs \<union> set out" "length out \<le> kMaximumInterfaceCidrs"
    "texts_union I (set out) \<subseteq> interface_hosts excluded ifs"
    "interface_hosts excluded ifs \<subseteq> texts_union I sn"
  proof -
    have "set fixedBypassCidrs = set fixedBypassCidrs \<union> set []" "length [] \<le> kMaximumInterfaceCidrs"
      by simp_all
    from collect_addresses_step [OF whole this col] show "sn = set fixedBypassCidrs \<union> set out"
      "length out \<le> kMaximumInterfaceCidrs" "texts_union I (set out) \<subseteq> interface_hosts excluded ifs"
      "interface_hosts excluded ifs \<subseteq> texts_union I sn"
      unfolding append_Nil by blast+
  qed
  have u: "text_denote I cidr = upstream_hosts I up" "up \<noteq> [] \<Longrightarrow> ok (parseCidr I cidr)"
  proof -
    have "text_denote I cidr = upstream_hosts I up \<and> (up \<noteq> [] \<longrightarrow> ok (parseCidr I cidr))"
    proof (cases "up = []")
      case True
      with up show ?thesis by (simp add: upstream_hosts_def)
    next
      case False
      with up have "addressHostCidr I up = Inr cidr" by simp
      from addressHostCidr_denote [OF this] obtain f a where
        "parse_address I up = Some (f, a)" "text_denote I cidr = {(f, take (family_bytes f) a)}"
        "ok (parseCidr I cidr)" by blast
      with False show ?thesis by (simp add: upstream_hosts_def)
    qed
    then show "text_denote I cidr = upstream_hosts I up" "up \<noteq> [] \<Longrightarrow> ok (parseCidr I cidr)"
      by blast+
  qed
  have "merged_ok I (merge_cidrs I ?p)" using merge_cidrs_ok by blast
  from merged_ok_texts [OF this] have "texts_union I (set (allCidrs I ?p)) =
      text_denote I cidr \<union> texts_union I (set (fixedBypassCidrs @ out))"
    using merge_cidrs_ok [of ?p] by (simp add: texts_union_def allCidrs_def)
  also have "\<dots> = texts_union I (set fixedBypassCidrs) \<union> interface_hosts excluded ifs \<union> upstream_hosts I up"
    using c(3,4) unfolding c(1) u(1) set_append texts_union_simps(1) by blast
  finally have "texts_union I (set (allCidrs I ?p)) =
    texts_union I (set fixedBypassCidrs) \<union> interface_hosts excluded ifs \<union> upstream_hosts I up" .
  moreover have "up \<noteq> [] \<Longrightarrow> allCidrs I ?p \<noteq> [] \<and> text_denote I (hd (allCidrs I ?p)) = upstream_hosts I up"
    using u merge_cidrs_ok [of ?p] by force
  ultimately show ?thesis
    using c(2) allCidrs_apart [of ?p] unfolding exact_policy_def by simp
qed

end

lemma collectBypassPolicy_result:
  "\<exists>r h'. collectBypassPolicy S up excluded h = Some (r, h') \<and>
    (case r of
       Inl e \<Rightarrow> r_ret (answer S h CGetIfAddrs) \<noteq> 0
         \<or> \<not> ok (fst (collect_addresses (inet_of S) excluded (interfaces S h) ([], set fixedBypassCidrs)))
         \<or> up \<noteq> [] \<and> \<not> ok (addressHostCidr (inet_of S) up)
     | Inr p \<Rightarrow> \<exists>u out sn cidr.
         collect_addresses (inet_of S) excluded (interfaces S h) ([], set fixedBypassCidrs) = (Inr u, (out, sn)) \<and>
         (if up = [] then cidr = [] else addressHostCidr (inet_of S) up = Inr cidr) \<and>
         p = \<lparr>fixed_cidrs = fixedBypassCidrs, interface_cidrs = out, upstream_cidr = cidr\<rparr>)"
proof -
  obtain c out sn where col:
    "collect_addresses (inet_of S) excluded (interfaces S h) ([], set fixedBypassCidrs) = (c, (out, sn))"
    by (metis prod.exhaust)
  show ?thesis
  proof (cases "r_ret (answer S h CGetIfAddrs) = 0")
    case False
    then show ?thesis by (simp add: collectBypassPolicy_def collectInterfaceAddresses_def sys_def)
  next
    case True
    then show ?thesis
      by (cases c; cases "addressHostCidr (inet_of S) up")
        (simp_all add: collectBypassPolicy_def collectInterfaceAddresses_def sys_def col)
  qed
qed

lemma collectBypassPolicy_twp:
  assumes "address_codec (inet_of S)" and "whole_addresses (interfaces S h)"
  shows "twp (collectBypassPolicy S up excluded h) (\<lambda>r h'.
    (\<forall>p. r = Inr p \<longrightarrow> exact_policy (inet_of S) up excluded (interfaces S h) p) \<and>
    (r_ret (answer S h CGetIfAddrs) = 0 \<and> length (interfaces S h) \<le> kMaximumInterfaceCidrs
       \<and> (up = [] \<or> ok (addressHostCidr (inet_of S) up)) \<longrightarrow> ok r))"
proof -
  obtain r h' where run: "collectBypassPolicy S up excluded h = Some (r, h')" and
    res: "case r of
       Inl e \<Rightarrow> r_ret (answer S h CGetIfAddrs) \<noteq> 0
         \<or> \<not> ok (fst (collect_addresses (inet_of S) excluded (interfaces S h) ([], set fixedBypassCidrs)))
         \<or> up \<noteq> [] \<and> \<not> ok (addressHostCidr (inet_of S) up)
     | Inr p \<Rightarrow> \<exists>u out sn cidr.
         collect_addresses (inet_of S) excluded (interfaces S h) ([], set fixedBypassCidrs) = (Inr u, (out, sn)) \<and>
         (if up = [] then cidr = [] else addressHostCidr (inet_of S) up = Inr cidr) \<and>
         p = \<lparr>fixed_cidrs = fixedBypassCidrs, interface_cidrs = out, upstream_cidr = cidr\<rparr>"
    using collectBypassPolicy_result by blast
  show ?thesis
  proof (cases r)
    case (Inr p)
    with res obtain u out sn cidr where
      "collect_addresses (inet_of S) excluded (interfaces S h) ([], set fixedBypassCidrs) = (Inr u, (out, sn))"
      "if up = [] then cidr = [] else addressHostCidr (inet_of S) up = Inr cidr"
      "p = \<lparr>fixed_cidrs = fixedBypassCidrs, interface_cidrs = out, upstream_cidr = cidr\<rparr>" by auto
    with address_codec.exact_policyI [OF assms this(1,2)] run Inr show ?thesis by (simp add: twp_def)
  next
    case (Inl e)
    have "fst (collect_addresses (inet_of S) excluded (interfaces S h) ([], set fixedBypassCidrs)) = Inr ()"
      if "length (interfaces S h) \<le> kMaximumInterfaceCidrs"
      using that by (intro address_codec.collect_addresses_ok [OF assms]) simp
    with res Inl run show ?thesis by (auto simp: twp_def)
  qed
qed

section \<open>Properties\<close>

text \<open>C7: The tests on parsed CIDR blocks decide what they mean, bit by bit in the code and as sets
  of addresses here: \<open>containsCidr\<close> is inclusion of the blocks, and
  \<open>overlapsTunAddressSpace\<close> tells whether the block and 198.18.0.0/15 have an address in
  common.\<close>

theorem cidr_tests_exact:
  assumes "address_codec I" and "parseCidr I s = Inr c" and "parseCidr I t = Inr d"
  shows "(containsCidr c d \<longleftrightarrow> denote d \<subseteq> denote c) \<and>
    (overlapsTunAddressSpace c \<longleftrightarrow> denote c \<inter> tun_space \<noteq> {})"
  using containsCidr_iff overlapsTun_iff address_codec.parseCidr_wf [OF assms(1)] assms(2,3) by blast

definition loopback_cidr :: binary_cidr where
  "loopback_cidr = \<lparr>cidr_family = AF_INET, cidr_address = 127 # replicate 15 0, cidr_prefix = 8\<rparr>"

lemma loopback_wf: "wf_cidr loopback_cidr"
  by (auto simp: wf_cidr_def loopback_cidr_def abit_def nth_Cons split: nat.splits)

theorem cidr_tests_exact_witness:
  "(containsCidr loopback_cidr loopback_cidr \<longleftrightarrow> denote loopback_cidr \<subseteq> denote loopback_cidr) \<and>
    (overlapsTunAddressSpace loopback_cidr \<longleftrightarrow> denote loopback_cidr \<inter> tun_space \<noteq> {})"
  by (rule cidr_tests_exact [OF ref.address_codec_axioms])
    (rule ref.parse_formatCidr [OF loopback_wf, THEN conjunct1])+

text \<open>C8: Parsing a CIDR text keeps the network bits of its address and clears the host bits: the
  text is an address, a slash and the number of the prefix, within the family's width; bit \<open>i\<close> of
  the block's address is set exactly where \<open>i\<close> is below the prefix and the bit of the address is
  set; so the block stands for the addresses of the family that agree with the address on the
  first \<open>prefix\<close> bits. The canonical text of the block parses to the same block and is its own
  canonical form.\<close>

theorem parse_cidr_canonical:
  assumes "address_codec I" and "parseCidr I s = Inr c"
  shows "(\<exists>t n f a. s = t @ ''/'' @ n \<and> from_chars_unsigned (2 ^ 32 - 1) n = FcOk (cidr_prefix c) [] \<and>
      parse_address I t = Some (f, a) \<and> cidr_family c = f \<and> cidr_prefix c \<le> 8 * family_bytes f \<and>
      length (cidr_address c) = 16 \<and>
      (\<forall>i < 128. abit (cidr_address c) i \<longleftrightarrow> i < cidr_prefix c \<and> abit a i) \<and>
      denote c = prefix_set f a (cidr_prefix c)) \<and>
    parseCidr I (formatCidr I c) = Inr c \<and>
    (\<exists>t. canonicalizeCidr I s = Inr t \<and> canonicalizeCidr I t = Inr t)"
proof -
  note wf = address_codec.parseCidr_wf [OF assms]
  note pf = address_codec.parse_formatCidr [OF assms(1) wf]
  with assms(2) have "\<exists>t. canonicalizeCidr I s = Inr t \<and> canonicalizeCidr I t = Inr t"
    by (auto simp: canonicalizeCidr_def Let_def)
  with address_codec.parseCidr_bits [OF assms] pf show ?thesis by blast
qed

theorem parse_cidr_canonical_witness:
  "(\<exists>t n f a. formatCidr ref_inet loopback_cidr = t @ ''/'' @ n \<and>
      from_chars_unsigned (2 ^ 32 - 1) n = FcOk (cidr_prefix loopback_cidr) [] \<and>
      parse_address ref_inet t = Some (f, a) \<and> cidr_family loopback_cidr = f \<and>
      cidr_prefix loopback_cidr \<le> 8 * family_bytes f \<and> length (cidr_address loopback_cidr) = 16 \<and>
      (\<forall>i < 128. abit (cidr_address loopback_cidr) i \<longleftrightarrow> i < cidr_prefix loopback_cidr \<and> abit a i) \<and>
      denote loopback_cidr = prefix_set f a (cidr_prefix loopback_cidr)) \<and>
    parseCidr ref_inet (formatCidr ref_inet loopback_cidr) = Inr loopback_cidr \<and>
    (\<exists>t. canonicalizeCidr ref_inet (formatCidr ref_inet loopback_cidr) = Inr t
       \<and> canonicalizeCidr ref_inet t = Inr t)"
  by (rule parse_cidr_canonical [OF ref.address_codec_axioms])
    (rule ref.parse_formatCidr [OF loopback_wf, THEN conjunct1])

text \<open>C9: Merging the lists of a policy loses and adds no address: the entries \<open>allCidrs\<close>
  keeps stand together for exactly the addresses of the upstream, fixed and interface entries that
  parse, no kept entry is covered by an earlier one, and a parsable upstream entry is the
  first of the list, also where a fixed range holds it.\<close>

theorem all_cidrs_exact:
  assumes "address_codec I"
  shows "texts_union I (set (allCidrs I p)) =
      texts_union I ({upstream_cidr p} \<union> set (fixed_cidrs p) \<union> set (interface_cidrs p)) \<and>
    sorted_wrt (\<lambda>s t. \<not> text_denote I t \<subseteq> text_denote I s) (allCidrs I p) \<and>
    (ok (parseCidr I (upstream_cidr p)) \<longrightarrow> (\<exists>ys. allCidrs I p = upstream_cidr p # ys))"
proof -
  note m = address_codec.merge_cidrs_ok [OF assms, of p]
  from m merged_ok_texts [of I "merge_cidrs I p"] have "texts_union I (set (allCidrs I p)) =
      text_denote I (upstream_cidr p) \<union> texts_union I (set (fixed_cidrs p @ interface_cidrs p))"
    by (simp add: texts_union_def allCidrs_def)
  then show ?thesis
    using m address_codec.allCidrs_apart [OF assms, of p] by (auto simp: texts_union_def)
qed

definition sample_policy :: bypass_policy where
  "sample_policy = \<lparr>fixed_cidrs = fixedBypassCidrs, interface_cidrs = [''10.0.0.7/32''],
     upstream_cidr = formatCidr ref_inet loopback_cidr\<rparr>"

theorem all_cidrs_exact_witness:
  "texts_union ref_inet (set (allCidrs ref_inet sample_policy)) =
      texts_union ref_inet ({upstream_cidr sample_policy} \<union> set (fixed_cidrs sample_policy)
        \<union> set (interface_cidrs sample_policy)) \<and>
    sorted_wrt (\<lambda>s t. \<not> text_denote ref_inet t \<subseteq> text_denote ref_inet s)
      (allCidrs ref_inet sample_policy) \<and>
    (\<exists>ys. allCidrs ref_inet sample_policy = upstream_cidr sample_policy # ys)"
proof -
  have "ok (parseCidr ref_inet (upstream_cidr sample_policy))"
    using ref.parse_formatCidr [OF loopback_wf] by (simp add: sample_policy_def)
  with all_cidrs_exact [OF ref.address_codec_axioms, of sample_policy] show ?thesis by blast
qed

text \<open>C10: The policy collected from the system is exact. \<open>collectBypassPolicy\<close> returns; where it
  gives a policy, the addresses that bypass the TUN device are exactly the fixed ranges, the
  addresses of the interfaces that are up (but for the excluded interface, the unspecified
  address and the TUN range) and the upstream, with the upstream first in the list and at most
  1024 interface entries; and it does give one where the interfaces can be listed, are at most
  1024, and the upstream is empty or a specified address.\<close>

theorem bypass_policy_exact:
  assumes "address_codec (inet_of S)" and "whole_addresses (interfaces S h)"
  shows "twp (collectBypassPolicy S up excluded h) (\<lambda>r h'.
    (\<forall>p. r = Inr p \<longrightarrow>
       texts_union (inet_of S) (set (allCidrs (inet_of S) p)) =
         texts_union (inet_of S) (set fixedBypassCidrs) \<union> interface_hosts excluded (interfaces S h)
         \<union> upstream_hosts (inet_of S) up \<and>
       length (interface_cidrs p) \<le> kMaximumInterfaceCidrs \<and>
       (up \<noteq> [] \<longrightarrow> text_denote (inet_of S) (hd (allCidrs (inet_of S) p)) = upstream_hosts (inet_of S) up)) \<and>
    (r_ret (answer S h CGetIfAddrs) = 0 \<and> length (interfaces S h) \<le> kMaximumInterfaceCidrs
       \<and> (up = [] \<or> ok (addressHostCidr (inet_of S) up)) \<longrightarrow> ok r))"
  using collectBypassPolicy_twp [OF assms, of up excluded]
  unfolding exact_policy_def twp_def by (auto split: option.splits)

definition two_interfaces :: os where
  "two_interfaces = (file_os empty_vfs)
     \<lparr>interfaces := (\<lambda>_. [\<lparr>ifa_name = Some ''eth0'', ifa_up = True, ifa_addr = Some (AF_INET, [192, 0, 2, 7])\<rparr>,
        \<lparr>ifa_name = Some ''tunproxy0'', ifa_up = True, ifa_addr = Some (AF_INET, [198, 18, 0, 1])\<rparr>]),
      inet_of := ref_inet\<rparr>"

theorem bypass_policy_exact_witness:
  "twp (collectBypassPolicy two_interfaces ''192.0.2.1'' ''tunproxy0'' []) (\<lambda>r h'.
    (\<forall>p. r = Inr p \<longrightarrow>
       texts_union (inet_of two_interfaces) (set (allCidrs (inet_of two_interfaces) p)) =
         texts_union (inet_of two_interfaces) (set fixedBypassCidrs)
         \<union> interface_hosts ''tunproxy0'' (interfaces two_interfaces [])
         \<union> upstream_hosts (inet_of two_interfaces) ''192.0.2.1'' \<and>
       length (interface_cidrs p) \<le> kMaximumInterfaceCidrs \<and>
       (''192.0.2.1'' \<noteq> [] \<longrightarrow> text_denote (inet_of two_interfaces) (hd (allCidrs (inet_of two_interfaces) p))
          = upstream_hosts (inet_of two_interfaces) ''192.0.2.1'')) \<and>
    (r_ret (answer two_interfaces [] CGetIfAddrs) = 0
       \<and> length (interfaces two_interfaces []) \<le> kMaximumInterfaceCidrs
       \<and> (''192.0.2.1'' = [] \<or> ok (addressHostCidr (inet_of two_interfaces) ''192.0.2.1'')) \<longrightarrow> ok r))"
proof (rule bypass_policy_exact)
  show "address_codec (inet_of two_interfaces)"
    using ref.address_codec_axioms by (simp add: two_interfaces_def)
  show "whole_addresses (interfaces two_interfaces [])"
    by (simp add: two_interfaces_def whole_addresses_def)
qed

end
