(* ===== verification/RuntimeState.thy ===== *)
theory RuntimeState
  imports Codec
begin

text \<open>
  \<^verbatim>\<open>src/runtime_state.cpp\<close>: the file that remembers which core process belongs to the
  program, the check that a process is still that one, and the lock that serialises the
  operations.

  The state file is a \<open>text_store\<close>. The identity of a process is its id, its start time and
  its executable; \<open>proc_fs\<close> is a process table as \<^verbatim>\<open>/proc\<close> and \<^verbatim>\<open>kill\<close> show it, and
  the check is proved to decide identity against it, whatever a process calls itself.
\<close>

section \<open>Numbers, links and lists\<close>

definition parseInteger :: "string \<Rightarrow> string \<Rightarrow> int result" where
  "parseInteger text name =
     (case from_chars_signed 64 text of
        FcOk value rest \<Rightarrow>
          if rest \<noteq> [] then failure StateError (''invalid state '' @ name) else success value
      | _ \<Rightarrow> failure StateError (''invalid state '' @ name))"

definition readLink :: "os \<Rightarrow> string \<Rightarrow> hist \<Rightarrow> string run" where
  "readLink S path h = do {
     (value, h) \<leftarrow> sys S (CReadSymlink path) h;
     Some (if r_ret value \<noteq> 0 then [] else r_out value, h)
   }"

text \<open>The rest of the text behind \<^verbatim>\<open>offset\<close> is the argument.\<close>

function splitCidrs :: "string \<Rightarrow> string list" where
  "splitCidrs text =
     (if text = [] then []
      else (case find_char CHR '','' text of
        None \<Rightarrow> [text]
      | Some separator \<Rightarrow>
          (let value = take separator text in if value \<noteq> [] then [value] else [])
            @ splitCidrs (drop (separator + 1) text)))"
  by pat_completeness auto
termination
  by (relation "measure length") (auto dest: find_charD)

declare splitCidrs.simps [simp del]

definition joinCidrs :: "string list \<Rightarrow> string" where
  "joinCidrs values = join '','' values"

section \<open>The state and its file\<close>

record runtime_state =
  rs_pid :: int
  rs_start_ticks :: "64 word"
  rs_executable :: string
  rs_core_version :: string
  rs_upstream :: string
  rs_routing_mode :: string
  rs_upstream_address :: string
  rs_bypass_cidrs :: "string list"
  rs_phase :: string

text \<open>\<^verbatim>\<open>static_cast<pid_t>\<close> of a \<^verbatim>\<open>long long\<close>: the low 32 bits, signed.\<close>

definition to_pid_t :: "int \<Rightarrow> int" where
  "to_pid_t i = (i + 2 ^ 31) mod 2 ^ 32 - 2 ^ 31"

text \<open>\<^verbatim>\<open>emplace\<close> keeps the first value of a key.\<close>

fun state_values :: "string list \<Rightarrow> (string \<rightharpoonup> string) \<Rightarrow> (string \<rightharpoonup> string) result" where
  "state_values [] values = success values"
| "state_values (line # rest) values =
     (case find_char CHR ''='' line of
        None \<Rightarrow> failure StateError ''invalid runtime state''
      | Some separator \<Rightarrow>
          let key = take separator line; value = drop (separator + 1) line
          in state_values rest (if values key = None then values(key \<mapsto> value) else values))"

definition value_of :: "(string \<rightharpoonup> string) \<Rightarrow> string \<Rightarrow> string" where
  "value_of values key = (case values key of None \<Rightarrow> [] | Some v \<Rightarrow> v)"

definition state_of_values :: "(string \<rightharpoonup> string) \<Rightarrow> runtime_state result" where
  "state_of_values values =
     (case (parseInteger (value_of values ''pid'') ''pid'',
            parseInteger (value_of values ''start_ticks'') ''start_ticks'') of
        (Inr pid, Inr start_ticks) \<Rightarrow>
          if pid \<le> 0 \<or> start_ticks \<le> 0 then failure StateError ''invalid runtime process identity''
          else
            let state = \<lparr>rs_pid = to_pid_t pid, rs_start_ticks = word_of_int start_ticks,
              rs_executable = value_of values ''executable'',
              rs_core_version = value_of values ''core_version'',
              rs_upstream = value_of values ''upstream'',
              rs_routing_mode = value_of values ''routing_mode'',
              rs_upstream_address = value_of values ''upstream_address'',
              rs_bypass_cidrs = splitCidrs (value_of values ''bypass_cidrs''),
              rs_phase = value_of values ''phase''\<rparr>
            in if rs_executable state = [] \<or> rs_core_version state = [] \<or> rs_upstream state = []
                 \<or> rs_phase state \<noteq> ''starting'' \<and> rs_phase state \<noteq> ''running''
                 \<or> rs_routing_mode state = []
               then failure StateError ''runtime state is incomplete''
               else success state
      | _ \<Rightarrow> failure StateError ''invalid runtime process identity'')"

definition parse_state :: "string \<Rightarrow> runtime_state result" where
  "parse_state content =
     (case state_values (getlines content) Map.empty of
        Inl e \<Rightarrow> Inl e
      | Inr values \<Rightarrow> state_of_values values)"

definition load_runtime :: "os \<Rightarrow> app_paths \<Rightarrow> hist \<Rightarrow> runtime_state result run" where
  "load_runtime S P h = do {
     (content, h) \<leftarrow> readTextFile S (state_file P) h;
     case content of
       Inl _ \<Rightarrow> Some (failure StateError ''runtime state is absent'', h)
     | Inr t \<Rightarrow> Some (parse_state t, h)
   }"

definition state_text :: "runtime_state \<Rightarrow> string" where
  "state_text state =
     ''pid='' @ show_int (rs_pid state) @ [nl] @
     ''start_ticks='' @ show_nat (unat (rs_start_ticks state)) @ [nl] @
     ''executable='' @ rs_executable state @ [nl] @
     ''core_version='' @ rs_core_version state @ [nl] @
     ''upstream='' @ rs_upstream state @ [nl] @
     ''routing_mode='' @ rs_routing_mode state @ [nl] @
     ''upstream_address='' @ rs_upstream_address state @ [nl] @
     ''bypass_cidrs='' @ joinCidrs (rs_bypass_cidrs state) @ [nl] @
     ''phase='' @ rs_phase state @ [nl]"

text \<open>File modes, octal in the source: \<open>0755 = 493\<close>, \<open>0644 = 420\<close>, \<open>0600 = 384\<close>.\<close>

definition save_runtime :: "os \<Rightarrow> app_paths \<Rightarrow> runtime_state \<Rightarrow> hist \<Rightarrow> unit result run" where
  "save_runtime S P state h = do {
     (directory, h) \<leftarrow> ensureDirectory S (runtime_dir P) 493 h;
     case directory of
       Inl e \<Rightarrow> Some (Inl e, h)
     | Inr _ \<Rightarrow> writeFileAtomic S (state_file P) (state_text state) 420 h
   }"

definition clear_runtime :: "os \<Rightarrow> app_paths \<Rightarrow> hist \<Rightarrow> unit result run" where
  "clear_runtime S P h = do {
     (removed, h) \<leftarrow> sys S (CRemove (state_file P)) h;
     if r_ret removed < 0 \<and> r_errno removed \<noteq> ENOENT then
       Some (failure StateError (strerror S (r_errno removed)), h)
     else Some (success (), h)
   }"

section \<open>The identity of a process\<close>

definition parse_stat :: "string \<Rightarrow> (64 word) result" where
  "parse_stat content =
     (case rfind_char CHR '')'' content of
        None \<Rightarrow> failure StateError ''invalid process stat''
      | Some command_end \<Rightarrow>
          if length content \<le> command_end + 2 then failure StateError ''invalid process stat''
          else
            let fields = words (drop (command_end + 2) content)
            in if length fields < 20 then failure StateError ''short process stat''
               else (case parseInteger (fields ! 19) ''process start time'' of
                 Inl _ \<Rightarrow> failure StateError ''invalid process start time''
               | Inr ticks \<Rightarrow>
                   if ticks \<le> 0 then failure StateError ''invalid process start time''
                   else success (word_of_int ticks)))"

definition stat_path :: "int \<Rightarrow> string" where
  "stat_path pid = ''/proc/'' @ show_int pid @ ''/stat''"

definition exe_path :: "int \<Rightarrow> string" where
  "exe_path pid = ''/proc/'' @ show_int pid @ ''/exe''"

definition processStartTicks :: "os \<Rightarrow> int \<Rightarrow> hist \<Rightarrow> (64 word) result run" where
  "processStartTicks S pid h = do {
     (content, h) \<leftarrow> readTextFile S (stat_path pid) h;
     case content of
       Inl _ \<Rightarrow> Some (failure StateError ''process does not exist'', h)
     | Inr t \<Rightarrow> Some (parse_stat t, h)
   }"

definition deleted_suffix :: string where
  "deleted_suffix = '' (deleted)''"

definition strip_deleted :: "string \<Rightarrow> string" where
  "strip_deleted actual =
     (if length deleted_suffix \<le> length actual
         \<and> drop (length actual - length deleted_suffix) actual = deleted_suffix
      then take (length actual - length deleted_suffix) actual
      else actual)"

definition isManagedProcessRunning ::
  "os \<Rightarrow> runtime_state \<Rightarrow> hist \<Rightarrow> bool result run" where
  "isManagedProcessRunning S state h = do {
     (alive, h) \<leftarrow> sys S (CKill (rs_pid state) 0) h;
     if r_ret alive \<noteq> 0 \<and> cur_errno h \<noteq> EPERM then Some (success False, h)
     else do {
       (ticks, h) \<leftarrow> processStartTicks S (rs_pid state) h;
       case ticks of
         Inl _ \<Rightarrow> Some (success False, h)
       | Inr t \<Rightarrow>
           if t \<noteq> rs_start_ticks state then Some (success False, h)
           else do {
             (link, h) \<leftarrow> readLink S (exe_path (rs_pid state)) h;
             let actual_executable = strip_deleted link;
             (expected, h) \<leftarrow> sys S (CCanonical (rs_executable state)) h;
             Some (success (r_ret expected = 0 \<and> actual_executable = r_out expected), h)
           }
     }
   }"

section \<open>The operation lock\<close>

text \<open>A lock object is its descriptor, \<open>- 1\<close> where it was moved from.\<close>

definition release_lock :: "os \<Rightarrow> int \<Rightarrow> hist \<Rightarrow> unit run" where
  "release_lock S descriptor h =
     (if 0 \<le> descriptor then do {
        (_, h) \<leftarrow> sys S (CFlock descriptor LockUn) h;
        (_, h) \<leftarrow> sys S (CClose descriptor) h;
        Some ((), h)
      }
      else Some ((), h))"

definition move_lock :: "int \<Rightarrow> int \<times> int" where
  "move_lock other = (other, - 1)"

definition assign_lock :: "os \<Rightarrow> bool \<Rightarrow> int \<Rightarrow> int \<Rightarrow> hist \<Rightarrow> (int \<times> int) run" where
  "assign_lock S same this other h =
     (if same then Some ((this, other), h)
      else do {
        (_, h) \<leftarrow> release_lock S this h;
        Some (move_lock other, h)
      })"

partial_function (option) lock_wait :: "os \<Rightarrow> int \<Rightarrow> hist \<Rightarrow> int result run" where
  "lock_wait S descriptor h = do {
     (locked, h) \<leftarrow> sys S (CFlock descriptor LockEx) h;
     if r_ret locked = 0 then Some (success descriptor, h)
     else if r_ret locked < 0 \<and> r_errno locked = EINTR then lock_wait S descriptor h
     else do {
       (_, h) \<leftarrow> sys S (CClose descriptor) h;
       Some (failure StateError ''cannot acquire operation lock'', h)
     }
   }"

definition acquire_lock ::
  "os \<Rightarrow> string \<Rightarrow> (hist \<Rightarrow> unit run) option \<Rightarrow> hist \<Rightarrow> int result run" where
  "acquire_lock S path on_wait h = do {
     (directory, h) \<leftarrow> ensureDirectory S (parent_path path) 493 h;
     case directory of
       Inl e \<Rightarrow> Some (Inl e, h)
     | Inr _ \<Rightarrow> do {
         (descriptor, h) \<leftarrow> sys S (COpen path [O_RDWR, O_CREAT, O_CLOEXEC, O_NOFOLLOW] 384) h;
         if r_ret descriptor < 0 then
           Some (failure StateError ''cannot open operation lock'', h)
         else do {
           (locked, h) \<leftarrow> sys S (CFlock (r_ret descriptor) LockExNb) h;
           if r_ret locked = 0 then Some (success (r_ret descriptor), h)
           else do {
             (_, h) \<leftarrow> (case on_wait of
                None \<Rightarrow> Some ((), h)
              | Some w \<Rightarrow> if cur_errno h = EAGAIN then w h else Some ((), h));
             lock_wait S (r_ret descriptor) h
           }
         }
       }
   }"

section \<open>The state file is read back\<close>

lemma splitCidrs_Nil [simp]: "splitCidrs [] = []"
  by (simp add: splitCidrs.simps)

lemma splitCidrs_last: "CHR '','' \<notin> set v \<Longrightarrow> splitCidrs v = (if v = [] then [] else [v])"
  by (simp add: splitCidrs.simps find_char_None [THEN iffD2])

lemma splitCidrs_more:
  "CHR '','' \<notin> set v \<Longrightarrow> splitCidrs (v @ CHR '','' # rest) = (if v = [] then [] else [v]) @ splitCidrs rest"
  by (subst splitCidrs.simps) (simp add: find_char_split)

lemma splitCidrs_join:
  "\<forall>v \<in> set vs. v \<noteq> [] \<and> CHR '','' \<notin> set v \<Longrightarrow> splitCidrs (joinCidrs vs) = vs"
  unfolding joinCidrs_def
  by (induction "'',''" vs rule: join.induct) (auto simp: splitCidrs_last splitCidrs_more)

text \<open>The splitter is the plain one without its empty parts.\<close>

lemma splitCidrs_split_on: "splitCidrs t = filter (\<lambda>v. v \<noteq> []) (split_on CHR '','' t)"
proof (induction t rule: splitCidrs.induct)
  case (1 t)
  show ?case
  proof (cases "find_char CHR '','' t")
    case None
    then show ?thesis by (simp add: splitCidrs_last split_on_single)
  next
    case (Some i)
    from find_charD [OF Some] have t: "t = take i t @ CHR '','' # drop (i + 1) t" "CHR '','' \<notin> set (take i t)"
      by auto
    have "t \<noteq> []" using Some by auto
    with 1 Some have "splitCidrs (drop (i + 1) t) = filter (\<lambda>v. v \<noteq> []) (split_on CHR '','' (drop (i + 1) t))"
      by blast
    then show ?thesis
      by (subst (1 2) t(1)) (simp add: splitCidrs_more [OF t(2)] split_on_append [OF t(2)])
  qed
qed

lemma state_values_map_of:
  "\<forall>(k, v) \<in> set kvs. CHR ''='' \<notin> set k \<Longrightarrow>
     state_values (map (\<lambda>(k, v). k @ ''='' @ v) kvs) m = Inr (map_of kvs ++ m)"
proof (induction kvs arbitrary: m)
  case (Cons kv kvs)
  obtain k v where kv: "kv = (k, v)" by (cases kv)
  have "state_values (map (\<lambda>(k, v). k @ ''='' @ v) (kv # kvs)) m =
      state_values (map (\<lambda>(k, v). k @ ''='' @ v) kvs) (if m k = None then m(k \<mapsto> v) else m)"
    using Cons.prems by (simp add: kv find_char_split)
  also have "\<dots> = Inr (map_of kvs ++ (if m k = None then m(k \<mapsto> v) else m))"
    using Cons by (intro Cons.IH) simp
  also have "map_of kvs ++ (if m k = None then m(k \<mapsto> v) else m) = map_of (kv # kvs) ++ m"
    by (rule ext) (auto simp: kv map_add_def split: option.splits)
  finally show ?case .
qed simp

lemma to_pid_t_id: "- (2 ^ 31) \<le> i \<Longrightarrow> i < 2 ^ 31 \<Longrightarrow> to_pid_t i = i"
  by (simp add: to_pid_t_def)

definition one_line :: "string \<Rightarrow> bool" where
  "one_line t \<longleftrightarrow> nl \<notin> set t"

definition wf_state :: "runtime_state \<Rightarrow> bool" where
  "wf_state st \<longleftrightarrow>
     0 < rs_pid st \<and> rs_pid st < 2 ^ 31 \<and> 0 < unat (rs_start_ticks st) \<and> unat (rs_start_ticks st) < 2 ^ 63 \<and>
     rs_executable st \<noteq> [] \<and> one_line (rs_executable st) \<and>
     rs_core_version st \<noteq> [] \<and> one_line (rs_core_version st) \<and>
     rs_upstream st \<noteq> [] \<and> one_line (rs_upstream st) \<and>
     rs_routing_mode st \<noteq> [] \<and> one_line (rs_routing_mode st) \<and> one_line (rs_upstream_address st) \<and>
     (\<forall>v \<in> set (rs_bypass_cidrs st). v \<noteq> [] \<and> CHR '','' \<notin> set v \<and> one_line v) \<and>
     rs_phase st \<in> {''starting'', ''running''}"

lemma show_int_line: "one_line (show_int i)"
  by (auto simp: one_line_def show_int_def)

lemma show_nat_line: "one_line (show_nat n)"
  by (simp add: one_line_def)

lemma join_line: "\<forall>v \<in> set vs. one_line v \<Longrightarrow> one_line (joinCidrs vs)"
  using join_set [of "'',''" vs] by (auto simp: one_line_def joinCidrs_def)

lemma getlines_lines: "\<forall>l \<in> set ls. one_line l \<Longrightarrow> getlines (concat (map (\<lambda>l. l @ [nl]) ls)) = ls"
  by (induction ls) (simp_all add: one_line_def getlines_line)

lemma one_line_append: "one_line (a @ b) \<longleftrightarrow> one_line a \<and> one_line b"
  by (auto simp: one_line_def)

lemma parseInteger_show_int: "- (2 ^ 63) \<le> i \<Longrightarrow> i < 2 ^ 63 \<Longrightarrow> parseInteger (show_int i) name = Inr i"
  by (simp add: parseInteger_def from_chars_show_int)

lemma parseInteger_show_nat: "n < 2 ^ 63 \<Longrightarrow> parseInteger (show_nat n) name = Inr (int n)"
  using parseInteger_show_int [of "int n" name] by (simp add: show_int_def)

lemma parse_state_text:
  assumes "wf_state st"
  shows "parse_state (state_text st) = Inr st"
proof -
  note wf = assms [unfolded wf_state_def]
  let ?pid = "show_int (rs_pid st)" and ?ticks = "show_nat (unat (rs_start_ticks st))"
  let ?cidrs = "joinCidrs (rs_bypass_cidrs st)"
  let ?ls = "[''pid='' @ ?pid, ''start_ticks='' @ ?ticks, ''executable='' @ rs_executable st,
     ''core_version='' @ rs_core_version st, ''upstream='' @ rs_upstream st,
     ''routing_mode='' @ rs_routing_mode st, ''upstream_address='' @ rs_upstream_address st,
     ''bypass_cidrs='' @ ?cidrs, ''phase='' @ rs_phase st]"
  have "state_text st = concat (map (\<lambda>l. l @ [nl]) ?ls)"
    by (simp add: state_text_def)
  moreover have "one_line ?cidrs" using wf by (intro join_line) blast
  then have "\<forall>l \<in> set ?ls. one_line l"
    using wf show_int_line [of "rs_pid st"] show_nat_line [of "unat (rs_start_ticks st)"]
    by (auto simp: one_line_def)
  ultimately have lines: "getlines (state_text st) = ?ls" using getlines_lines by metis
  let ?kvs = "[(''pid'', ?pid), (''start_ticks'', ?ticks), (''executable'', rs_executable st),
     (''core_version'', rs_core_version st), (''upstream'', rs_upstream st),
     (''routing_mode'', rs_routing_mode st), (''upstream_address'', rs_upstream_address st),
     (''bypass_cidrs'', ?cidrs), (''phase'', rs_phase st)]"
  have eq: "?ls = map (\<lambda>(k, v). k @ ''='' @ v) ?kvs" by simp
  have vals: "state_values ?ls Map.empty = Inr (map_of ?kvs)"
    unfolding eq by (subst state_values_map_of) (simp, simp only: map_add_empty)
  have "value_of (map_of ?kvs) ''pid'' = ?pid" "value_of (map_of ?kvs) ''start_ticks'' = ?ticks"
    "value_of (map_of ?kvs) ''executable'' = rs_executable st"
    "value_of (map_of ?kvs) ''core_version'' = rs_core_version st"
    "value_of (map_of ?kvs) ''upstream'' = rs_upstream st"
    "value_of (map_of ?kvs) ''routing_mode'' = rs_routing_mode st"
    "value_of (map_of ?kvs) ''upstream_address'' = rs_upstream_address st"
    "value_of (map_of ?kvs) ''bypass_cidrs'' = ?cidrs"
    "value_of (map_of ?kvs) ''phase'' = rs_phase st"
    by (simp_all add: value_of_def)
  moreover have "parseInteger ?pid n = Inr (rs_pid st)" for n
    using wf by (intro parseInteger_show_int) auto
  moreover have "parseInteger ?ticks n = Inr (int (unat (rs_start_ticks st)))" for n
    using wf by (intro parseInteger_show_nat) auto
  moreover have "uint (rs_start_ticks st) \<noteq> 0" using wf by (auto simp: unat_gt_0 uint_0_iff)
  moreover have "to_pid_t (rs_pid st) = rs_pid st" using wf by (intro to_pid_t_id) auto
  moreover have "splitCidrs ?cidrs = rs_bypass_cidrs st" using wf by (intro splitCidrs_join) auto
  ultimately have "state_of_values (map_of ?kvs) = Inr st"
    using wf unfolding state_of_values_def by simp
  then show ?thesis unfolding parse_state_def lines vals by simp
qed

lemma save_runtime_wp:
  "wp (save_runtime S P st h)
    (atomic_outcome v (state_file P) (contents_at v h (state_file P)) (state_text st) h)"
  unfolding save_runtime_def by (rule directory_then_write_wp)

lemma save_runtime_returns: "signals_bounded S B \<Longrightarrow> returns (save_runtime S P st h)"
  unfolding save_runtime_def by (rule directory_then_write_returns)

lemma load_runtime_returns: "returns (load_runtime S P h)"
  by (auto simp: load_runtime_def returns_bind wp_simps readTextFile_returns intro!: wpI split: sum.splits)

lemma load_runtime_twp:
  assumes "reads_faithfully S v" and "contents_at v h (state_file P) = Some t"
  shows "twp (load_runtime S P h) (\<lambda>r _. r = parse_state t)"
proof (rule twpI [OF load_runtime_returns])
  show "wp (load_runtime S P h) (\<lambda>r _. r = parse_state t)"
    unfolding load_runtime_def wp_simps
    by (rule wp_mono [OF readTextFile_wp [of S "state_file P" h v]]) (use assms in \<open>simp add: wp_simps\<close>)
qed

interpretation state_store: text_store state_text parse_state wf_state "state_file P"
  "\<lambda>S st h. save_runtime S P st h" "\<lambda>S h. load_runtime S P h" for P
proof
  show "wf_state st \<Longrightarrow> parse_state (state_text st) = Inr st" for st by (rule parse_state_text)
  show "wp (save_runtime S P st h)
      (atomic_outcome v (state_file P) (contents_at v h (state_file P)) (state_text st) h)" for st S h v
    by (rule save_runtime_wp)
  show "reads_faithfully S v \<Longrightarrow> contents_at v h (state_file P) = Some t \<Longrightarrow>
      twp (load_runtime S P h) (\<lambda>r _. \<forall>x. parse_state t = Inr x \<longrightarrow> r = Inr x)" for S v h t
    using load_runtime_twp [of S v h P t] by (auto simp: twp_def split: option.splits)
qed

lemma parse_state_error: "parse_state t = Inl e \<Longrightarrow> err_code e = StateError"
proof -
  have "state_values ls m = Inl e \<Longrightarrow> err_code e = StateError" for ls m
    by (induction ls m rule: state_values.induct) (auto simp: Let_def split: option.splits)
  moreover have "state_of_values m = Inl e \<Longrightarrow> err_code e = StateError" for m
    by (auto simp: state_of_values_def Let_def split: sum.splits if_splits)
  moreover assume "parse_state t = Inl e"
  ultimately show ?thesis by (auto simp: parse_state_def split: sum.splits)
qed

lemma parse_state_sound:
  assumes "parse_state t = Inr st"
  shows "rs_executable st \<noteq> [] \<and> rs_core_version st \<noteq> [] \<and> rs_upstream st \<noteq> [] \<and> rs_routing_mode st \<noteq> [] \<and>
    rs_phase st \<in> {''starting'', ''running''} \<and> rs_start_ticks st \<noteq> 0 \<and>
    (\<forall>v \<in> set (rs_bypass_cidrs st). v \<noteq> [])"
proof -
  from assms obtain m where m: "state_of_values m = Inr st"
    by (auto simp: parse_state_def split: sum.splits)
  have bound: "i < 2 ^ 63" if "parseInteger x n = Inr i" for x n i
    using that by (auto simp: parseInteger_def from_chars_signed_def Let_def not_le
        split: from_chars_result.splits if_splits list.splits)
  have "word_of_int i \<noteq> (0 :: 64 word)" if "0 < i" "i < 2 ^ 63" for i :: int
    using that by (simp add: word_of_int_eq_0_iff zdvd_not_zless)
  with m bound show ?thesis
    by (auto simp: state_of_values_def Let_def splitCidrs_split_on split: sum.splits if_splits)
qed

section \<open>The identity of a process\<close>

text \<open>A process: start time, the name it gave itself, the fields of its stat line, its executable.\<close>

record proc =
  p_ticks :: nat
  p_comm :: string
  p_fields :: "string list"
  p_exe :: string

definition wf_proc :: "proc \<Rightarrow> bool" where
  "wf_proc p \<longleftrightarrow>
     20 \<le> length (p_fields p) \<and> p_fields p ! 19 = show_nat (p_ticks p) \<and>
     0 < p_ticks p \<and> p_ticks p < 2 ^ 63 \<and>
     (\<forall>f \<in> set (p_fields p). f \<noteq> [] \<and> CHR '')'' \<notin> set f \<and> (\<forall>c \<in> set f. \<not> is_space c))"

text \<open>\<^verbatim>\<open>/proc/pid/stat\<close>: the name stands in brackets as it is, brackets and blanks included.\<close>

definition stat_text :: "int \<Rightarrow> proc \<Rightarrow> string" where
  "stat_text pid p = show_int pid @ '' ('' @ p_comm p @ '') '' @ join '' '' (p_fields p) @ [nl]"

lemma words_Nil [simp]: "words [] = []" "words [nl] = []"
  by (simp_all add: words.simps is_space_def)

lemma words_word:
  assumes "w \<noteq> []" and "\<forall>c \<in> set w. \<not> is_space c" and "is_space c"
  shows "words (w @ c # rest) = w # words (c # rest)"
proof -
  obtain d ds where w: "w = d # ds" using assms(1) by (cases w) auto
  have "dropWhile is_space (w @ c # rest) = w @ c # rest" using assms(2) by (simp add: w)
  then show ?thesis using assms by (subst words.simps) (simp add: Let_def)
qed

lemma words_space: "is_space c \<Longrightarrow> words (c # rest) = words rest"
  by (subst (1 2) words.simps) simp

lemma words_join:
  "\<forall>f \<in> set fs. f \<noteq> [] \<and> (\<forall>c \<in> set f. \<not> is_space c) \<Longrightarrow> words (join '' '' fs @ [nl]) = fs"
proof (induction "'' ''" fs rule: join.induct)
  case (2 x)
  then show ?case using words_word [of x nl "[]"] by (simp add: is_space_def)
next
  case (3 x y xs)
  then have "words (x @ CHR '' '' # join '' '' (y # xs) @ [nl]) = x # words (join '' '' (y # xs) @ [nl])"
    using words_word [of x "CHR '' ''"] words_space [of "CHR '' ''"] by (simp add: is_space_def)
  with 3 show ?case by simp
qed simp

lemma join_not_Nil: "fs \<noteq> [] \<Longrightarrow> \<forall>f \<in> set fs. f \<noteq> [] \<Longrightarrow> join sep fs \<noteq> []"
  by (induction sep fs rule: join.induct) auto

lemma parse_stat_text:
  assumes "wf_proc p"
  shows "parse_stat (stat_text pid p) = Inr (word_of_nat (p_ticks p))"
proof -
  note wf = assms [unfolded wf_proc_def]
  let ?head = "show_int pid @ '' ('' @ p_comm p" and ?tail = "join '' '' (p_fields p) @ [nl]"
  have whole: "stat_text pid p = ?head @ CHR '')'' # CHR '' '' # ?tail" by (simp add: stat_text_def)
  have "CHR '')'' \<notin> set (CHR '' '' # ?tail)"
    using wf join_set [of "'' ''" "p_fields p"] by auto
  then have at: "rfind_char CHR '')'' (stat_text pid p) = Some (length ?head)"
    unfolding whole by (rule rfind_char_split)
  have rest: "drop (length ?head + 2) (stat_text pid p) = ?tail"
    unfolding whole drop_append by (simp add: numeral_2_eq_2 del: append_Cons append_assoc)
  have "words ?tail = p_fields p" using wf by (intro words_join) blast
  moreover have "length ?head + 2 < length (stat_text pid p)" unfolding whole by simp
  moreover have "parseInteger (p_fields p ! 19) n = Inr (int (p_ticks p))" for n
    using wf parseInteger_show_nat by simp
  ultimately show ?thesis using wf unfolding parse_stat_def at option.case rest by simp
qed

text \<open>\<open>T h pid\<close> is the process that has the id at the instant \<open>h\<close>; the kernel shows that table.\<close>

type_synonym proc_table = "hist \<Rightarrow> int \<Rightarrow> proc option"

definition proc_fs :: "os \<Rightarrow> proc_table \<Rightarrow> bool" where
  "proc_fs S T \<longleftrightarrow>
     (\<forall>h pid. case T h pid of
        None \<Rightarrow> r_ret (answer S h (CKill pid 0)) < 0 \<and> r_errno (answer S h (CKill pid 0)) = ESRCH \<and>
          r_ret (answer S h (CReadFile (stat_path pid))) < 0
      | Some p \<Rightarrow> wf_proc p \<and>
          (r_ret (answer S h (CKill pid 0)) = 0 \<or>
           r_ret (answer S h (CKill pid 0)) < 0 \<and> r_errno (answer S h (CKill pid 0)) = EPERM) \<and>
          r_ret (answer S h (CReadFile (stat_path pid))) = 0 \<and>
          r_out (answer S h (CReadFile (stat_path pid))) = stat_text pid p \<and>
          r_ret (answer S h (CReadSymlink (exe_path pid))) = 0 \<and>
          r_out (answer S h (CReadSymlink (exe_path pid))) = p_exe p)"

text \<open>The calls of the check; none of them signals or changes anything.\<close>

definition check_event :: "runtime_state \<Rightarrow> event \<Rightarrow> bool" where
  "check_event st e \<longleftrightarrow> fst e \<in> {CKill (rs_pid st) 0, CReadFile (stat_path (rs_pid st)),
     CReadSymlink (exe_path (rs_pid st)), CCanonical (rs_executable st)}"

definition undisturbed :: "proc_table \<Rightarrow> runtime_state \<Rightarrow> hist \<Rightarrow> bool" where
  "undisturbed T st h \<longleftrightarrow> (\<forall>h'. emits (check_event st) h h' \<longrightarrow> T h' (rs_pid st) = T h (rs_pid st))"

definition canonical_to :: "os \<Rightarrow> string \<Rightarrow> string \<Rightarrow> bool" where
  "canonical_to S p q \<longleftrightarrow> (\<forall>h. r_ret (answer S h (CCanonical p)) = 0 \<and> r_out (answer S h (CCanonical p)) = q)"

definition is_the_process :: "runtime_state \<Rightarrow> string \<Rightarrow> proc option \<Rightarrow> bool" where
  "is_the_process st q po =
     (case po of None \<Rightarrow> False
      | Some p \<Rightarrow> p_ticks p = unat (rs_start_ticks st) \<and> strip_deleted (p_exe p) = q)"

lemma processStartTicks_returns: "returns (processStartTicks S pid h)"
  by (auto simp: processStartTicks_def returns_bind wp_simps readTextFile_returns intro!: wpI split: sum.splits)

lemma isManaged_emits:
  "wp (isManagedProcessRunning S st h) (\<lambda>r h'. ok r \<and> emits (check_event st) h h')"
  unfolding isManagedProcessRunning_def processStartTicks_def readTextFile_def readLink_def
  by (auto simp: wp_simps check_event_def Let_def split: sum.splits)

lemma isManaged_returns: "returns (isManagedProcessRunning S st h)"
  unfolding isManagedProcessRunning_def readLink_def
  by (auto simp: wp_simps returns_bind Let_def processStartTicks_returns intro!: wpI split: sum.splits)

lemma isManaged_exact:
  assumes T: "proc_fs S T" and still: "undisturbed T st h" and canon: "canonical_to S (rs_executable st) q"
  shows "wp (isManagedProcessRunning S st h) (\<lambda>r h'. r = Inr (is_the_process st q (T h (rs_pid st))))"
proof -
  let ?pid = "rs_pid st"
  let ?k = "(CKill ?pid 0, answer S h (CKill ?pid 0))"
  let ?h1 = "?k # h"
  let ?r = "(CReadFile (stat_path ?pid), answer S ?h1 (CReadFile (stat_path ?pid)))"
  let ?h2 = "?r # ?h1"
  have same: "T ?h1 ?pid = T h ?pid" "T ?h2 ?pid = T h ?pid"
    by (rule still [unfolded undisturbed_def, rule_format], simp add: check_event_def)+
  note at = T [unfolded proc_fs_def, rule_format]
  show ?thesis
  proof (cases "T h ?pid")
    case None
    with at [of h ?pid] show ?thesis
      by (simp add: isManagedProcessRunning_def wp_simps is_the_process_def)
  next
    case (Some p)
    have wf: "wf_proc p" using at [of h ?pid] Some by simp
    have small: "p_ticks p < 2 ^ LENGTH(64)" using wf by (auto simp: wf_proc_def)
    have "(word_of_nat (p_ticks p) :: 64 word) = rs_start_ticks st \<longleftrightarrow> p_ticks p = unat (rs_start_ticks st)"
      unfolding word_unat_eq_iff unat_of_nat_small [OF small] ..
    moreover have "processStartTicks S ?pid ?h1 = Some (Inr (word_of_nat (p_ticks p)), ?h2)"
      using at [of ?h1 ?pid] Some same(1) parse_stat_text [OF wf, of ?pid]
      by (simp add: processStartTicks_def readTextFile_def sys_def)
    moreover have "\<not> (r_ret (snd ?k) \<noteq> 0 \<and> cur_errno ?h1 \<noteq> EPERM)"
      using at [of h ?pid] Some by auto
    moreover have "readLink S (exe_path ?pid) ?h2 = Some (p_exe p,
        (CReadSymlink (exe_path ?pid), answer S ?h2 (CReadSymlink (exe_path ?pid))) # ?h2)"
      using at [of ?h2 ?pid] Some same(2) by (simp add: readLink_def sys_def)
    ultimately show ?thesis using Some canon
      unfolding isManagedProcessRunning_def canonical_to_def
      by (cases "r_ret (answer S h (CKill ?pid 0)) = 0")
        (simp_all add: wp_bind wp_sys wp_Some wp_if is_the_process_def)
  qed
qed

lemma clear_runtime_wp:
  "wp (clear_runtime S P h) (\<lambda>r h'. \<exists>a. h' = (CRemove (state_file P), a) # h \<and>
     (ok r \<longleftrightarrow> 0 \<le> r_ret a \<or> r_errno a = ENOENT))"
  by (auto simp: clear_runtime_def wp_simps)

lemma clear_runtime_returns: "returns (clear_runtime S P h)"
  by (simp add: clear_runtime_def returns_bind wp_simps)

section \<open>The operation lock\<close>

text \<open>Whether the descriptor holds the exclusive lock, after a history.\<close>

fun lock_held :: "int \<Rightarrow> hist \<Rightarrow> bool" where
  "lock_held fd [] = False"
| "lock_held fd (e # h) =
     (case e of
        (CFlock f LockUn, r) \<Rightarrow> if f = fd then False else lock_held fd h
      | (CFlock f k, r) \<Rightarrow> if f = fd \<and> r_ret r = 0 then True else lock_held fd h
      | (CClose f, r) \<Rightarrow> if f = fd then False else lock_held fd h
      | _ \<Rightarrow> lock_held fd h)"

definition logs_only :: "(hist \<Rightarrow> unit run) option \<Rightarrow> bool" where
  "logs_only w \<longleftrightarrow>
     (case w of None \<Rightarrow> True
      | Some f \<Rightarrow> \<forall>h. returns (f h) \<and> wp (f h) (\<lambda>_ h'. emits logging h h'))"

lemma lock_held_logging: "log_call c \<Longrightarrow> lock_held fd ((c, r) # h) = lock_held fd h"
  by (cases c rule: log_call.cases) simp_all

lemma emits_logs: "emits logging h h' \<Longrightarrow> emits fd_neutral h h' \<and> lock_held fd h' = lock_held fd h"
proof
  assume a: "emits logging h h'"
  then show "emits fd_neutral h h'"
    by (rule emits_mono) (metis logging_fd_neutral prod.collapse)
  from a obtain es where es: "h' = es @ h" "list_all logging es"
    by (auto simp: emits_def)
  from es(2) have "lock_held fd (es @ h) = lock_held fd h" by (induction es) (auto simp: lock_held_logging simp del: lock_held.simps)
  with es(1) show "lock_held fd h' = lock_held fd h" by simp
qed

lemma lock_wait_wp:
  "wp (lock_wait S fd h) (\<lambda>r h'.
     case r of Inr d \<Rightarrow> d = fd \<and> lock_held fd h' \<and> open_fds h' = open_fds h
             | Inl e \<Rightarrow> err_code e = StateError \<and> open_fds h' = open_fds h - {fd})"
proof (rule wpI)
  fix r h' assume ret: "lock_wait S fd h = Some (r, h')"
  let ?post = "\<lambda>fd h res. case fst res of
      Inr d \<Rightarrow> d = fd \<and> lock_held fd (snd res) \<and> open_fds (snd res) = open_fds h
    | Inl e \<Rightarrow> err_code e = StateError \<and> open_fds (snd res) = open_fds h - {fd}"
  have "?post fd h (r, h')"
  proof (rule lock_wait.raw_induct [where P = "\<lambda>S fd h res. ?post fd h res", OF _ ret], goal_cases)
    case (1 f S fd h res)
    note IH = 1(1) and eq = 1(2)
    let ?a = "answer S h (CFlock fd LockEx)"
    let ?h = "(CFlock fd LockEx, ?a) # h"
    have n: "open_fds ?h = open_fds h" by (simp add: fd_defs)
    consider (got) "r_ret ?a = 0" | (intr) "r_ret ?a < 0" "r_errno ?a = EINTR"
      | (fail) "r_ret ?a \<noteq> 0" "\<not> (r_ret ?a < 0 \<and> r_errno ?a = EINTR)" by fastforce
    then show ?case
    proof cases
      case got
      with eq n show ?thesis by (auto simp: sys_def)
    next
      case intr
      with eq have "f S fd ?h = Some res" by (simp add: sys_def)
      from IH [OF this] show ?thesis unfolding n .
    next
      case fail
      let ?h2 = "(CClose fd, answer S ?h (CClose fd)) # ?h"
      from fail eq have "res = (failure StateError ''cannot acquire operation lock'', ?h2)"
        by (auto simp: sys_def)
      with n show ?thesis by (simp add: fd_defs)
    qed
  qed
  then show "case r of Inr d \<Rightarrow> d = fd \<and> lock_held fd h' \<and> open_fds h' = open_fds h
             | Inl e \<Rightarrow> err_code e = StateError \<and> open_fds h' = open_fds h - {fd}"
    unfolding fst_conv snd_conv .
qed

lemma acquire_lock_wp:
  assumes fresh: "fresh_fds S" and logs: "logs_only w"
  shows "wp (acquire_lock S path w h) (\<lambda>r h'.
     case r of Inr fd \<Rightarrow> fd \<notin> open_fds h \<and> lock_held fd h' \<and> open_fds h' = insert fd (open_fds h)
             | Inl e \<Rightarrow> open_fds h' = open_fds h)"
    (is "wp _ ?Q")
proof -
  have main: "wp (do {
         (descriptor, h) \<leftarrow> sys S (COpen path [O_RDWR, O_CREAT, O_CLOEXEC, O_NOFOLLOW] 384) g;
         if r_ret descriptor < 0 then Some (failure StateError ''cannot open operation lock'', h)
         else do {
           (locked, h) \<leftarrow> sys S (CFlock (r_ret descriptor) LockExNb) h;
           if r_ret locked = 0 then Some (success (r_ret descriptor), h)
           else do {
             (_, h) \<leftarrow> (case w of None \<Rightarrow> Some ((), h)
              | Some w \<Rightarrow> if cur_errno h = EAGAIN then w h else Some ((), h));
             lock_wait S (r_ret descriptor) h
           }
         }
       }) ?Q" if g: "open_fds g = open_fds h" for g
  proof -
    let ?c = "COpen path [O_RDWR, O_CREAT, O_CLOEXEC, O_NOFOLLOW] 384"
    let ?o = "answer S g ?c" and ?fd = "r_ret (answer S g ?c)"
    let ?g1 = "(?c, ?o) # g"
    let ?g2 = "(CFlock ?fd LockExNb, answer S ?g1 (CFlock ?fd LockExNb)) # ?g1"
    show ?thesis
    proof (cases "?fd < 0")
      case True
      with g show ?thesis by (simp add: wp_simps fd_defs)
    next
      case False
      have new: "?fd \<notin> open_fds h"
        using fresh False g unfolding fresh_fds_def by (auto simp: fd_defs dest!: spec [of _ g] spec [of _ ?c])
      have opened: "open_fds ?g2 = insert ?fd (open_fds h)" using False g by (simp add: fd_defs)
      have wait: "wp (lock_wait S ?fd k) ?Q" if "open_fds k = insert ?fd (open_fds h)" for k
        by (rule wp_mono [OF lock_wait_wp]) (use that new in \<open>auto split: sum.splits\<close>)
      have after: "wp (f ?g2) (\<lambda>_ k. wp (lock_wait S ?fd k) ?Q)" if "w = Some f" for f
      proof -
        have "wp (f ?g2) (\<lambda>_ k. emits logging ?g2 k)"
          using logs that by (auto simp: logs_only_def)
        then show ?thesis
        proof (rule wp_mono)
          fix u k assume "emits logging ?g2 k"
          from emits_logs [OF this] open_fds_neutral have "open_fds k = open_fds ?g2" by blast
          with opened show "wp (lock_wait S ?fd k) ?Q" by (intro wait) simp
        qed
      qed
      show ?thesis
      proof (cases w)
        case None
        then show ?thesis using False new opened wait [OF opened] by (simp add: wp_simps)
      next
        case (Some f)
        then show ?thesis using False new opened wait [OF opened] after [OF Some]
          by (simp add: wp_simps)
      qed
    qed
  qed
  show ?thesis
    unfolding acquire_lock_def wp_bind prod.case
  proof (rule wp_mono [OF ensureDirectory_emits])
    fix d g assume "emits directory_event h g"
    then have "emits fd_neutral h g" by (rule emits_mono) (rule directory_event_neutral)
    then have g: "open_fds g = open_fds h" by (rule open_fds_neutral)
    show "wp (case d of Inl e \<Rightarrow> Some (Inl e, g) | Inr _ \<Rightarrow> do {
         (descriptor, h) \<leftarrow> sys S (COpen path [O_RDWR, O_CREAT, O_CLOEXEC, O_NOFOLLOW] 384) g;
         if r_ret descriptor < 0 then Some (failure StateError ''cannot open operation lock'', h)
         else do {
           (locked, h) \<leftarrow> sys S (CFlock (r_ret descriptor) LockExNb) h;
           if r_ret locked = 0 then Some (success (r_ret descriptor), h)
           else do {
             (_, h) \<leftarrow> (case w of None \<Rightarrow> Some ((), h)
              | Some w \<Rightarrow> if cur_errno h = EAGAIN then w h else Some ((), h));
             lock_wait S (r_ret descriptor) h
           }
         }
       }) ?Q"
      using main [OF g] g by (cases d) (simp_all add: wp_Some)
  qed
qed

definition save_then_load_state ::
  "os \<Rightarrow> app_paths \<Rightarrow> runtime_state \<Rightarrow> hist \<Rightarrow> (unit result \<times> runtime_state result) run" where
  "save_then_load_state S P st h = do {
     (saved, h) \<leftarrow> save_runtime S P st h;
     (loaded, h) \<leftarrow> load_runtime S P h;
     Some ((saved, loaded), h)
   }"

text \<open>A machine on which one process runs, with a name that imitates the end of the name field.\<close>

definition core_state :: runtime_state where
  "core_state = \<lparr>rs_pid = 42, rs_start_ticks = 777, rs_executable = ''/var/lib/core'',
     rs_core_version = ''1'', rs_upstream = ''socks5://h:1'', rs_routing_mode = ''tun-route'',
     rs_upstream_address = ''192.0.2.1'', rs_bypass_cidrs = [''10.0.0.0/8'', ''192.0.2.1/32''],
     rs_phase = ''running''\<rparr>"

definition core_proc :: proc where
  "core_proc = \<lparr>p_ticks = 777, p_comm = ''a) S 1 1 1'',
     p_fields = replicate 19 ''0'' @ [show_nat 777, ''9''], p_exe = ''/var/lib/core (deleted)''\<rparr>"

definition one_proc_os :: os where
  "one_proc_os = (file_os empty_vfs)\<lparr>answer := (\<lambda>h c.
     case c of
       CKill pid s \<Rightarrow> (if pid = 42 then done_resp 0 [] else (done_resp (- 1) [])\<lparr>r_errno := ESRCH\<rparr>)
     | CReadFile f \<Rightarrow> (if f = stat_path 42 then done_resp 0 (stat_text 42 core_proc) else done_resp (- 1) [])
     | CReadSymlink f \<Rightarrow> done_resp 0 (p_exe core_proc)
     | CCanonical f \<Rightarrow> done_resp 0 f
     | _ \<Rightarrow> done_resp 0 [])\<rparr>"

definition one_proc :: proc_table where
  "one_proc h pid = (if pid = 42 then Some core_proc else None)"

lemma core_proc_wf: "wf_proc core_proc"
  using show_nat_digitD [of _ 777] digit_not_space
  by (auto simp: wf_proc_def core_proc_def nth_append is_space_def)

lemma show_int_inject [simp]: "show_int a = show_int b \<longleftrightarrow> a = b"
proof -
  have "show_nat n \<noteq> CHR ''-'' # x" for n x
    using show_nat_avoids(8) [of n] by (metis list.set_intros(1))
  then show ?thesis by (auto simp: show_int_def dest: sym split: if_splits)
qed

lemma one_proc_shown: "proc_fs one_proc_os one_proc"
  using core_proc_wf
  by (auto simp: proc_fs_def one_proc_def one_proc_os_def done_resp_def stat_path_def)

lemma lock_wait_returns:
  assumes "signals_bounded S B"
  shows "returns (lock_wait S fd h)"
proof (induction "B - interrupts h" arbitrary: h rule: less_induct)
  case less
  let ?a = "answer S h (CFlock fd LockEx)"
  let ?h = "(CFlock fd LockEx, ?a) # h"
  show ?case
  proof (cases "r_ret ?a < 0 \<and> r_errno ?a = EINTR")
    case False
    then show ?thesis by (subst lock_wait.simps) (auto simp: sys_def)
  next
    case True
    with assms have "interrupts h < B" unfolding signals_bounded_def by (meson leI)
    with True less have "returns (lock_wait S fd ?h)" by simp
    with True show ?thesis by (subst lock_wait.simps) (simp add: sys_def)
  qed
qed

lemma acquire_lock_returns:
  assumes "signals_bounded S B" and "logs_only w"
  shows "returns (acquire_lock S path w h)"
proof -
  have "returns (case w of None \<Rightarrow> Some ((), g) | Some w \<Rightarrow> if cur_errno g = EAGAIN then w g else Some ((), g))" for g
    using assms(2) by (auto simp: logs_only_def split: option.splits)
  with lock_wait_returns [OF assms(1)] show ?thesis
    by (auto simp: acquire_lock_def returns_bind wp_sys wp_if wp_Some ensureDirectory_returns
        intro!: wpI split: sum.splits)
qed

section \<open>Properties\<close>

text \<open>C14: The state file is read back. For a state a start writes (a positive process id, one-line fields,
  CIDR texts without commas) \<open>save_runtime\<close> followed by \<open>load_runtime\<close> returns; where the save
  succeeded, the same state is loaded, with its list of CIDRs, and where it failed the file is
  as before; at every instant the file has the old text or the new one.\<close>

theorem state_saved_is_loaded:
  assumes "wf_state st" and "signals_bounded S B" and "reads_faithfully S v"
  shows "twp (save_then_load_state S P st h) (\<lambda>(saved, loaded) h'.
    (if ok saved then loaded = Inr st
     else contents_at v h' (state_file P) = contents_at v h (state_file P)))
   \<and> wp (save_runtime S P st h) (\<lambda>_. along (\<lambda>g. contents_at v g (state_file P)
        \<in> {contents_at v h (state_file P), Some (state_text st)}) h)"
proof
  obtain r h1 where s: "save_runtime S P st h = Some (r, h1)"
    using save_runtime_returns [OF assms(2)] by (rule returnsE)
  note at = wpD [OF save_runtime_wp s, of v]
  show "wp (save_runtime S P st h) (\<lambda>_. along (\<lambda>g. contents_at v g (state_file P)
      \<in> {contents_at v h (state_file P), Some (state_text st)}) h)"
    using at unfolding s by (auto simp: wp_simps atomic_outcome_def old_or_new_def elim!: along_mono)
  obtain x h2 where l: "load_runtime S P h1 = Some (x, h2)"
    using load_runtime_returns by (rule returnsE)
  have q: "contents_at v h2 (state_file P) = contents_at v h1 (state_file P)"
    using l by (auto simp: load_runtime_def readTextFile_def sys_def split: if_splits)
  have "x = Inr st" if "ok r"
    using state_store.save_load [of st S v P h h1] assms s l that by (auto elim!: okE)
  then show "twp (save_then_load_state S P st h) (\<lambda>(saved, loaded) h'.
      (if ok saved then loaded = Inr st
       else contents_at v h' (state_file P) = contents_at v h (state_file P)))"
    using at q by (simp add: save_then_load_state_def twp_def s l atomic_outcome_def)
qed

theorem state_saved_is_loaded_witness:
  "twp (save_then_load_state (file_os empty_vfs) default_paths core_state []) (\<lambda>(saved, loaded) h'.
    (if ok saved then loaded = Inr core_state
     else contents_at empty_vfs h' (state_file default_paths)
       = contents_at empty_vfs [] (state_file default_paths)))
   \<and> wp (save_runtime (file_os empty_vfs) default_paths core_state [])
      (\<lambda>_. along (\<lambda>g. contents_at empty_vfs g (state_file default_paths)
        \<in> {contents_at empty_vfs [] (state_file default_paths), Some (state_text core_state)}) [])"
  by (rule state_saved_is_loaded [OF _ file_os_signals file_os_faithful])
    (simp add: wf_state_def core_state_def one_line_def)

text \<open>C15: The loader rejects broken states: every text either gives a state whose executable, version,
  upstream and routing mode are present, whose phase is \<open>starting\<close> or \<open>running\<close>, whose start time is
  not zero and whose CIDR entries are nonempty, or a \<open>StateError\<close>.\<close>

theorem state_loads_complete_or_fails:
  "case parse_state t of
     Inl e \<Rightarrow> err_code e = StateError
   | Inr st \<Rightarrow> [] \<notin> {rs_executable st, rs_core_version st, rs_upstream st, rs_routing_mode st} \<and>
       rs_phase st \<in> {''starting'', ''running''} \<and> rs_start_ticks st \<noteq> 0 \<and>
       [] \<notin> set (rs_bypass_cidrs st)"
  using parse_state_error [of t] parse_state_sound [of t] by (cases "parse_state t") auto

text \<open>C16: The start time of a process is read correctly whatever the process calls itself: for every
  stat line of the kernel, the name with any brackets, blanks and digits in it, \<open>parse_stat\<close>
  gives the start time of the 22nd field.\<close>

theorem stat_ignores_the_name:
  assumes "wf_proc p"
  shows "parse_stat (stat_text pid p) = Inr (word_of_nat (p_ticks p))"
  by (rule parse_stat_text [OF assms])

theorem stat_ignores_the_name_witness:
  "parse_stat (stat_text 42 core_proc) = Inr (word_of_nat (p_ticks core_proc))"
  by (rule stat_ignores_the_name [OF core_proc_wf])

text \<open>C17: The identity check is exact. On a machine whose kernel shows the process table \<open>T\<close>, and where
  the process with the recorded id is not replaced between the calls of the check,
  \<open>isManagedProcessRunning\<close> returns \<open>true\<close> exactly where a process with that id runs, started at the
  recorded time and executing the recorded file (also when that was deleted meanwhile); it
  never fails, and it only looks: no call of it signals a process.\<close>

theorem managed_process_check_exact:
  assumes "proc_fs S T" and "undisturbed T st h" and "canonical_to S (rs_executable st) q"
  shows "twp (isManagedProcessRunning S st h) (\<lambda>r h'.
    r = Inr (case T h (rs_pid st) of None \<Rightarrow> False
       | Some p \<Rightarrow> p_ticks p = unat (rs_start_ticks st) \<and> strip_deleted (p_exe p) = q) \<and>
    emits (check_event st) h h')"
proof (rule twpI [OF isManaged_returns])
  show "wp (isManagedProcessRunning S st h) (\<lambda>r h'.
    r = Inr (case T h (rs_pid st) of None \<Rightarrow> False
       | Some p \<Rightarrow> p_ticks p = unat (rs_start_ticks st) \<and> strip_deleted (p_exe p) = q) \<and>
    emits (check_event st) h h')"
    using wp_conj [OF isManaged_exact [OF assms] isManaged_emits]
    by (rule wp_mono) (simp add: is_the_process_def)
qed

theorem managed_process_check_exact_witness:
  "twp (isManagedProcessRunning one_proc_os core_state []) (\<lambda>r h'.
    r = Inr (case one_proc [] (rs_pid core_state) of None \<Rightarrow> False
       | Some p \<Rightarrow> p_ticks p = unat (rs_start_ticks core_state)
           \<and> strip_deleted (p_exe p) = ''/var/lib/core'') \<and>
    emits (check_event core_state) [] h')"
  by (rule managed_process_check_exact [OF one_proc_shown])
    (simp_all add: undisturbed_def one_proc_def canonical_to_def one_proc_os_def done_resp_def core_state_def)

text \<open>C18: The operation lock is taken or nothing is left behind. With finitely many signals
  \<open>acquire_lock\<close> returns. If \<open>acquire_lock\<close> returns a descriptor, it is
  a new one that holds the exclusive lock and is the only descriptor the call left open; if it returns
  an error, no descriptor is left open.\<close>

theorem lock_taken_or_nothing_left:
  assumes "fresh_fds S" and "logs_only w" and "signals_bounded S B"
  shows "twp (acquire_lock S path w h) (\<lambda>r h'.
     case r of Inr fd \<Rightarrow> fd \<notin> open_fds h \<and> lock_held fd h' \<and> open_fds h' = insert fd (open_fds h)
             | Inl e \<Rightarrow> open_fds h' = open_fds h)"
  by (rule twpI [OF acquire_lock_returns [OF assms(3,2)] acquire_lock_wp [OF assms(1,2)]])

theorem lock_taken_or_nothing_left_witness:
  "twp (acquire_lock count_os ''/run/tunproxy/lock'' None []) (\<lambda>r h'.
     case r of Inr fd \<Rightarrow> fd \<notin> open_fds [] \<and> lock_held fd h' \<and> open_fds h' = insert fd (open_fds [])
             | Inl e \<Rightarrow> open_fds h' = open_fds [])"
  by (rule lock_taken_or_nothing_left [OF count_os_fresh _ count_os_signals]) (simp add: logs_only_def)

end
