(* ===== verification/ProxyManager.thy ===== *)
theory ProxyManager
  imports CoreManager SingBoxConfig BypassPolicy RuntimeState
begin

text \<open>
  \<^verbatim>\<open>src/proxy_manager.cpp\<close>: starting, stopping and inspecting the core process, composed of
  the other components the way the code composes them.

  The members \<^verbatim>\<open>paths_\<close>, \<^verbatim>\<open>manifest_\<close> and \<^verbatim>\<open>logger_\<close> are the arguments \<open>P\<close>, \<open>M\<close> and
  \<open>L\<close>. The lemmas say which processes are signalled, which are started and when a start
  succeeds.
\<close>

section \<open>The TUN device\<close>

text \<open>\<^verbatim>\<open>sscanf\<close> with \<^verbatim>\<open>%u\<close>: blanks, a sign, digits; the value as \<^verbatim>\<open>strtoul\<close> gives it.\<close>

definition scan_unsigned :: "string \<Rightarrow> (u32 \<times> string) option" where
  "scan_unsigned s =
     (let t = dropWhile is_space s;
          negative = (t \<noteq> [] \<and> hd t = CHR ''-'');
          u = (if t \<noteq> [] \<and> (hd t = CHR ''-'' \<or> hd t = CHR ''+'') then tl t else t);
          digits = takeWhile is_digit u;
          n = min (digits_value digits) (2 ^ 64 - 1)
      in if digits = [] then None
         else Some (if negative then - word_of_nat n else word_of_nat n, dropWhile is_digit u))"

definition scan_device :: "string \<Rightarrow> (u32 \<times> u32) option" where
  "scan_device s =
     (case scan_unsigned s of
        None \<Rightarrow> None
      | Some (major, rest) \<Rightarrow>
          if rest = [] \<or> hd rest \<noteq> CHR '':'' then None
          else (case scan_unsigned (tl rest) of
            None \<Rightarrow> None
          | Some (minor, _) \<Rightarrow> Some (major, minor)))"

definition ensureTunDevice :: "os \<Rightarrow> app_paths \<Rightarrow> hist \<Rightarrow> unit result run" where
  "ensureTunDevice S P h = do {
     (status, h) \<leftarrow> sys S (CLstat (tun_device P)) h;
     if r_ret status = 0 then
       Some (if r_kind status = KChr then success ()
         else failure StateError (tun_device P @ '' exists but is not a character device''), h)
     else do {
       (sysfs, h) \<leftarrow> readTextFile S (tun_sysfs P) h;
       case sysfs of
         Inl _ \<Rightarrow> Some (failure StateError
           ''TUN is unavailable: /dev/net/tun is missing and the kernel does not expose tun'', h)
       | Inr t \<Rightarrow> (case scan_device (c_str t) of
           None \<Rightarrow> Some (failure StateError ''invalid kernel TUN device metadata'', h)
         | Some (major, minor) \<Rightarrow> do {
             (directory, h) \<leftarrow> ensureDirectory S (parent_path (tun_device P)) 493 h;
             case directory of Inl e \<Rightarrow> Some (Inl e, h)
             | Inr _ \<Rightarrow> do {
                 (made, h) \<leftarrow> sys S (CMknod (tun_device P) (unat major) (unat minor)) h;
                 if r_ret made \<noteq> 0 \<and> cur_errno h \<noteq> EEXIST then
                   Some (failure StateError ''cannot create /dev/net/tun'', h)
                 else Some (success (), h)
               }
           })
     }
   }"

section \<open>Status values\<close>

record proxy_status =
  ps_running :: bool
  ps_upstream :: string
  ps_core_version :: string
  ps_core_installed :: bool
  ps_pid :: int
  ps_routing_mode :: string
  ps_upstream_address :: string
  ps_bypass_cidrs :: "string list"

definition empty_status :: proxy_status where
  "empty_status =
     \<lparr>ps_running = False, ps_upstream = [], ps_core_version = [], ps_core_installed = False,
      ps_pid = - 1, ps_routing_mode = [], ps_upstream_address = [], ps_bypass_cidrs = []\<rparr>"

definition statusFromState :: "runtime_state \<Rightarrow> proxy_status" where
  "statusFromState state =
     \<lparr>ps_running = True, ps_upstream = rs_upstream state, ps_core_version = rs_core_version state,
      ps_core_installed = True, ps_pid = rs_pid state, ps_routing_mode = rs_routing_mode state,
      ps_upstream_address = rs_upstream_address state, ps_bypass_cidrs = rs_bypass_cidrs state\<rparr>"

definition routingModeName :: "bool \<Rightarrow> string" where
  "routingModeName auto_redirect = (if auto_redirect then ''auto-redirect'' else ''tun-route'')"

definition pollIterations :: "nat \<Rightarrow> nat" where
  "pollIterations duration = duration div kPollInterval"

section \<open>The interface\<close>

definition tunExists :: "os \<Rightarrow> app_paths \<Rightarrow> hist \<Rightarrow> bool run" where
  "tunExists S P h = do {
     (index, h) \<leftarrow> sys S (CIfIndex (c_str (tun_interface P))) h;
     Some (r_ret index \<noteq> 0, h)
   }"

fun removal_loop :: "os \<Rightarrow> app_paths \<Rightarrow> nat \<Rightarrow> hist \<Rightarrow> unit run" where
  "removal_loop S P 0 h = Some ((), h)"
| "removal_loop S P (Suc left) h = do {
     (there, h) \<leftarrow> tunExists S P h;
     if there then do {
       (_, h) \<leftarrow> sys S (CSleep kPollInterval) h;
       removal_loop S P left h
     }
     else Some ((), h)
   }"

definition awaitTunRemoval :: "os \<Rightarrow> app_paths \<Rightarrow> error_code \<Rightarrow> hist \<Rightarrow> unit result run" where
  "awaitTunRemoval S P code h = do {
     (_, h) \<leftarrow> removal_loop S P (pollIterations kTunRemovalTimeout) h;
     (there, h) \<leftarrow> tunExists S P h;
     Some (if there then failure code (tun_interface P @ '' did not disappear after sing-box stopped'')
       else success (), h)
   }"

section \<open>Starting the core\<close>

text \<open>
  The child. \<^verbatim>\<open>fexecve\<close> comes back only where it failed; then the error number is written to the
  pipe (the four bytes of an \<^verbatim>\<open>int\<close>, here one of the texts \<open>errno_bytes\<close> names) and the child
  exits.
\<close>

definition core_child ::
  "os \<Rightarrow> (errno \<Rightarrow> string) \<Rightarrow> int \<Rightarrow> int \<Rightarrow> int \<times> int \<Rightarrow> string \<Rightarrow> string \<Rightarrow> hist \<Rightarrow> unit run" where
  "core_child S errno_bytes core_fd log_fd exec_pipe executable config h = do {
     (_, h) \<leftarrow> sys S (CClose (fst exec_pipe)) h;
     (_, h) \<leftarrow> sys S (CChild KSetsid) h;
     (null_fd, h) \<leftarrow> sys S (COpen ''/dev/null'' [O_RDONLY, O_CLOEXEC] 0) h;
     (_, h) \<leftarrow> (if 0 \<le> r_ret null_fd then do {
         (_, h) \<leftarrow> sys S (CChild (KDup2 (r_ret null_fd) 0)) h;
         (_, h) \<leftarrow> sys S (CClose (r_ret null_fd)) h;
         Some ((), h)
       }
       else Some ((), h));
     (_, h) \<leftarrow> sys S (CChild (KDup2 log_fd 1)) h;
     (_, h) \<leftarrow> sys S (CChild (KDup2 log_fd 2)) h;
     (_, h) \<leftarrow> sys S (CClose log_fd) h;
     (replaced, h) \<leftarrow> sys S (CChild (KFexecve core_fd
       [executable, ''run'', ''--disable-color'', ''-c'', config])) h;
     if r_ret replaced < 0 then do {
       (_, h) \<leftarrow> sys S (CWrite (snd exec_pipe) (errno_bytes (r_errno replaced))) h;
       (_, h) \<leftarrow> sys S (CChild (KExit 127)) h;
       Some ((), h)
     }
     else Some ((), h)
   }"

text \<open>
  \<^verbatim>\<open>POLLERR | POLLNVAL = 40\<close>. The error number in the bytes read is the field \<open>r_errno\<close> of
  the answer.
\<close>

definition await_handshake :: "os \<Rightarrow> int \<Rightarrow> int \<Rightarrow> hist \<Rightarrow> int result run" where
  "await_handshake S child fd h = do {
     (handshake_result, h) \<leftarrow> sys S (CPoll [fd] (int kCoreExecHandshakeTimeout)) h;
     if r_ret handshake_result \<le> 0 \<or> and (revents handshake_result) 40 \<noteq> 0 then do {
       (_, h) \<leftarrow> sys S (CKill child 9) h;
       (_, h) \<leftarrow> sys S (CWaitpid child False) h;
       (_, h) \<leftarrow> sys S (CClose fd) h;
       Some (failure CoreStartFailure ''sing-box exec handshake timed out'', h)
     }
     else do {
       (received, h) \<leftarrow> sys S (CRead fd 4) h;
       (_, h) \<leftarrow> sys S (CClose fd) h;
       if r_ret received = 0 then Some (success child, h)
       else do {
         (_, h) \<leftarrow> sys S (CWaitpid child False) h;
         Some (failure CoreStartFailure
           (if r_ret received \<noteq> 4 then ''invalid sing-box exec handshake''
            else ''cannot execute sing-box: '' @ strerror S (r_errno received)), h)
       }
     }
   }"

definition spawnCore :: "os \<Rightarrow> string \<Rightarrow> string \<Rightarrow> string \<Rightarrow> hist \<Rightarrow> int result run" where
  "spawnCore S executable config log h = do {
     (core_fd, h) \<leftarrow> sys S (COpen executable [O_RDONLY, O_CLOEXEC, O_NOFOLLOW] 0) h;
     if r_ret core_fd < 0 then Some (failure CoreStartFailure ''cannot open verified sing-box core'', h)
     else do {
       (log_fd, h) \<leftarrow> sys S (COpen log [O_WRONLY, O_CREAT, O_APPEND, O_CLOEXEC, O_NOFOLLOW] 416) h;
       if r_ret log_fd < 0 then do {
         (_, h) \<leftarrow> sys S (CClose (r_ret core_fd)) h;
         Some (failure CoreStartFailure ''cannot open sing-box log'', h)
       }
       else do {
         (piped, h) \<leftarrow> sys S CPipe h;
         if r_ret piped \<noteq> 0 then do {
           (_, h) \<leftarrow> sys S (CClose (r_ret core_fd)) h;
           (_, h) \<leftarrow> sys S (CClose (r_ret log_fd)) h;
           Some (failure CoreStartFailure ''cannot create sing-box exec handshake'', h)
         }
         else do {
           let exec_pipe = pipe_of piped;
           (child, h) \<leftarrow> sys S (CFork (Core executable config log)) h;
           if r_ret child < 0 then do {
             (_, h) \<leftarrow> sys S (CClose (r_ret core_fd)) h;
             (_, h) \<leftarrow> sys S (CClose (r_ret log_fd)) h;
             (_, h) \<leftarrow> sys S (CClose (fst exec_pipe)) h;
             (_, h) \<leftarrow> sys S (CClose (snd exec_pipe)) h;
             Some (failure CoreStartFailure ''cannot fork sing-box'', h)
           }
           else do {
             (_, h) \<leftarrow> sys S (CClose (r_ret core_fd)) h;
             (_, h) \<leftarrow> sys S (CClose (r_ret log_fd)) h;
             (_, h) \<leftarrow> sys S (CClose (snd exec_pipe)) h;
             await_handshake S (r_ret child) (fst exec_pipe) h
           }
         }
       }
     }
   }"

datatype tun_wait = Ready | CoreExited | TimedOut

text \<open>The clock counts nanoseconds; \<open>last\<close> is the second last reported.\<close>

partial_function (option) tun_loop ::
  "os \<Rightarrow> app_paths \<Rightarrow> log_callback \<Rightarrow> int \<Rightarrow> int \<Rightarrow> nat \<Rightarrow> int \<Rightarrow> hist \<Rightarrow> tun_wait result run" where
  "tun_loop S paths L pid started timeout last_reported h = do {
     (now, h) \<leftarrow> sys S CNow h;
     if \<not> r_ret now < started + int timeout * 1000000 then Some (success TimedOut, h)
     else do {
       (waited, h) \<leftarrow> sys S (CWaitpid pid True) h;
       if r_ret waited = pid then Some (success CoreExited, h)
       else if r_ret waited < 0 \<and> r_errno waited \<noteq> EINTR \<and> r_errno waited \<noteq> ECHILD then
         Some (failure StateError ''cannot inspect sing-box process'', h)
       else do {
         (there, h) \<leftarrow> tunExists S paths h;
         if there then Some (success Ready, h)
         else do {
           (now, h) \<leftarrow> sys S CNow h;
           let elapsed = (r_ret now - started) div 1000000000;
           let report = (int (kTunReadyQuietPeriod div 1000) \<le> elapsed \<and> elapsed \<noteq> last_reported);
           (_, h) \<leftarrow> (if report then
               emitLog L Info (''Waiting for TUN interface ('' @ show_int elapsed @ ''/'' @
                 show_nat (timeout div 1000) @ ''s)'') h
             else Some ((), h));
           (_, h) \<leftarrow> sys S (CSleep kPollInterval) h;
           tun_loop S paths L pid started timeout (if report then elapsed else last_reported) h
         }
       }
     }
   }"

definition waitForTun ::
  "os \<Rightarrow> app_paths \<Rightarrow> log_callback \<Rightarrow> int \<Rightarrow> nat \<Rightarrow> hist \<Rightarrow> tun_wait result run" where
  "waitForTun S P L pid timeout h = do {
     (started, h) \<leftarrow> sys S CNow h;
     tun_loop S P L pid (r_ret started) timeout (- 1) h
   }"

section \<open>Ending the core\<close>

text \<open>\<open>None\<close> where all attempts are used up and the process is still there.\<close>

fun stop_loop :: "os \<Rightarrow> runtime_state \<Rightarrow> nat \<Rightarrow> hist \<Rightarrow> unit result option run" where
  "stop_loop S state 0 h = Some (None, h)"
| "stop_loop S state (Suc left) h = do {
     (waited, h) \<leftarrow> sys S (CWaitpid (rs_pid state) True) h;
     if r_ret waited = rs_pid state then Some (Some (success ()), h)
     else do {
       (managed, h) \<leftarrow> isManagedProcessRunning S state h;
       case managed of
         Inl e \<Rightarrow> Some (Some (Inl e), h)
       | Inr running \<Rightarrow>
           if \<not> running then Some (Some (success ()), h)
           else do {
             (_, h) \<leftarrow> sys S (CSleep kPollInterval) h;
             stop_loop S state left h
           }
     }
   }"

definition force_stop :: "os \<Rightarrow> log_callback \<Rightarrow> runtime_state \<Rightarrow> hist \<Rightarrow> unit result run" where
  "force_stop S L state h = do {
     (before_kill, h) \<leftarrow> isManagedProcessRunning S state h;
     case before_kill of Inl e \<Rightarrow> Some (Inl e, h)
     | Inr running \<Rightarrow>
         if \<not> running then Some (success (), h)
         else do {
           (_, h) \<leftarrow> emitLog L Warning ''sing-box did not stop; sending SIGKILL'' h;
           (signalled, h) \<leftarrow> sys S (CKill (rs_pid state) 9) h;
           if r_ret signalled \<noteq> 0 \<and> cur_errno h \<noteq> ESRCH then
             Some (failure StateError ''cannot force-stop sing-box'', h)
           else do {
             (ended, h) \<leftarrow> stop_loop S state (pollIterations kCoreKillTimeout) h;
             case ended of Some r \<Rightarrow> Some (r, h)
             | None \<Rightarrow> Some (failure StateError ''sing-box did not stop'', h)
           }
         }
   }"

definition terminateCore :: "os \<Rightarrow> log_callback \<Rightarrow> runtime_state \<Rightarrow> hist \<Rightarrow> unit result run" where
  "terminateCore S L state h =
     (if rs_pid state \<le> 0 then Some (success (), h)
      else do {
        (managed, h) \<leftarrow> isManagedProcessRunning S state h;
        case managed of Inl e \<Rightarrow> Some (Inl e, h)
        | Inr running \<Rightarrow>
            if \<not> running then Some (success (), h)
            else do {
              (signalled, h) \<leftarrow> sys S (CKill (rs_pid state) 15) h;
              if r_ret signalled \<noteq> 0 \<and> cur_errno h \<noteq> ESRCH then
                Some (failure StateError ''cannot signal sing-box'', h)
              else do {
                (ended, h) \<leftarrow> stop_loop S state (pollIterations kCoreTerminateTimeout) h;
                case ended of Some r \<Rightarrow> Some (r, h)
                | None \<Rightarrow> force_stop S L state h
              }
            }
      })"

section \<open>Start\<close>

text \<open>What a start finds: a running proxy, or a place cleaned up for a new one.\<close>

definition clean_previous ::
  "os \<Rightarrow> app_paths \<Rightarrow> log_callback \<Rightarrow> hist \<Rightarrow> proxy_status option result run" where
  "clean_previous S P L h = do {
     (existing, h) \<leftarrow> load_runtime S P h;
     (previous, h) \<leftarrow> (case existing of
        Inl _ \<Rightarrow> Some (success (None, False), h)
      | Inr state \<Rightarrow> do {
          (running, h) \<leftarrow> isManagedProcessRunning S state h;
          if running = Inr True \<and> rs_phase state = ''running'' then
            Some (success (Some (statusFromState state), False), h)
          else if running = Inr True then do {
            (_, h) \<leftarrow> emitLog L Warning ''cleaning up incomplete previous start'' h;
            (stopped, h) \<leftarrow> terminateCore S L state h;
            case stopped of Inl e \<Rightarrow> Some (Inl e, h) | Inr _ \<Rightarrow> Some (success (None, True), h)
          }
          else Some (success (None, False), h)
        });
     case previous of
       Inl e \<Rightarrow> Some (Inl e, h)
     | Inr (status, terminated_previous) \<Rightarrow> (case status of
         Some st \<Rightarrow> Some (success (Some st), h)
       | None \<Rightarrow> do {
           (cleared, h) \<leftarrow> clear_runtime S P h;
           case cleared of Inl e \<Rightarrow> Some (Inl e, h)
           | Inr _ \<Rightarrow>
               if terminated_previous then do {
                 (removed, h) \<leftarrow> awaitTunRemoval S P CoreStartFailure h;
                 case removed of Inl e \<Rightarrow> Some (Inl e, h) | Inr _ \<Rightarrow> Some (success None, h)
               }
               else Some (success None, h)
         })
   }"

text \<open>What a start needs: the upstream, its probed address, the bypass list and the core.\<close>

record start_inputs =
  in_upstream :: upstream
  in_resolved :: resolved_upstream
  in_cidrs :: "string list"
  in_core :: core_info

definition gather_inputs ::
  "os \<Rightarrow> app_paths \<Rightarrow> core_manifest \<Rightarrow> log_callback \<Rightarrow> hist \<Rightarrow> start_inputs result run" where
  "gather_inputs S P M L h = do {
     (tun, h) \<leftarrow> ensureTunDevice S P h;
     case tun of Inl e \<Rightarrow> Some (Inl e, h)
     | Inr _ \<Rightarrow> do {
         (conf, h) \<leftarrow> load_config S P h;
         case conf of Inl e \<Rightarrow> Some (Inl e, h)
         | Inr u \<Rightarrow> do {
             (resolved, h) \<leftarrow> resolveAndProbeUpstream S u kUpstreamProbeTimeout h;
             case resolved of Inl e \<Rightarrow> Some (Inl e, h)
             | Inr ru \<Rightarrow> do {
                 (bypass, h) \<leftarrow> collectBypassPolicy S (address ru) (tun_interface P) h;
                 case bypass of Inl e \<Rightarrow> Some (Inl e, h)
                 | Inr policy \<Rightarrow> do {
                     (core, h) \<leftarrow> ensureCore S P M L h;
                     case core of Inl e \<Rightarrow> Some (Inl e, h)
                     | Inr info \<Rightarrow> do {
                         (directory, h) \<leftarrow> ensureDirectory S (runtime_dir P) 493 h;
                         case directory of Inl e \<Rightarrow> Some (Inl e, h)
                         | Inr _ \<Rightarrow> Some (success \<lparr>in_upstream = u, in_resolved = ru,
                             in_cidrs = allCidrs (inet_of S) policy, in_core = info\<rparr>, h)
                       }
                   }
               }
           }
       }
   }"

definition singbox_config_for :: "app_paths \<Rightarrow> start_inputs \<Rightarrow> bool \<Rightarrow> singbox_runtime_config" where
  "singbox_config_for P inputs auto_redirect =
     \<lparr>sb_log_file = core_log_file P, sb_upstream = in_resolved inputs,
      sb_bypass_cidrs = in_cidrs inputs, sb_auto_redirect = auto_redirect,
      sb_interface_name = tun_interface P\<rparr>"

definition check_arguments :: "app_paths \<Rightarrow> start_inputs \<Rightarrow> string list" where
  "check_arguments P inputs =
     [ci_executable (in_core inputs), ''check'', ''--disable-color'', ''-c'', core_config_file P]"

text \<open>Writing the configuration for the core and letting the core check it.\<close>

definition write_checked_config ::
  "os \<Rightarrow> app_paths \<Rightarrow> start_inputs \<Rightarrow> bool \<Rightarrow> hist \<Rightarrow> unit result run" where
  "write_checked_config S P inputs auto_redirect h =
     (case buildSingBoxConfig (singbox_config_for P inputs auto_redirect) of
        Inl e \<Rightarrow> Some (Inl e, h)
      | Inr json \<Rightarrow> do {
          (written, h) \<leftarrow> writeFileAtomic S (core_config_file P) json 384 h;
          case written of Inl e \<Rightarrow> Some (Inl e, h)
          | Inr _ \<Rightarrow> do {
              (checked, h) \<leftarrow> runCapture S (check_arguments P inputs) kCoreCheckTimeout None h;
              if download_done checked then Some (success (), h)
              else Some (failure InvalidConfiguration
                (''sing-box config check failed: '' @ processFailureDetail checked), h)
            }
        })"

text \<open>\<^verbatim>\<open>while (waitpid(...) < 0 && errno == EINTR)\<close>.\<close>

partial_function (option) reap :: "os \<Rightarrow> int \<Rightarrow> hist \<Rightarrow> unit run" where
  "reap S pid h = do {
     (waited, h) \<leftarrow> sys S (CWaitpid pid False) h;
     if r_ret waited < 0 \<and> r_errno waited = EINTR then reap S pid h else Some ((), h)
   }"

text \<open>One attempt ends the start with a result, or leaves an error and whether routing failed.\<close>

datatype attempt = Finished "proxy_status result" | Failed error bool

abbreviation (input) finish_error :: "error \<Rightarrow> hist \<Rightarrow> attempt run" where
  "finish_error e h \<equiv> Some (Finished (Inl e), h)"

definition state_for :: "start_inputs \<Rightarrow> bool \<Rightarrow> int \<Rightarrow> 64 word \<Rightarrow> runtime_state" where
  "state_for inputs auto_redirect pid ticks =
     \<lparr>rs_pid = pid, rs_start_ticks = ticks, rs_executable = ci_executable (in_core inputs),
      rs_core_version = ci_version (in_core inputs),
      rs_upstream = formatUpstreamUri (in_upstream inputs),
      rs_routing_mode = routingModeName auto_redirect,
      rs_upstream_address = address (in_resolved inputs),
      rs_bypass_cidrs = in_cidrs inputs, rs_phase = ''starting''\<rparr>"

text \<open>The process is there and recorded as starting: wait for its interface.\<close>

definition supervise ::
  "os \<Rightarrow> app_paths \<Rightarrow> log_callback \<Rightarrow> runtime_state \<Rightarrow> hist \<Rightarrow> attempt run" where
  "supervise S P L state h = do {
     (ready, h) \<leftarrow> waitForTun S P L (rs_pid state) kTunReadyTimeout h;
     case ready of
       Inl e \<Rightarrow> do {
         (stopped, h) \<leftarrow> terminateCore S L state h;
         case stopped of Inl e' \<Rightarrow> finish_error e' h
         | Inr _ \<Rightarrow> do {
             (_, h) \<leftarrow> clear_runtime S P h;
             (_, h) \<leftarrow> awaitTunRemoval S P CoreStartFailure h;
             finish_error e h
           }
       }
     | Inr outcome \<Rightarrow>
         if outcome = Ready then do {
           let running = state\<lparr>rs_phase := ''running''\<rparr>;
           (saved, h) \<leftarrow> save_runtime S P running h;
           case saved of
             Inr _ \<Rightarrow> Some (Finished (success (statusFromState running)), h)
           | Inl e \<Rightarrow> do {
               (stopped, h) \<leftarrow> terminateCore S L running h;
               case stopped of Inl e' \<Rightarrow> finish_error e' h
               | Inr _ \<Rightarrow> do {
                   (_, h) \<leftarrow> clear_runtime S P h;
                   (removed, h) \<leftarrow> awaitTunRemoval S P CoreStartFailure h;
                   case removed of Inl e' \<Rightarrow> finish_error e' h | Inr _ \<Rightarrow> finish_error e h
                 }
             }
         }
         else do {
           (stopped, h) \<leftarrow> (if outcome = TimedOut then terminateCore S L state h
             else Some (success (), h));
           case stopped of Inl e \<Rightarrow> finish_error e h
           | Inr _ \<Rightarrow> do {
               let last_error = makeError CoreStartFailure
                 (if outcome = TimedOut then ''sing-box did not establish TUN within '' @
                    show_nat (kTunReadyTimeout div 1000) @ '' seconds''
                  else ''sing-box exited before TUN became ready'');
               (cleared, h) \<leftarrow> clear_runtime S P h;
               case cleared of Inl e \<Rightarrow> finish_error e h
               | Inr _ \<Rightarrow> do {
                   (removed, h) \<leftarrow> awaitTunRemoval S P CoreStartFailure h;
                   case removed of Inl e \<Rightarrow> finish_error e h
                   | Inr _ \<Rightarrow> Some (Failed last_error True, h)
                 }
             }
         }
   }"

definition record_core ::
  "os \<Rightarrow> app_paths \<Rightarrow> log_callback \<Rightarrow> start_inputs \<Rightarrow> bool \<Rightarrow> int \<Rightarrow> hist \<Rightarrow> attempt run" where
  "record_core S P L inputs auto_redirect pid h = do {
     (start_ticks, h) \<leftarrow> processStartTicks S pid h;
     case start_ticks of
       Inl e \<Rightarrow> do {
         (killed, h) \<leftarrow> sys S (CKill pid 9) h;
         if r_ret killed \<noteq> 0 \<and> cur_errno h \<noteq> ESRCH then
           finish_error (makeError CoreStartFailure ''cannot clean up sing-box child'') h
         else do {
           (_, h) \<leftarrow> reap S pid h;
           finish_error e h
         }
       }
     | Inr ticks \<Rightarrow> do {
         let state = state_for inputs auto_redirect pid ticks;
         (provisional, h) \<leftarrow> save_runtime S P state h;
         case provisional of
           Inl e \<Rightarrow> do {
             (stopped, h) \<leftarrow> terminateCore S L state h;
             case stopped of Inl e' \<Rightarrow> finish_error e' h
             | Inr _ \<Rightarrow> do {
                 (removed, h) \<leftarrow> awaitTunRemoval S P CoreStartFailure h;
                 case removed of Inl e' \<Rightarrow> finish_error e' h | Inr _ \<Rightarrow> finish_error e h
               }
           }
         | Inr _ \<Rightarrow> supervise S P L state h
       }
   }"

definition start_attempt ::
  "os \<Rightarrow> app_paths \<Rightarrow> log_callback \<Rightarrow> start_inputs \<Rightarrow> bool \<Rightarrow> error \<Rightarrow> bool \<Rightarrow> hist \<Rightarrow> attempt run" where
  "start_attempt S P L inputs auto_redirect last_error routing_failure h = do {
     (there, h) \<leftarrow> tunExists S P h;
     if there then
       finish_error (makeError CoreStartFailure (tun_interface P @ '' already exists outside TunProxy'')) h
     else do {
       (_, h) \<leftarrow> (if \<not> auto_redirect then emitLog L Warning
           (if routing_failure then
              ''auto-redirect failed ('' @ err_message last_error @ ''); retrying with tun-route''
            else ''sing-box failed to start ('' @ err_message last_error @ ''); retrying'') h
         else Some ((), h));
       (checked, h) \<leftarrow> write_checked_config S P inputs auto_redirect h;
       case checked of Inl e \<Rightarrow> finish_error e h
       | Inr _ \<Rightarrow> do {
           (spawned, h) \<leftarrow> spawnCore S (ci_executable (in_core inputs)) (core_config_file P) (core_log_file P) h;
           case spawned of
             Inl e \<Rightarrow> Some (Failed e False, h)
           | Inr pid \<Rightarrow> record_core S P L inputs auto_redirect pid h
         }
     }
   }"

fun start_attempts ::
  "os \<Rightarrow> app_paths \<Rightarrow> log_callback \<Rightarrow> start_inputs \<Rightarrow> bool list \<Rightarrow> error \<Rightarrow> bool \<Rightarrow> hist
     \<Rightarrow> proxy_status result run" where
  "start_attempts S P L inputs [] last_error routing_failure h = Some (Inl last_error, h)"
| "start_attempts S P L inputs (auto_redirect # rest) last_error routing_failure h = do {
     (outcome, h) \<leftarrow> start_attempt S P L inputs auto_redirect last_error routing_failure h;
     case outcome of
       Finished r \<Rightarrow> Some (r, h)
     | Failed e routing \<Rightarrow> start_attempts S P L inputs rest e routing h
   }"

definition start_proxy ::
  "os \<Rightarrow> app_paths \<Rightarrow> core_manifest \<Rightarrow> log_callback \<Rightarrow> hist \<Rightarrow> proxy_status result run" where
  "start_proxy S P M L h = do {
     (previous, h) \<leftarrow> clean_previous S P L h;
     case previous of Inl e \<Rightarrow> Some (Inl e, h)
     | Inr (Some status) \<Rightarrow> Some (success status, h)
     | Inr None \<Rightarrow> do {
         (gathered, h) \<leftarrow> gather_inputs S P M L h;
         case gathered of Inl e \<Rightarrow> Some (Inl e, h)
         | Inr inputs \<Rightarrow> start_attempts S P L inputs [True, False]
             (makeError CoreStartFailure ''sing-box failed to establish TUN'') False h
       }
   }"

section \<open>Stop and status\<close>

definition end_recorded ::
  "os \<Rightarrow> app_paths \<Rightarrow> log_callback \<Rightarrow> bool \<Rightarrow> runtime_state \<Rightarrow> hist \<Rightarrow> unit result run" where
  "end_recorded S P L running state h =
     (if running then do {
        (stopped, h) \<leftarrow> terminateCore S L state h;
        case stopped of Inl e \<Rightarrow> Some (Inl e, h)
        | Inr _ \<Rightarrow> awaitTunRemoval S P StateError h
      }
      else do {
        (_, h) \<leftarrow> emitLog L Warning ''no managed sing-box process; clearing stale state'' h;
        Some (success (), h)
      })"

definition forget_state :: "os \<Rightarrow> app_paths \<Rightarrow> hist \<Rightarrow> unit result run" where
  "forget_state S P h = do {
     (cleared, h) \<leftarrow> clear_runtime S P h;
     case cleared of Inl e \<Rightarrow> Some (Inl e, h)
     | Inr _ \<Rightarrow> do {
         (_, h) \<leftarrow> sys S (CRemove (core_config_file P)) h;
         Some (success (), h)
       }
   }"

definition stop_proxy :: "os \<Rightarrow> app_paths \<Rightarrow> log_callback \<Rightarrow> hist \<Rightarrow> unit result run" where
  "stop_proxy S P L h = do {
     (loaded, h) \<leftarrow> load_runtime S P h;
     case loaded of Inl _ \<Rightarrow> clear_runtime S P h
     | Inr state \<Rightarrow> do {
         (running, h) \<leftarrow> isManagedProcessRunning S state h;
         (stopped, h) \<leftarrow> end_recorded S P L (running = Inr True) state h;
         case stopped of Inl e \<Rightarrow> Some (Inl e, h)
         | Inr _ \<Rightarrow> forget_state S P h
       }
   }"

definition proxy_status_of ::
  "os \<Rightarrow> app_paths \<Rightarrow> core_manifest \<Rightarrow> hist \<Rightarrow> proxy_status result run" where
  "proxy_status_of S P M h = do {
     (conf, h) \<leftarrow> load_config S P h;
     (installed, h) \<leftarrow> sys S (CSymlinkStatus (corePath P M)) h;
     let status = empty_status\<lparr>
       ps_upstream := (case conf of Inl _ \<Rightarrow> [] | Inr u \<Rightarrow> formatUpstreamUri u),
       ps_core_version := cm_version M,
       ps_core_installed := (r_ret installed = 0 \<and> r_kind installed = KReg)\<rparr>;
     (loaded, h) \<leftarrow> load_runtime S P h;
     case loaded of Inl _ \<Rightarrow> Some (success status, h)
     | Inr state \<Rightarrow> do {
         (running, h) \<leftarrow> isManagedProcessRunning S state h;
         if running \<noteq> Inr True \<or> rs_phase state \<noteq> ''running'' then Some (success status, h)
         else Some (success (statusFromState state), h)
       }
   }"

section \<open>Which processes are started and signalled\<close>

text \<open>The process \<open>p\<close> was just found to be the recorded one; since then only messages were written.\<close>

definition just_checked :: "os \<Rightarrow> int \<Rightarrow> hist \<Rightarrow> bool" where
  "just_checked S p h \<longleftrightarrow>
     (\<exists>state g g'. rs_pid state = p \<and> isManagedProcessRunning S state g = Some (Inr True, g') \<and>
        emits logging g' h)"

abbreviation check_call :: "app_paths \<Rightarrow> string \<Rightarrow> string list" where
  "check_call P core \<equiv> [core, ''check'', ''--disable-color'', ''-c'', core_config_file P]"

fun proxy_ok :: "os \<Rightarrow> app_paths \<Rightarrow> core_manifest \<Rightarrow> call \<Rightarrow> hist \<Rightarrow> bool" where
  "proxy_ok S P M (CFork (Utility a)) h \<longleftrightarrow>
     core_ok S P M (CFork (Utility a)) h \<or>
     (\<exists>core. a = check_call P core \<and> hash_seen S P core (cm_binary_sha256 M) h)"
| "proxy_ok S P M (CFork (Core core config log)) h \<longleftrightarrow>
     core = corePath P M \<and> config = core_config_file P \<and> hash_seen S P core (cm_binary_sha256 M) h"
| "proxy_ok S P M (CKill p s) h \<longleftrightarrow> s = 0 \<or> p \<in> children h \<or> just_checked S p h"
| "proxy_ok S P M (CRename a b) h \<longleftrightarrow>
     core_ok S P M (CRename a b) h \<or> b = state_file P \<or> b = core_config_file P"
| "proxy_ok S P M (CWaitpid p nohang) h \<longleftrightarrow> nohang \<or> wait_due p h"
| "proxy_ok S P M (CPoll fds t) h \<longleftrightarrow> 0 \<le> t"
| "proxy_ok S P M (CFlock fd op) h \<longleftrightarrow> False"
| "proxy_ok S P M (CEnv e) h \<longleftrightarrow> \<not> thread_call (CEnv e)"
| "proxy_ok S P M _ h \<longleftrightarrow> True"

abbreviation proxy_guard :: "os \<Rightarrow> app_paths \<Rightarrow> core_manifest \<Rightarrow> event \<Rightarrow> hist \<Rightarrow> bool" where
  "proxy_guard S P M \<equiv> \<lambda>e g. proxy_ok S P M (fst e) g"

text \<open>Calls that start, signal and rename nothing, wait for nothing and leave locks alone.\<close>

fun plain_call :: "call \<Rightarrow> bool" where
  "plain_call (CFork c) = False"
| "plain_call (CKill p s) = (s = 0)"
| "plain_call (CRename a b) = False"
| "plain_call (CWaitpid p nohang) = nohang"
| "plain_call (CPoll fds t) = (0 \<le> t)"
| "plain_call (CFlock fd op) = False"
| "plain_call (CEnv e) = (\<not> thread_call (CEnv e))"
| "plain_call _ = True"

abbreviation plain :: "event \<Rightarrow> hist \<Rightarrow> bool" where
  "plain \<equiv> \<lambda>e g. plain_call (fst e)"

lemma plain_proxy: "plain_call c \<Longrightarrow> proxy_ok S P M c h"
  by (cases c rule: plain_call.cases) simp_all

lemma core_proxy: "core_ok S P M c h \<Longrightarrow> proxy_ok S P M c h"
proof -
  assume c: "core_ok S P M c h"
  show ?thesis
  proof (cases "plain_call c")
    case True
    then show ?thesis by (rule plain_proxy)
  next
    case False
    then show ?thesis using c
    proof (cases c rule: plain_call.cases)
      case (1 k)
      with c show ?thesis by (cases k) simp_all
    qed simp_all
  qed
qed

lemma gwp_prod: "gwp G h (f (fst x) (snd x)) R \<Longrightarrow> gwp G h (case x of (a, b) \<Rightarrow> f a b) R"
  by (simp add: case_prod_unfold)

lemma of_plain: "gwp plain h m R \<Longrightarrow> gwp (proxy_guard S P M) h m R"
  by (erule gwp_weaken) (rule plain_proxy)

lemma logging_plain: "log_call c \<Longrightarrow> plain_call c"
  by (cases c rule: log_call.cases) simp_all

lemma probe_plain: "probe_or_socket c \<Longrightarrow> plain_call c"
  by (cases c rule: plain_call.cases) simp_all

lemma directory_plain: "gwp plain h (ensureDirectory S p mode h) (\<lambda>_ _. True)"
  by (rule gwp_emits [OF ensureDirectory_emits]) (auto simp: directory_event_def split: call.splits)

lemma emitLog_plain: "quiet_logger L \<Longrightarrow> gwp plain h (emitLog L l m h) (\<lambda>_ _. True)"
  by (rule gwp_emits [OF emitLog_wp]) (auto intro: logging_plain)

lemma readTextFile_plain:
  "gwp plain h (readTextFile S p h) (\<lambda>_ h'. children h' = children h)"
  unfolding readTextFile_def by (intro gwp_intros) (simp_all add: child_defs)

lemma ensureTunDevice_plain: "gwp plain h (ensureTunDevice S P h) (\<lambda>_ _. True)"
  unfolding ensureTunDevice_def
  by (intro gwp_intros gwp_prod gwp_bind [OF readTextFile_plain] gwp_bind [OF directory_plain] TrueI) simp_all

lemma load_config_plain: "gwp plain h (load_config S P h) (\<lambda>_ _. True)"
  unfolding load_config_def by (intro gwp_intros gwp_bind [OF readTextFile_plain] TrueI)

lemma load_runtime_plain: "gwp plain h (load_runtime S P h) (\<lambda>_ _. True)"
  unfolding load_runtime_def by (intro gwp_intros gwp_bind [OF readTextFile_plain] TrueI)

lemma clear_runtime_plain: "gwp plain h (clear_runtime S P h) (\<lambda>_ _. True)"
  unfolding clear_runtime_def by (intro gwp_intros TrueI) simp_all

lemma collect_plain: "gwp plain h (collectBypassPolicy S a i h) (\<lambda>_ _. True)"
  unfolding collectBypassPolicy_def collectInterfaceAddresses_def
  by (intro gwp_intros gwp_bind [where m = "Option.bind _ _" and Q = "\<lambda>_ _. True"] TrueI) simp_all

lemma resolve_plain: "fresh_fds S \<Longrightarrow> gwp plain h (resolveAndProbeUpstream S u t h) (\<lambda>_ _. True)"
proof -
  assume "fresh_fds S"
  then have "wp (resolveAndProbeUpstream S u t h) (\<lambda>_. emits (\<lambda>e. probe_or_socket (fst e)) h)"
    by (rule wp_mono [OF resolveAndProbeUpstream_wp]) (auto simp: emits_def)
  then show ?thesis by (rule gwp_emits) (rule probe_plain)
qed

lemma check_plain: "check_event st e \<Longrightarrow> plain_call (fst e)"
  by (cases e) (auto simp: check_event_def split: call.splits)

lemma isManaged_plain: "gwp plain h (isManagedProcessRunning S st h)
    (\<lambda>r h'. ok r \<and> isManagedProcessRunning S st h = Some (r, h'))"
proof -
  have "wp (isManagedProcessRunning S st h) (\<lambda>_. emits (check_event st) h)"
    by (rule wp_mono [OF isManaged_emits]) simp
  then have "gwp plain h (isManagedProcessRunning S st h) (\<lambda>_ _. True)"
    by (rule gwp_emits) (rule check_plain)
  then show ?thesis using isManaged_emits [of S st h] unfolding gwp_def
    by (auto simp: wp_def split: option.splits)
qed

lemma tunExists_plain: "gwp plain h (tunExists S P h) (\<lambda>there h'. children h' = children h \<and>
    (\<exists>a. h' = (CIfIndex (c_str (tun_interface P)), a) # h \<and> (there \<longleftrightarrow> r_ret a \<noteq> 0)))"
  unfolding tunExists_def by (intro gwp_intros) (auto simp: child_defs)

lemma awaitTunRemoval_plain: "gwp plain h (awaitTunRemoval S P c h) (\<lambda>r h'. ok r \<longrightarrow>
    (\<exists>a g. h' = (CIfIndex (c_str (tun_interface P)), a) # g \<and> r_ret a = 0))"
proof -
  have loop: "gwp plain h (removal_loop S P n h) (\<lambda>_ _. True)" for n h
    by (induction n arbitrary: h) (auto intro!: gwp_intros gwp_bind [OF tunExists_plain])
  then show ?thesis unfolding awaitTunRemoval_def
    by (intro gwp_intros gwp_bind [OF loop] gwp_bind [OF tunExists_plain]) auto
qed

lemma processStartTicks_plain:
  "gwp plain h (processStartTicks S pid h) (\<lambda>_ h'. children h' = children h)"
  unfolding processStartTicks_def by (intro gwp_intros gwp_bind [OF readTextFile_plain]) simp_all


lemma emitLog_children:
  assumes "quiet_logger L"
  shows "gwp plain h (emitLog L l m h) (\<lambda>_ h'. children h' = children h)"
proof -
  have "wp (emitLog L l m h) (\<lambda>_ h'. children h' = children h)"
  proof (rule wp_mono [OF emitLog_wp [OF assms]])
    fix h' assume "emits logging h h'"
    then have "emits neutral h h'" by (rule emits_mono) (metis logging_neutral prod.collapse)
    then show "children h' = children h" by (simp add: neutral_keeps)
  qed
  from gwp_conj [OF emitLog_plain [OF assms] this] show ?thesis by (rule gwp_mono) simp
qed

lemma emit_if_children:
  "quiet_logger L \<Longrightarrow> gwp plain h (if b then emitLog L l m h else Some ((), h)) (\<lambda>_ h'. children h' = children h)"
  by (intro gwp_if gwp_ret emitLog_children) simp_all

definition tun_seen :: "app_paths \<Rightarrow> hist \<Rightarrow> bool" where
  "tun_seen P h \<longleftrightarrow> (\<exists>a g. h = (CIfIndex (c_str (tun_interface P)), a) # g \<and> r_ret a \<noteq> 0)"

lemma tun_loop_plain:
  assumes L: "quiet_logger L"
  shows "gwp plain h (tun_loop S P L pid started timeout reported h)
    (\<lambda>r h'. r = Inr Ready \<longrightarrow> tun_seen P h' \<and> children h' = children h)"
proof -
  let ?R = "\<lambda>h r h'. r = Inr Ready \<longrightarrow> tun_seen P h' \<and> children h' = children h"
  have "gwp plain h (Some res) (?R h)"
    if ret: "tun_loop S P L pid started timeout reported h = Some res" for res
  proof -
    have "P = P \<and> quiet_logger L \<longrightarrow> gwp plain h (Some res) (?R h)"
    proof (rule tun_loop.raw_induct [where P = "\<lambda>S P' L pid started timeout reported h res.
        P' = P \<and> quiet_logger L \<longrightarrow> gwp plain h (Some res) (?R h)", OF _ ret], intro impI, goal_cases)
      case (1 f S P' L pid started timeout reported h res)
      have rec: "gwp plain g (f S P L pid started timeout n g) (?R g)" for n g
        using 1(1,3) by (cases "f S P L pid started timeout n g") (auto simp: gwp_None)
      have "gwp plain h (do {
     (now, h) \<leftarrow> sys S CNow h;
     if \<not> r_ret now < started + int timeout * 1000000 then Some (success TimedOut, h)
     else do {
       (waited, h) \<leftarrow> sys S (CWaitpid pid True) h;
       if r_ret waited = pid then Some (success CoreExited, h)
       else if r_ret waited < 0 \<and> r_errno waited \<noteq> EINTR \<and> r_errno waited \<noteq> ECHILD then
         Some (failure StateError ''cannot inspect sing-box process'', h)
       else do {
         (there, h) \<leftarrow> tunExists S P h;
         if there then Some (success Ready, h)
         else do {
           (now, h) \<leftarrow> sys S CNow h;
           let elapsed = (r_ret now - started) div 1000000000;
           let report = (int (kTunReadyQuietPeriod div 1000) \<le> elapsed \<and> elapsed \<noteq> reported);
           (_, h) \<leftarrow> (if report then
               emitLog L Info (''Waiting for TUN interface ('' @ show_int elapsed @ ''/'' @
                 show_nat (timeout div 1000) @ ''s)'') h
             else Some ((), h));
           (_, h) \<leftarrow> sys S (CSleep kPollInterval) h;
           f S P L pid started timeout (if report then elapsed else reported) h
         }
       }
     }
   }) (?R h)"
        by (intro gwp_intros gwp_bind [OF tunExists_plain] gwp_bind [OF emit_if_children [OF conjunct2 [OF 1(3)]]] gwp_mono [OF rec])
          (auto simp: child_defs tun_seen_def)
      then show ?case unfolding 1(2) [symmetric] conjunct1 [OF 1(3)] .
    qed
    with L show ?thesis by simp
  qed
  then show ?thesis by (cases "tun_loop S P L pid started timeout reported h") (auto simp: gwp_None)
qed

lemma waitForTun_plain:
  assumes "quiet_logger L"
  shows "gwp plain h (waitForTun S P L pid timeout h)
    (\<lambda>r h'. r = Inr Ready \<longrightarrow> tun_seen P h' \<and> children h' = children h)"
  unfolding waitForTun_def by (intro gwp_intros gwp_mono [OF tun_loop_plain [OF assms]]) (auto simp: child_defs)

text \<open>Calls that moreover wait for no child.\<close>

fun still_call :: "call \<Rightarrow> bool" where
  "still_call (CWaitpid p b) = False"
| "still_call c = plain_call c"

abbreviation still :: "event \<Rightarrow> hist \<Rightarrow> bool" where
  "still \<equiv> \<lambda>e g. still_call (fst e)"

lemma still_plain: "still_call c \<Longrightarrow> plain_call c"
  by (cases c) simp_all

lemma still_children: "still_call (fst e) \<or> (\<exists>a b. fst e = CRename a b) \<Longrightarrow> children (e # h) = children h"
  by (cases e; cases "fst e") (auto simp: child_defs)

lemma write_loop_still: "gwp still h (write_loop S fd tmp d h) (\<lambda>_ _. True)"
proof -
  have "gwp still h (Some res) (\<lambda>_ _. True)" if ret: "write_loop S fd tmp d h = Some res" for res
  proof (rule write_loop.raw_induct [where P = "\<lambda>S fd tmp d h res. gwp still h (Some res) (\<lambda>_ _. True)", OF _ ret], goal_cases)
    case (1 f S fd tmp d h res)
    have rec: "gwp still g (f S fd tmp x g) (\<lambda>_ _. True)" for x g
      using 1(1) by (cases "f S fd tmp x g") (auto simp: gwp_None)
    show ?case unfolding 1(2) [symmetric] by (intro gwp_intros rec TrueI; simp)
  qed
  then show ?thesis by (cases "write_loop S fd tmp d h") (auto simp: gwp_None)
qed

lemma writeFileAtomic_guard:
  assumes "\<And>e g. still_call (fst e) \<Longrightarrow> G e g" and "\<And>a r g. G (CRename a p, r) g"
  shows "gwp G h (writeFileAtomic S p d mode h) (\<lambda>_ _. True)"
proof -
  have loop: "gwp G g (write_loop S fd tmp x g) (\<lambda>_ _. True)" for fd tmp x g
    by (rule gwp_weaken [OF write_loop_still]) (rule assms(1))
  have close: "gwp G g (sync_close S fd g) (\<lambda>_ _. True)" for fd g
    unfolding sync_close_def by (intro gwp_intros TrueI assms(1); simp)
  have dir: "gwp G g (sync_directory S x g) (\<lambda>_ _. True)" for x g
    unfolding sync_directory_def by (intro gwp_intros TrueI assms(1); simp)
  have pub: "gwp G g (publish S fd tmp p g) (\<lambda>_ _. True)" for fd tmp g
    unfolding publish_def
    by (intro gwp_bind [OF close] gwp_bind [OF dir] gwp_ret gwp_if gwp_pair
        gwp_call [where c = "CRename _ p"] gwp_call [where c = "CUnlink _"] TrueI assms; simp)
  have temp: "gwp G g (temporaryPath S p g) (\<lambda>_ _. True)" for g
    unfolding temporaryPath_def by (intro gwp_intros TrueI assms(1); simp)
  show ?thesis unfolding writeFileAtomic_def
    by (intro gwp_intros gwp_bind [OF temp] gwp_bind [OF loop] pub TrueI assms(1); simp)
qed

lemma directory_still: "gwp still h (ensureDirectory S p mode h) (\<lambda>_ _. True)"
  by (rule gwp_emits [OF ensureDirectory_emits]) (auto simp: directory_event_def split: call.splits)

lemma save_runtime_proxy: "gwp (proxy_guard S P M) h (save_runtime S P st h)
    (\<lambda>r h'. save_runtime S P st h = Some (r, h') \<and> children h' = children h)"
proof -
  let ?G = "\<lambda>e g. still_call (fst e) \<or> (\<exists>a. fst e = CRename a (state_file P))"
  have G: "gwp ?G h (save_runtime S P st h) (\<lambda>_ _. True)"
    unfolding save_runtime_def
    by (intro gwp_intros gwp_bind [OF gwp_weaken [OF directory_still]] writeFileAtomic_guard TrueI) auto
  have kids: "children h' = children h" if "guarded ?G h h'" for h'
    using that
  proof (induction rule: guarded.induct)
    case (guarded_Cons h' e)
    from still_children [of e h'] guarded_Cons show ?case by auto
  qed simp
  have "wp (save_runtime S P st h) (\<lambda>_ h'. children h' = children h)"
    by (rule wp_mono [OF G [unfolded gwp_def]]) (rule kids, erule conjunct1)
  then have keeps: "wp (save_runtime S P st h) (\<lambda>r h'. save_runtime S P st h = Some (r, h') \<and> children h' = children h)"
    by (auto simp: wp_def split: option.splits)
  have "gwp (proxy_guard S P M) h (save_runtime S P st h) (\<lambda>_ _. True)"
    using G
  proof (rule gwp_weaken)
    fix e :: event and g assume "still_call (fst e) \<or> (\<exists>a. fst e = CRename a (state_file P))"
    then show "proxy_ok S P M (fst e) g"
      by (elim disjE exE) (simp_all add: plain_proxy still_plain)
  qed
  from gwp_conj [OF this keeps] show ?thesis by (rule gwp_mono) (erule conjunct2)
qed

lemma just_checkedI: "isManagedProcessRunning S st g = Some (Inr True, h) \<Longrightarrow> just_checked S (rs_pid st) h"
  unfolding just_checked_def by (blast intro: emits_refl)

lemma just_checked_logs: "just_checked S p g \<Longrightarrow> emits logging g h \<Longrightarrow> just_checked S p h"
  unfolding just_checked_def using emits_trans [of logging] by blast

lemma emitLog_checked:
  assumes "quiet_logger L"
  shows "gwp (proxy_guard S P M) h (emitLog L l m h) (\<lambda>_ h'. emits logging h h')"
  using gwp_conj [OF of_plain [OF emitLog_plain [OF assms]] emitLog_wp [OF assms]]
  by (rule gwp_mono) simp

lemma stop_loop_proxy: "gwp (proxy_guard S P M) h (stop_loop S st n h) (\<lambda>_ _. True)"
  by (induction n arbitrary: h) (auto intro!: gwp_intros gwp_bind [OF of_plain [OF isManaged_plain]])

lemma terminateCore_proxy:
  assumes "quiet_logger L"
  shows "gwp (proxy_guard S P M) h (terminateCore S L st h) (\<lambda>_ _. True)"
  unfolding terminateCore_def force_stop_def
  by (intro gwp_intros gwp_bind [OF of_plain [OF isManaged_plain]] gwp_bind [OF stop_loop_proxy]
      gwp_bind [OF emitLog_checked [OF assms]] TrueI)
    (auto intro: just_checkedI just_checked_logs)

lemma await_handshake_proxy:
  assumes "child \<in> children h"
  shows "gwp (proxy_guard S P M) h (await_handshake S child fd h) (\<lambda>r h'. \<forall>pid. r = Inr pid \<longrightarrow> pid = child \<and> pid \<in> children h')"
  unfolding await_handshake_def
  by (intro gwp_intros) (use assms in \<open>auto simp: child_defs\<close>)

lemma children_close: "children ((CClose fd, a) # h) = children h"
  by (simp add: child_defs)

lemma spawnCore_proxy:
  assumes "fresh_children S" and "hash_seen S P (corePath P M) (cm_binary_sha256 M) h"
  shows "gwp (proxy_guard S P M) h (spawnCore S (corePath P M) (core_config_file P) log h)
    (\<lambda>r h'. \<forall>pid. r = Inr pid \<longrightarrow> pid \<in> children h')"
  unfolding spawnCore_def
  by (intro gwp_intros gwp_mono [OF await_handshake_proxy])
    (simp_all add: children_close fork_answered [OF assms(1)] hash_seen_mono [OF assms(2)] del: children.simps)


lemma reap_proxy:
  assumes "wait_due pid h"
  shows "gwp (proxy_guard S' P M) h (reap S pid h) (\<lambda>_ _. True)"
proof -
  have "wait_due pid h \<longrightarrow> gwp (proxy_guard S' P M) h (Some res) (\<lambda>_ _. True)"
    if ret: "reap S pid h = Some res" for res
  proof (rule reap.raw_induct [where P = "\<lambda>S pid h res. wait_due pid h \<longrightarrow>
        gwp (proxy_guard S' P M) h (Some res) (\<lambda>_ _. True)", OF _ ret], intro impI, goal_cases)
    case (1 f S pid h res)
    have rec: "gwp (proxy_guard S' P M) g (f S pid g) (\<lambda>_ _. True)" if "wait_due pid g" for g
      using 1(1) that by (cases "f S pid g") (auto simp: gwp_None)
    show ?case unfolding 1(2) [symmetric] by (intro gwp_intros rec TrueI; use 1(3) in simp)
  qed
  with assms show ?thesis by (cases "reap S pid h") (auto simp: gwp_None)
qed

text \<open>
  A start that succeeded: the core runs as a child that was not waited for when its interface was
  seen, and the state that names it is the last thing written.
\<close>

definition newly_started :: "os \<Rightarrow> app_paths \<Rightarrow> proxy_status \<Rightarrow> hist \<Rightarrow> bool" where
  "newly_started S P status h \<longleftrightarrow>
     (\<exists>state g. status = statusFromState state \<and> rs_phase state = ''running'' \<and>
        rs_pid state \<in> children g \<and> tun_seen P g \<and> save_runtime S P state g = Some (Inr (), h))"

lemma startedI:
  "save_runtime S P (st\<lparr>rs_phase := ''running''\<rparr>) g = Some (Inr u, h) \<Longrightarrow>
     rs_pid st \<in> children g \<Longrightarrow> tun_seen P g \<Longrightarrow>
     newly_started S P (statusFromState (st\<lparr>rs_phase := ''running''\<rparr>)) h"
  unfolding newly_started_def by (rule exI [of _ "st\<lparr>rs_phase := ''running''\<rparr>"]) auto

definition attempt_sound :: "os \<Rightarrow> app_paths \<Rightarrow> attempt \<Rightarrow> hist \<Rightarrow> bool" where
  "attempt_sound S P a h \<longleftrightarrow>
     (case a of Finished (Inr status) \<Rightarrow> newly_started S P status h | _ \<Rightarrow> True)"

lemma attempt_sound_simps [simp]:
  "attempt_sound S P (Finished (Inl e)) h" "attempt_sound S P (Failed e b) h"
  "attempt_sound S P (Finished (Inr status)) h \<longleftrightarrow> newly_started S P status h"
  by (simp_all add: attempt_sound_def)

lemma supervise_proxy:
  assumes L: "quiet_logger L" and child: "rs_pid st \<in> children h"
  shows "gwp (proxy_guard S P M) h (supervise S P L st h) (attempt_sound S P)"
proof -
  have stop_if: "gwp (proxy_guard S P M) g (if b then terminateCore S L st g else Some (success (), g)) (\<lambda>_ _. True)" for b g
    by (intro gwp_if gwp_ret terminateCore_proxy [OF L] TrueI)
  show ?thesis
    unfolding supervise_def
    by (intro gwp_intros gwp_bind [OF of_plain [OF waitForTun_plain [OF L]]] gwp_bind [OF terminateCore_proxy [OF L]]
        gwp_bind [OF of_plain [OF clear_runtime_plain]] gwp_bind [OF of_plain [OF awaitTunRemoval_plain]]
        gwp_bind [OF save_runtime_proxy] gwp_bind [OF stop_if]; (simp; fail)?)
      (use child in \<open>auto intro: startedI\<close>)
qed


lemma record_core_proxy:
  assumes L: "quiet_logger L" and child: "pid \<in> children h"
  shows "gwp (proxy_guard S P M) h (record_core S P L inputs b pid h) (attempt_sound S P)"
  unfolding record_core_def
  by (intro gwp_intros gwp_bind [OF of_plain [OF processStartTicks_plain]] gwp_bind [OF reap_proxy]
        gwp_bind [OF save_runtime_proxy] gwp_bind [OF terminateCore_proxy [OF L]]
        gwp_bind [OF of_plain [OF awaitTunRemoval_plain]] supervise_proxy [OF L])
      (use child in \<open>auto simp: state_for_def\<close>)


lemma write_checked_config_proxy:
  assumes "fresh_kernel S" and "ci_executable (in_core inputs) = corePath P M"
    and "hash_seen S P (corePath P M) (cm_binary_sha256 M) h"
  shows "gwp (proxy_guard S P M) h (write_checked_config S P inputs b h) (\<lambda>_ _. True)"
proof -
  have wr: "gwp (proxy_guard S P M) g (writeFileAtomic S (core_config_file P) d m g) (\<lambda>_ _. True)" for g d m
    by (rule writeFileAtomic_guard) (simp_all add: plain_proxy still_plain)
  have check: "gwp (proxy_guard S P M) g (runCapture S (check_arguments P inputs) t None g) (\<lambda>_ _. True)"
    if "extends h g" for g t
  proof (rule runCapture_guard [OF assms(1) no_callback])
    fix e :: event and k assume "fst e = CFork (Utility (check_arguments P inputs))" "extends g k"
    with that hash_seen_mono [OF assms(3)] show "proxy_ok S P M (fst e) k"
      by (auto simp: check_arguments_def assms(2) dest: extends_trans)
  next
    fix e :: event and k assume "parent_call (fst e) \<or> fst e = CPipe"
    then show "proxy_ok S P M (fst e) k" by (elim disjE) (simp_all add: core_proxy parent_core_ok)
  qed simp_all
  show ?thesis unfolding write_checked_config_def
    by (intro gwp_intros gwp_bind [OF wr] gwp_bind [OF check] TrueI)
qed

lemma start_attempt_proxy:
  assumes k: "fresh_kernel S" and L: "quiet_logger L" and c: "ci_executable (in_core inputs) = corePath P M"
    and seen: "hash_seen S P (corePath P M) (cm_binary_sha256 M) h"
  shows "gwp (proxy_guard S P M) h (start_attempt S P L inputs b last_error rf h) (attempt_sound S P)"
proof -
  have ch: "fresh_children S" using k by (simp add: fresh_kernel_def)
  have log: "gwp (proxy_guard S P M) g (if x then emitLog L l m g else Some ((), g)) (\<lambda>_ _. True)" for x l m g
    by (rule gwp_True) (rule of_plain [OF emit_if_children [OF L]])
  show ?thesis
    unfolding start_attempt_def c
    by (intro gwp_intros gwp_bind [OF of_plain [OF tunExists_plain]] gwp_bind [OF log]
        gwp_bind [OF write_checked_config_proxy [OF k c]] gwp_bind [OF spawnCore_proxy [OF ch]]
        record_core_proxy [OF L])
      (auto intro: hash_seen_mono [OF hash_seen_mono [OF hash_seen_mono [OF seen]]]
        hash_seen_mono [OF hash_seen_mono [OF seen]])
qed

lemma start_attempts_proxy:
  assumes k: "fresh_kernel S" and L: "quiet_logger L" and c: "ci_executable (in_core inputs) = corePath P M"
    and seen: "hash_seen S P (corePath P M) (cm_binary_sha256 M) h"
  shows "gwp (proxy_guard S P M) h (start_attempts S P L inputs bs last_error rf h)
    (\<lambda>r h'. \<forall>status. r = Inr status \<longrightarrow> newly_started S P status h')"
  using seen
proof (induction bs arbitrary: last_error rf h)
  case Nil
  then show ?case by (simp add: gwp_ret)
next
  case (Cons b bs)
  show ?case unfolding start_attempts.simps
  proof (rule gwp_bind [OF start_attempt_proxy [OF k L c Cons.prems]])
    fix a h' assume a: "attempt_sound S P a h'" and "extends h h'"
    then have "hash_seen S P (corePath P M) (cm_binary_sha256 M) h'" using hash_seen_mono [OF Cons.prems] by blast
    then show "gwp (proxy_guard S P M) h' (case (a, h') of (outcome, h) \<Rightarrow>
        case outcome of Finished r \<Rightarrow> Some (r, h)
        | Failed e routing \<Rightarrow> start_attempts S P L inputs bs e routing h)
        (\<lambda>r h'. \<forall>status. r = Inr status \<longrightarrow> newly_started S P status h')"
      using a Cons.IH by (cases a) (auto intro!: gwp_ret simp: attempt_sound_def)
  qed
qed

lemma gather_inputs_proxy:
  assumes k: "fresh_kernel S" and L: "quiet_logger L"
  shows "gwp (proxy_guard S P M) h (gather_inputs S P M L h)
    (\<lambda>r h'. \<forall>inputs. r = Inr inputs \<longrightarrow> ci_executable (in_core inputs) = corePath P M \<and>
       hash_seen S P (corePath P M) (cm_binary_sha256 M) h')"
proof -
  have f: "fresh_fds S" using k by (simp add: fresh_kernel_def)
  show ?thesis
    unfolding gather_inputs_def
    by (intro gwp_intros gwp_bind [OF of_plain [OF ensureTunDevice_plain]] gwp_bind [OF of_plain [OF load_config_plain]]
        gwp_bind [OF of_plain [OF resolve_plain [OF f]]] gwp_bind [OF of_plain [OF collect_plain]]
        gwp_bind [OF gwp_weaken [OF ensureCore_core [OF k L] core_proxy]]
        gwp_bind [OF of_plain [OF directory_plain]])
      (auto simp: core_verified_def intro: hash_seen_mono)
qed


lemma clean_previous_proxy:
  assumes L: "quiet_logger L"
  shows "gwp (proxy_guard S P M) h (clean_previous S P L h)
    (\<lambda>r h'. \<forall>status. r = Inr (Some status) \<longrightarrow>
       (\<exists>state g. load_runtime S P h = Some (Inr state, g) \<and> isManagedProcessRunning S state g = Some (Inr True, h') \<and>
          rs_phase state = ''running'' \<and> status = statusFromState state))"
proof -
  have load: "gwp (proxy_guard S P M) h (load_runtime S P h) (\<lambda>r h'. load_runtime S P h = Some (r, h'))"
    using of_plain [OF load_runtime_plain, of S P M h S P] unfolding gwp_def by (auto simp: wp_def split: option.splits)
  have previous: "gwp (proxy_guard S P M) g (case existing of
        Inl _ \<Rightarrow> Some (success (None, False), g)
      | Inr state \<Rightarrow> do {
          (running, h) \<leftarrow> isManagedProcessRunning S state g;
          if running = Inr True \<and> rs_phase state = ''running'' then
            Some (success (Some (statusFromState state), False), h)
          else if running = Inr True then do {
            (_, h) \<leftarrow> emitLog L Warning ''cleaning up incomplete previous start'' h;
            (stopped, h) \<leftarrow> terminateCore S L state h;
            case stopped of Inl e \<Rightarrow> Some (Inl e, h) | Inr _ \<Rightarrow> Some (success (None, True), h)
          }
          else Some (success (None, False), h)
        })
     (\<lambda>r h'. \<forall>status t. r = Inr (Some status, t) \<longrightarrow>
       (\<exists>state. existing = Inr state \<and> isManagedProcessRunning S state g = Some (Inr True, h') \<and>
          rs_phase state = ''running'' \<and> status = statusFromState state))" for existing g
    by (intro gwp_intros gwp_bind [OF of_plain [OF isManaged_plain]] gwp_bind [OF emitLog_checked [OF L]]
        gwp_bind [OF terminateCore_proxy [OF L]]) auto
  show ?thesis
    unfolding clean_previous_def
    by (intro gwp_intros gwp_prod gwp_bind [OF load] gwp_bind [OF previous] gwp_bind [OF of_plain [OF clear_runtime_plain]]
        gwp_bind [OF of_plain [OF awaitTunRemoval_plain]]) auto
qed

text \<open>A start that found the proxy running, as the identity check says at its end.\<close>

definition already_running :: "os \<Rightarrow> proxy_status \<Rightarrow> hist \<Rightarrow> bool" where
  "already_running S status h \<longleftrightarrow>
     (\<exists>state g. isManagedProcessRunning S state g = Some (Inr True, h) \<and>
        rs_phase state = ''running'' \<and> status = statusFromState state)"

lemma start_proxy_proxy:
  assumes k: "fresh_kernel S" and L: "quiet_logger L"
  shows "gwp (proxy_guard S P M) h (start_proxy S P M L h)
    (\<lambda>r h'. \<forall>status. r = Inr status \<longrightarrow> already_running S status h' \<or> newly_started S P status h')"
  unfolding start_proxy_def
proof (rule gwp_bind [OF clean_previous_proxy [OF L]], goal_cases)
  case (1 r h')
  show ?case
  proof (cases r)
    case (Inl e)
    then show ?thesis by (simp add: gwp_ret)
  next
    case (Inr previous)
    show ?thesis
    proof (cases previous)
      case (Some status)
      with 1 Inr show ?thesis by (auto simp: already_running_def intro!: gwp_ret)
    next
      case None
      have "gwp (proxy_guard S P M) h' (do {
         (gathered, h) \<leftarrow> gather_inputs S P M L h';
         case gathered of Inl e \<Rightarrow> Some (Inl e, h)
         | Inr inputs \<Rightarrow> start_attempts S P L inputs [True, False]
             (makeError CoreStartFailure ''sing-box failed to establish TUN'') False h
        }) (\<lambda>r h'. \<forall>status. r = Inr status \<longrightarrow> already_running S status h' \<or> newly_started S P status h')"
        by (intro gwp_intros gwp_bind [OF gather_inputs_proxy [OF k L]] gwp_mono [OF start_attempts_proxy [OF k L]]) auto
      with Inr None show ?thesis by simp
    qed
  qed
qed

lemma end_recorded_proxy:
  assumes L: "quiet_logger L"
  shows "gwp (proxy_guard S P M) h (end_recorded S P L b state h) (\<lambda>_ _. True)"
  unfolding end_recorded_def
  by (intro gwp_intros gwp_bind [OF terminateCore_proxy [OF L]] gwp_bind [OF emitLog_checked [OF L]]
        gwp_True [OF of_plain [OF awaitTunRemoval_plain]] TrueI)

lemma forget_state_plain: "gwp plain h (forget_state S P h) (\<lambda>_ _. True)"
  unfolding forget_state_def by (intro gwp_intros gwp_bind [OF clear_runtime_plain] TrueI) simp

lemma stop_proxy_proxy:
  assumes L: "quiet_logger L"
  shows "gwp (proxy_guard S P M) h (stop_proxy S P L h) (\<lambda>_ _. True)"
  unfolding stop_proxy_def
  by (intro gwp_intros gwp_bind [OF of_plain [OF load_runtime_plain]] gwp_bind [OF of_plain [OF isManaged_plain]]
        gwp_bind [OF end_recorded_proxy [OF L]] of_plain [OF forget_state_plain] of_plain [OF clear_runtime_plain] TrueI)

lemma status_plain: "gwp plain h (proxy_status_of S P M h) (\<lambda>_ _. True)"
  unfolding proxy_status_of_def
  by (intro gwp_intros gwp_bind [OF load_config_plain] gwp_bind [OF load_runtime_plain] gwp_bind [OF isManaged_plain] TrueI)
    simp_all

section \<open>Everything ends\<close>

lemma clock_reads_extend: "extends h g \<Longrightarrow> clock_reads h \<le> clock_reads g"
proof -
  assume "extends h g"
  then obtain es where "g = es @ h" by (auto simp: extends_def)
  moreover have "clock_reads h \<le> clock_reads (es @ h)" by (induction es) auto
  ultimately show ?thesis by simp
qed

lemma returns_call: "(\<And>a. answered S h c a \<Longrightarrow> returns (f (a, (c, a) # h))) \<Longrightarrow> returns (Option.bind (sys S c h) f)"
  by (simp add: returns_bind wp_call)

lemma returns_if: "(b \<Longrightarrow> returns m) \<Longrightarrow> (\<not> b \<Longrightarrow> returns n) \<Longrightarrow> returns (if b then m else n)"
  by simp

lemma returns_pair: "returns (f a b) \<Longrightarrow> returns (case (a, b) of (x, y) \<Rightarrow> f x y)"
  by simp

lemma tunExists_returns: "returns (tunExists S P h)"
  by (simp add: tunExists_def returns_bind wp_sys)

lemma awaitTunRemoval_returns: "returns (awaitTunRemoval S P c h)"
proof -
  have "returns (removal_loop S P n h)" for n h
    by (induction n arbitrary: h) (auto simp: returns_bind tunExists_returns intro!: wpI)
  then show ?thesis by (auto simp: awaitTunRemoval_def returns_bind tunExists_returns intro!: wpI)
qed

lemma tun_loop_returns:
  assumes T: "ticking S" and L: "quiet_logger L"
  shows "returns (tun_loop S P L pid started timeout reported h)"
proof (induction "nat (started + int timeout * 1000000 - int (clock_reads h))" arbitrary: reported h rule: less_induct)
  case less
  let ?a = "answer S h CNow"
  show ?case
  proof (cases "r_ret ?a < started + int timeout * 1000000")
    case False
    then show ?thesis by (subst tun_loop.simps) (simp add: returns_bind wp_sys)
  next
    case True
    have "int (clock_reads h) \<le> r_ret ?a" using T by (simp add: ticking_def)
    with True have early: "int (clock_reads h) < started + int timeout * 1000000" by simp
    have step: "returns (tun_loop S P L pid started timeout n g)" if "extends ((CNow, ?a) # h) g" for n g
      using early clock_reads_extend [OF that] by (intro less) simp
    have log: "wp (if b then emitLog L l m g else Some ((), g)) (\<lambda>_ g'. extends g g')"
      "returns (if b then emitLog L l m g else Some ((), g))" for b l m g
      by (auto simp: wp_Some emitLog_returns [OF L] intro!: wp_mono [OF emitLog_wp [OF L]] emits_extend)
    have rest: "returns (Option.bind (if b then emitLog L l m g else Some ((), g))
        (\<lambda>(_, h). Option.bind (sys S (CSleep kPollInterval) h)
          (\<lambda>(_, h). tun_loop S P L pid started timeout n h)))" if "extends ((CNow, ?a) # h) g" for b l m n g
    proof -
      have "returns (tun_loop S P L pid started timeout n ((CSleep kPollInterval, x) # g'))" if "extends g g'" for x g'
        using that \<open>extends ((CNow, ?a) # h) g\<close> by (intro step) (auto intro: extends_trans)
      then show ?thesis unfolding returns_bind prod.case
        by (intro conjI log(2) wp_mono [OF log(1)]) (simp_all add: wp_sys)
    qed
    have tun: "returns (Option.bind (tunExists S P g) f)"
      if "\<And>a. returns (f (r_ret a \<noteq> 0, (CIfIndex (c_str (tun_interface P)), a) # g))" for f and g
      using that by (simp add: tunExists_def returns_bind wp_sys)
    have grown: "extends ((CNow, ?a) # h) ((CNow, c) # (CIfIndex i, b) # (CWaitpid p w, d) # (CNow, a) # h)"
      if "answered S h CNow a" for a b c d i p w
      using that by (simp add: answered_def)
    show ?thesis
      unfolding tun_loop.simps [of S P L pid started timeout reported h]
      by (intro returns_call returns_pair returns_if returns_Some tun; simp only: Let_def prod.case)
        (intro returns_call returns_pair returns_if returns_Some rest grown; assumption)
  qed
qed

lemma waitForTun_returns: "ticking S \<Longrightarrow> quiet_logger L \<Longrightarrow> returns (waitForTun S P L pid timeout h)"
  by (auto simp: waitForTun_def returns_bind wp_sys intro!: tun_loop_returns)

lemma stop_loop_returns: "returns (stop_loop S st n h)"
  by (induction n arbitrary: h) (auto simp: returns_bind wp_sys isManaged_returns intro!: wpI split: sum.splits)

lemma terminateCore_returns: "quiet_logger L \<Longrightarrow> returns (terminateCore S L st h)"
  unfolding terminateCore_def force_stop_def
  by (auto simp: returns_bind wp_sys isManaged_returns stop_loop_returns emitLog_returns
      intro!: wpI split: sum.splits option.splits)

lemma reap_returns:
  assumes "signals_bounded S B"
  shows "returns (reap S pid h)"
proof (induction "B - interrupts h" arbitrary: h rule: less_induct)
  case less
  let ?a = "answer S h (CWaitpid pid False)"
  have "returns (reap S pid ((CWaitpid pid False, ?a) # h))" if "r_ret ?a < 0" "r_errno ?a = EINTR"
  proof (rule less)
    have "interrupts h < B" using assms that unfolding signals_bounded_def by (meson not_le_imp_less)
    with that show "B - interrupts ((CWaitpid pid False, ?a) # h) < B - interrupts h" by simp
  qed
  then show ?case by (subst reap.simps) (simp add: returns_bind wp_sys)
qed

lemma spawnCore_returns: "returns (spawnCore S e c l h)"
  unfolding spawnCore_def await_handshake_def Let_def by (auto simp: returns_bind intro!: wpI)

lemma load_config_returns: "returns (load_config S P h)"
  by (auto simp: load_config_def returns_bind readTextFile_returns intro!: wpI split: sum.splits)

lemma supervise_returns:
  assumes "ticking S" "quiet_logger L" "signals_bounded S B"
  shows "returns (supervise S P L st h)"
  unfolding supervise_def Let_def
  by (auto simp: returns_bind waitForTun_returns [OF assms(1,2)] terminateCore_returns [OF assms(2)]
      clear_runtime_returns awaitTunRemoval_returns save_runtime_returns [OF assms(3)]
      intro!: wpI split: sum.splits)

lemma record_core_returns:
  assumes "ticking S" "quiet_logger L" "signals_bounded S B"
  shows "returns (record_core S P L inputs b pid h)"
  unfolding record_core_def Let_def
  by (auto simp: returns_bind processStartTicks_returns reap_returns [OF assms(3)] terminateCore_returns [OF assms(2)]
      awaitTunRemoval_returns save_runtime_returns [OF assms(3)] supervise_returns [OF assms]
      intro!: wpI split: sum.splits)

lemma start_attempts_returns:
  assumes "ticking S" "output_bounded S N" "quiet_logger L" "signals_bounded S B"
  shows "returns (start_attempts S P L inputs bs e rf h)"
proof (induction bs arbitrary: e rf h)
  case (Cons b bs)
  have "returns (write_checked_config S P inputs b h)" for h
    unfolding write_checked_config_def
    by (auto simp: returns_bind writeFileAtomic_returns [OF assms(4)] runCapture_returns [OF assms(1,2)]
        intro!: wpI split: sum.splits)
  then have "returns (start_attempt S P L inputs b e rf h)" for e rf h
    unfolding start_attempt_def
    by (auto simp: returns_bind tunExists_returns emitLog_returns [OF assms(3)] spawnCore_returns
        record_core_returns [OF assms(1,3,4)] intro!: wpI split: sum.splits)
  with Cons show ?case by (auto simp: returns_bind intro!: wpI split: attempt.splits)
qed simp

lemma gather_inputs_returns:
  assumes "ticking S" "output_bounded S N" "quiet_logger L" "signals_bounded S B"
  shows "returns (gather_inputs S P M L h)"
  unfolding gather_inputs_def ensureTunDevice_def collectBypassPolicy_def collectInterfaceAddresses_def
  by (auto simp: returns_bind readTextFile_returns ensureDirectory_returns load_config_returns
      resolveAndProbeUpstream_returns [OF assms(4)] ensureCore_returns [OF assms(1-3)]
      intro!: wpI split: sum.splits option.splits)

lemma clean_previous_returns: "quiet_logger L \<Longrightarrow> returns (clean_previous S P L h)"
  unfolding clean_previous_def
  by (auto simp: returns_bind load_runtime_returns isManaged_returns emitLog_returns terminateCore_returns
      clear_runtime_returns awaitTunRemoval_returns intro!: wpI split: sum.splits option.splits)

lemma start_proxy_returns:
  assumes "ticking S" "output_bounded S N" "quiet_logger L" "signals_bounded S B"
  shows "returns (start_proxy S P M L h)"
  unfolding start_proxy_def
  by (auto simp: returns_bind clean_previous_returns [OF assms(3)] gather_inputs_returns [OF assms]
      start_attempts_returns [OF assms] simp del: start_attempts.simps intro!: wpI split: sum.splits option.splits)

lemma stop_proxy_returns: "quiet_logger L \<Longrightarrow> returns (stop_proxy S P L h)"
  unfolding stop_proxy_def end_recorded_def forget_state_def
  by (auto simp: returns_bind load_runtime_returns isManaged_returns emitLog_returns terminateCore_returns
      clear_runtime_returns awaitTunRemoval_returns intro!: wpI split: sum.splits)

lemma status_returns: "returns (proxy_status_of S P M h)"
  unfolding proxy_status_of_def
  by (auto simp: returns_bind load_config_returns load_runtime_returns isManaged_returns Let_def
      intro!: wpI split: sum.splits)

section \<open>How long a stop waits\<close>

fun slept :: "hist \<Rightarrow> nat" where
  "slept [] = 0"
| "slept (e # h) = (case fst e of CSleep n \<Rightarrow> n | _ \<Rightarrow> 0) + slept h"

fun awake_call :: "call \<Rightarrow> bool" where
  "awake_call (CSleep n) = False"
| "awake_call _ = True"

abbreviation awake :: "event \<Rightarrow> hist \<Rightarrow> bool" where
  "awake \<equiv> \<lambda>e g. awake_call (fst e)"

lemma slept_awake: "awake_call c \<Longrightarrow> slept ((c, a) # h) = slept h"
  by (cases c) simp_all

lemma awake_slept: "gwp awake h m R \<Longrightarrow> wp m (\<lambda>r h'. slept h' = slept h \<and> R r h')"
proof -
  assume m: "gwp awake h m R"
  have same: "slept h' = slept h" if "guarded awake h h'" for h'
    using that
  proof (induction rule: guarded.induct)
    case (guarded_Cons h' e)
    then show ?case by (cases e) (simp add: slept_awake del: slept.simps)
  qed simp
  show ?thesis by (rule wp_mono [OF m [unfolded gwp_def]]) (use same in blast)
qed

lemma logging_awake: "log_call c \<Longrightarrow> awake_call c"
  by (cases c rule: log_call.cases) simp_all

lemma isManaged_awake: "wp (isManagedProcessRunning S st h) (\<lambda>r h'. slept h' = slept h \<and> ok r \<and>
    isManagedProcessRunning S st h = Some (r, h'))"
proof (rule awake_slept, rule gwp_mono)
  have "wp (isManagedProcessRunning S st h) (\<lambda>_ h'. emits (check_event st) h h')"
    by (rule wp_mono [OF isManaged_emits]) simp
  then have "gwp awake h (isManagedProcessRunning S st h) (\<lambda>_ _. True)"
    by (rule gwp_emits) (auto simp: check_event_def)
  then show "gwp awake h (isManagedProcessRunning S st h)
      (\<lambda>r h'. ok r \<and> isManagedProcessRunning S st h = Some (r, h'))"
    using isManaged_emits [of S st h] unfolding gwp_def by (auto simp: wp_def split: option.splits)
qed

lemma emitLog_awake: "quiet_logger L \<Longrightarrow> wp (emitLog L l m h) (\<lambda>_ h'. slept h' = slept h)"
  by (rule wp_mono [OF awake_slept [OF gwp_emits [OF emitLog_wp]]]) (auto intro: logging_awake)

text \<open>
  The core is gone: there was none to stop, the identity check just said so, or this process just
  waited for it.
\<close>

definition core_gone :: "os \<Rightarrow> runtime_state \<Rightarrow> hist \<Rightarrow> bool" where
  "core_gone S st h \<longleftrightarrow> rs_pid st \<le> 0 \<or> (\<exists>g. isManagedProcessRunning S st g = Some (Inr False, h)) \<or>
     (\<exists>a g. h = (CWaitpid (rs_pid st) True, a) # g \<and> r_ret a = rs_pid st)"

lemma core_goneI [intro]:
  "rs_pid st \<le> 0 \<Longrightarrow> core_gone S st h"
  "isManagedProcessRunning S st g = Some (Inr False, h) \<Longrightarrow> core_gone S st h"
  "r_ret a = rs_pid st \<Longrightarrow> core_gone S st ((CWaitpid (rs_pid st) True, a) # g)"
  unfolding core_gone_def by blast+

definition ended_well :: "os \<Rightarrow> runtime_state \<Rightarrow> nat \<Rightarrow> hist \<Rightarrow> unit result \<Rightarrow> hist \<Rightarrow> bool" where
  "ended_well S st n h r h' \<longleftrightarrow> slept h' \<le> slept h + n \<and> (case r of Inl e \<Rightarrow> True | Inr _ \<Rightarrow> core_gone S st h')"

lemma stop_loop_ends:
  "wp (stop_loop S st n h) (\<lambda>r h'. slept h' \<le> slept h + kPollInterval * n \<and>
     (\<forall>v. r = Some (Inr v) \<longrightarrow> core_gone S st h'))"
proof (induction n arbitrary: h)
  case 0
  then show ?case by (simp add: wp_Some)
next
  case (Suc n)
  have rest: "wp (stop_loop S st n ((CSleep kPollInterval, a) # g)) (\<lambda>r h'.
      slept h' \<le> slept h + (kPollInterval + kPollInterval * n) \<and> (r = Some (Inr ()) \<longrightarrow> core_gone S st h'))"
    if "slept g = slept h" for a g
    by (rule wp_mono [OF Suc]) (use that in auto)
  show ?case
    by (auto simp: wp_bind wp_sys wp_Some split: sum.splits intro!: wp_mono [OF isManaged_awake] rest)
qed

lemma terminateCore_ends:
  assumes L: "quiet_logger L"
  shows "wp (terminateCore S L st h) (ended_well S st 7000 h)"
proof -
  have log: "wp (emitLog L l m g) (\<lambda>_. Q)" if "\<And>g'. slept g' = slept g \<Longrightarrow> Q g'" for l m g Q
    by (rule wp_mono [OF emitLog_awake [OF L]]) (rule that)
  show ?thesis
    unfolding terminateCore_def force_stop_def
    by (auto simp: wp_bind wp_sys wp_Some ended_well_def pollIterations_def constant_defs split: sum.splits option.splits
        intro!: wp_mono [OF isManaged_awake] wp_mono [OF stop_loop_ends] log)
qed


definition tun_gone :: "app_paths \<Rightarrow> hist \<Rightarrow> bool" where
  "tun_gone P h \<longleftrightarrow> (\<exists>a g. h = (CIfIndex (c_str (tun_interface P)), a) # g \<and> r_ret a = 0)"

lemma awaitTunRemoval_ends:
  "wp (awaitTunRemoval S P c h) (\<lambda>r h'. slept h' \<le> slept h + 3000 \<and> (r = Inr () \<longrightarrow> tun_gone P h'))"
proof -
  have loop: "wp (removal_loop S P n h) (\<lambda>_ h'. slept h' \<le> slept h + kPollInterval * n)" for n h
  proof (induction n arbitrary: h)
    case (Suc n)
    have "wp (removal_loop S P n ((CSleep kPollInterval, a) # g)) (\<lambda>_ h'. slept h' \<le> slept h + (kPollInterval + kPollInterval * n))"
      if "slept g = slept h" for a g
      by (rule wp_mono [OF Suc]) (use that in simp)
    then show ?case by (simp add: tunExists_def wp_bind wp_sys wp_Some)
  qed (simp add: wp_Some)
  show ?thesis
    by (auto simp: awaitTunRemoval_def tunExists_def tun_gone_def wp_bind wp_sys wp_Some pollIterations_def constant_defs
        intro!: wp_mono [OF loop])
qed

lemma load_runtime_awake: "wp (load_runtime S P h) (\<lambda>r h'. slept h' = slept h \<and> load_runtime S P h = Some (r, h'))"
proof (rule awake_slept, rule gwp_mono)
  have "gwp awake h (load_runtime S P h) (\<lambda>_ _. True)"
    unfolding load_runtime_def readTextFile_def by (intro gwp_intros gwp_prod gwp_bind [where Q = "\<lambda>_ _. True"] TrueI) simp_all
  then show "gwp awake h (load_runtime S P h) (\<lambda>r h'. load_runtime S P h = Some (r, h'))"
    unfolding gwp_def by (auto simp: wp_def split: option.splits)
qed

lemma clear_runtime_awake: "wp (clear_runtime S P h) (\<lambda>_ h'. slept h' = slept h)"
  unfolding clear_runtime_def by (simp add: wp_simps Let_def)

lemma run_extends: "gwp G h m R \<Longrightarrow> wp m (\<lambda>r h'. extends h h')"
  unfolding gwp_def by (erule wp_mono) (auto dest: guarded_extend)


lemma isManaged_look: "wp (isManagedProcessRunning S st h) (\<lambda>r h'. slept h' = slept h \<and> extends h h' \<and> ok r \<and>
    isManagedProcessRunning S st h = Some (r, h'))"
  using wp_conj [OF isManaged_awake run_extends [OF isManaged_plain]] by (rule wp_mono) simp

lemma terminateCore_look:
  "quiet_logger L \<Longrightarrow> wp (terminateCore S L st h) (\<lambda>r h'. extends h h' \<and> ended_well S st 7000 h r h')"
  by (rule wp_conj [OF run_extends [OF terminateCore_proxy] terminateCore_ends])

lemma awaitTunRemoval_look: "wp (awaitTunRemoval S P c h) (\<lambda>r h'. extends h h' \<and> slept h' \<le> slept h + 3000 \<and>
    (r = Inr () \<longrightarrow> tun_gone P h'))"
  by (rule wp_conj [OF run_extends [OF awaitTunRemoval_plain] awaitTunRemoval_ends])

lemma emitLog_look: "quiet_logger L \<Longrightarrow> wp (emitLog L l m h) (\<lambda>_ h'. extends h h' \<and> slept h' = slept h)"
  by (rule wp_conj [OF run_extends [OF emitLog_plain] emitLog_awake])

text \<open>Messages, and the removal of the record and of the configuration written for the core.\<close>

definition clearing :: "app_paths \<Rightarrow> event \<Rightarrow> bool" where
  "clearing P e \<longleftrightarrow> logging e \<or> fst e = CRemove (state_file P) \<or> fst e = CRemove (core_config_file P)"

lemma emitLog_clearing:
  "quiet_logger L \<Longrightarrow> wp (emitLog L l m h) (\<lambda>_ h'. emits (clearing P) h h' \<and> slept h' = slept h)"
  using wp_conj [OF emitLog_wp emitLog_awake]
  by (rule wp_mono) (auto simp: clearing_def elim: emits_mono)

text \<open>The record was removed, or was not there any more.\<close>

definition record_forgotten :: "app_paths \<Rightarrow> hist \<Rightarrow> hist \<Rightarrow> bool" where
  "record_forgotten P h h' \<longleftrightarrow>
     (\<exists>a g. extends h g \<and> extends ((CRemove (state_file P), a) # g) h' \<and>
        (0 \<le> r_ret a \<or> r_errno a = ENOENT))"

lemma record_forgotten_mono: "record_forgotten P h h' \<Longrightarrow> extends g h \<Longrightarrow> record_forgotten P g h'"
  unfolding record_forgotten_def using extends_trans by blast

lemma record_forgotten_now:
  "0 \<le> r_ret a \<or> r_errno a = ENOENT \<Longrightarrow> extends ((CRemove (state_file P), a) # h) h' \<Longrightarrow>
   record_forgotten P h h'"
  unfolding record_forgotten_def using extends_refl by blast

text \<open>What a stop does once it has only to forget: no more than clearing, and the record is gone.\<close>

abbreviation forgets :: "app_paths \<Rightarrow> hist \<Rightarrow> unit result \<Rightarrow> hist \<Rightarrow> bool" where
  "forgets P h r h' \<equiv> slept h' = slept h \<and> emits (clearing P) h h' \<and>
     (r = Inr () \<longrightarrow> record_forgotten P h h')"

lemma clear_runtime_forgets: "wp (clear_runtime S P h) (forgets P h)"
  by (auto simp: clear_runtime_def wp_simps clearing_def intro!: record_forgotten_now)

lemma forget_state_forgets: "wp (forget_state S P h) (forgets P h)"
  unfolding forget_state_def clear_runtime_def
  by (auto simp: wp_simps clearing_def intro!: record_forgotten_now)

text \<open>The core was seen to be gone, and afterwards its interface.\<close>

definition seen_gone :: "os \<Rightarrow> app_paths \<Rightarrow> runtime_state \<Rightarrow> hist \<Rightarrow> hist \<Rightarrow> bool" where
  "seen_gone S P state h h' \<longleftrightarrow>
     (\<exists>m n. extends h m \<and> core_gone S state m \<and> extends m n \<and> tun_gone P n \<and> extends n h')"

lemma seen_gone_later: "seen_gone S P state h k \<Longrightarrow> extends k h' \<Longrightarrow> seen_gone S P state h h'"
  unfolding seen_gone_def by (meson extends_trans)

lemma end_running_wp:
  assumes L: "quiet_logger L"
  shows "wp (end_recorded S P L True state h) (\<lambda>r h'. slept h' \<le> slept h + 10000 \<and> extends h h' \<and>
    (r = Inr () \<longrightarrow> seen_gone S P state h h'))"
  unfolding end_recorded_def if_True wp_bind prod.case
proof (rule wp_mono [OF terminateCore_look [OF L]], elim conjE)
  fix r g assume g: "extends h g" "ended_well S state 7000 h r g"
  show "wp (case r of Inl e \<Rightarrow> Some (Inl e, g) | Inr _ \<Rightarrow> awaitTunRemoval S P StateError g)
    (\<lambda>r h'. slept h' \<le> slept h + 10000 \<and> extends h h' \<and> (r = Inr () \<longrightarrow> seen_gone S P state h h'))"
  proof (cases r)
    case (Inl e)
    with g show ?thesis by (simp add: ended_well_def wp_Some)
  next
    case (Inr u)
    have "core_gone S state g" "slept g \<le> slept h + 7000" using g(2) Inr by (simp_all add: ended_well_def)
    moreover have "seen_gone S P state h h'" if "core_gone S state g" "extends g h'" "tun_gone P h'" for h'
      unfolding seen_gone_def using that g(1) extends_refl by blast
    ultimately show ?thesis
      unfolding Inr sum.case by (auto intro!: wp_mono [OF awaitTunRemoval_look] intro: extends_trans [OF g(1)])
  qed
qed

text \<open>What a stop did, by what it found.\<close>

definition stop_outcome :: "os \<Rightarrow> app_paths \<Rightarrow> hist \<Rightarrow> unit result \<Rightarrow> hist \<Rightarrow> bool" where
  "stop_outcome S P h r h' \<longleftrightarrow>
     (\<exists>loaded g. load_runtime S P h = Some (loaded, g) \<and>
        (case loaded of
           Inl _ \<Rightarrow> emits (clearing P) g h'
         | Inr state \<Rightarrow> \<exists>running k. isManagedProcessRunning S state g = Some (Inr running, k) \<and>
             (if running then r = Inr () \<longrightarrow> seen_gone S P state k h' else emits (clearing P) k h')))"

lemma stop_proxy_wp:
  assumes L: "quiet_logger L"
  shows "wp (stop_proxy S P L h) (\<lambda>r h'. slept h' \<le> slept h + 10000 \<and>
    (r = Inr () \<longrightarrow> record_forgotten P h h') \<and> stop_outcome S P h r h')"
  unfolding stop_proxy_def wp_bind [of "load_runtime S P h"] prod.case
proof (rule wp_mono [OF wp_conj [OF load_runtime_awake run_extends [OF load_runtime_plain]]], elim conjE)
  fix loaded g assume g: "slept g = slept h" "load_runtime S P h = Some (loaded, g)" "extends h g"
  let ?R = "\<lambda>r h'. slept h' \<le> slept h + 10000 \<and>
    (r = Inr () \<longrightarrow> record_forgotten P h h') \<and> stop_outcome S P h r h'"
  show "wp (case loaded of Inl _ \<Rightarrow> clear_runtime S P g
     | Inr state \<Rightarrow> do {
         (running, h) \<leftarrow> isManagedProcessRunning S state g;
         (stopped, h) \<leftarrow> end_recorded S P L (running = Inr True) state h;
         case stopped of Inl e \<Rightarrow> Some (Inl e, h)
         | Inr _ \<Rightarrow> forget_state S P h
       }) ?R"
  proof (cases loaded)
    case (Inl e)
    with g show ?thesis
      by (auto simp: stop_outcome_def intro!: wp_mono [OF clear_runtime_forgets] intro: record_forgotten_mono)
  next
    case (Inr state)
    have forget: "wp (forget_state S P k') ?R" if "extends h k'" "slept k' \<le> slept h + 10000"
      "\<And>r h'. emits (clearing P) k' h' \<Longrightarrow> stop_outcome S P h r h'" for k'
      by (rule wp_mono [OF forget_state_forgets]) (use that in \<open>auto intro: record_forgotten_mono\<close>)
    have "wp (end_recorded S P L (running = Inr True) state k) (\<lambda>r k'. wp (case r of Inl e \<Rightarrow> Some (Inl e, k')
        | Inr _ \<Rightarrow> forget_state S P k') ?R)"
      if k: "isManagedProcessRunning S state g = Some (running, k)" "ok running" "extends g k" "slept k = slept g"
      for running k
    proof -
      have hk: "extends h k" using g(3) k(3) by (rule extends_trans)
      obtain b where b: "running = Inr b" using k(2) by (cases running) (auto simp: ok_def)
      show ?thesis
      proof (cases b)
        case True
        have out: "stop_outcome S P h r h'" if "r = Inr () \<longrightarrow> seen_gone S P state k h'" for r h'
          unfolding stop_outcome_def using g(2) k(1) that by (auto simp: Inr b True)
        have yes: "(running = Inr True) = True" using b True by simp
        show ?thesis
          unfolding yes
          by (rule wp_mono [OF end_running_wp [OF L]])
            (use g(1) k(4) hk in \<open>auto simp: wp_Some out split: sum.splits
              intro!: forget out intro: extends_trans seen_gone_later emits_extend\<close>)
      next
        case False
        have out: "stop_outcome S P h r h'" if "emits (clearing P) k h'" for r h'
          unfolding stop_outcome_def using g(2) k(1) that by (auto simp: Inr b False)
        show ?thesis
          unfolding b using False g(1) k(4) hk
          by (auto simp: end_recorded_def wp_bind wp_Some intro!: wp_mono [OF emitLog_clearing [OF L, where P = P]]
              forget out intro: extends_trans emits_extend emits_trans)
      qed
    qed
    then show ?thesis
      unfolding Inr sum.case wp_bind prod.case by (auto intro!: wp_mono [OF isManaged_look])
  qed
qed

section \<open>A core that can be killed is stopped\<close>

text \<open>
  The recorded process may be signalled, it changes only by what is done to it, \<^verbatim>\<open>SIGKILL\<close> ends it,
  and its number is not given to another process meanwhile.
\<close>

definition mortal :: "os \<Rightarrow> proc_table \<Rightarrow> runtime_state \<Rightarrow> string \<Rightarrow> bool" where
  "mortal S T st q \<longleftrightarrow>
     proc_fs S T \<and> canonical_to S (rs_executable st) q \<and> (\<forall>h. undisturbed T st h) \<and>
     (\<forall>h s. s = 15 \<or> s = 9 \<longrightarrow> r_ret (answer S h (CKill (rs_pid st) s)) = 0 \<or>
        r_ret (answer S h (CKill (rs_pid st) s)) < 0 \<and> r_errno (answer S h (CKill (rs_pid st) s)) = ESRCH) \<and>
     (\<forall>h a e. T ((CKill (rs_pid st) 9, a) # h) (rs_pid st) = None \<and>
        (T h (rs_pid st) = None \<longrightarrow> T (e # h) (rs_pid st) = None))"

lemma mortal_signal:
  assumes m: "mortal S T st q" and s: "s = 15 \<or> s = 9"
    and "cur_errno ((CKill (rs_pid st) s, answer S h (CKill (rs_pid st) s)) # h) \<noteq> ESRCH"
  shows "r_ret (answer S h (CKill (rs_pid st) s)) = 0"
proof -
  have "r_ret (answer S h (CKill (rs_pid st) s)) = 0 \<or>
      r_ret (answer S h (CKill (rs_pid st) s)) < 0 \<and> r_errno (answer S h (CKill (rs_pid st) s)) = ESRCH"
    using m s unfolding mortal_def by blast
  with assms(3) show ?thesis by auto
qed

lemma mortal_check:
  assumes "mortal S T st q"
  shows "wp (isManagedProcessRunning S st h) (\<lambda>r h'. \<exists>b. r = Inr b \<and> (T h (rs_pid st) = None \<longrightarrow> \<not> b))"
  by (rule wp_mono [OF isManaged_exact [of S T st h q]])
    (use assms in \<open>auto simp: mortal_def is_the_process_def\<close>)

lemma mortal_stop_loop:
  assumes m: "mortal S T st q"
  shows "wp (stop_loop S st n h) (\<lambda>r h'. (r = None \<or> r = Some (Inr ())) \<and>
    (T h (rs_pid st) = None \<and> 0 < n \<longrightarrow> r = Some (Inr ())))"
proof (induction n arbitrary: h)
  case (Suc n)
  have stays: "T h (rs_pid st) = None \<longrightarrow> T (e # h) (rs_pid st) = None" for e using m unfolding mortal_def by blast
  have rest: "wp (stop_loop S st n g) (\<lambda>r h'. r = None \<or> r = Some (Inr ()))" for g
    by (rule wp_mono [OF Suc]) blast
  show ?case using stays
    by (auto simp: wp_bind wp_sys wp_Some intro!: wp_mono [OF mortal_check [OF m]] wp_mono [OF rest])
qed (simp add: wp_Some)

lemma force_stop_mortal:
  assumes m: "mortal S T st q" and L: "quiet_logger L"
  shows "wp (force_stop S L st h) (\<lambda>r h'. r = Inr ())"
proof -
  have dead: "wp (stop_loop S st (pollIterations kCoreKillTimeout) ((CKill (rs_pid st) 9, a) # g)) (\<lambda>r h'. r = Some (Inr ()))" for a g
    by (rule wp_mono [OF mortal_stop_loop [OF m]]) (use m in \<open>simp add: mortal_def pollIterations_def constant_defs\<close>)
  show ?thesis
    unfolding force_stop_def
    by (auto simp: wp_bind wp_sys wp_Some intro!: wp_mono [OF mortal_check [OF m]] wp_mono [OF emitLog_awake [OF L]]
        wp_mono [OF dead] intro: mortal_signal [OF m])
qed

lemma terminateCore_mortal:
  assumes m: "mortal S T st q" and L: "quiet_logger L"
  shows "wp (terminateCore S L st h) (\<lambda>r h'. r = Inr ())"
  unfolding terminateCore_def
  by (auto simp: wp_bind wp_sys wp_Some force_stop_mortal [OF assms]
      intro!: wp_mono [OF mortal_check [OF m]] wp_mono [OF mortal_stop_loop [OF m]] intro: mortal_signal [OF m])

text \<open>A machine with one process, which only \<^verbatim>\<open>SIGKILL\<close> ends.\<close>

definition killed :: "hist \<Rightarrow> bool" where
  "killed h \<longleftrightarrow> (\<exists>e \<in> set h. fst e = CKill 42 9)"

definition stubborn_table :: proc_table where
  "stubborn_table h pid = (if pid = 42 \<and> \<not> killed h then Some core_proc else None)"

definition stubborn_answer :: "hist \<Rightarrow> call \<Rightarrow> resp" where
  "stubborn_answer h c =
     (case c of
        CKill pid s \<Rightarrow> (if pid = 42 \<and> \<not> killed h then done_resp 0 [] else (done_resp (- 1) [])\<lparr>r_errno := ESRCH\<rparr>)
      | CReadFile f \<Rightarrow> (if f = stat_path 42 \<and> \<not> killed h then done_resp 0 (stat_text 42 core_proc) else done_resp (- 1) [])
      | CReadSymlink f \<Rightarrow> done_resp 0 (p_exe core_proc)
      | CCanonical f \<Rightarrow> done_resp 0 f
      | _ \<Rightarrow> done_resp 0 [])"

definition stubborn_os :: os where
  "stubborn_os = (file_os empty_vfs)\<lparr>answer := stubborn_answer\<rparr>"

lemma stubborn_mortal: "mortal stubborn_os stubborn_table core_state ''/var/lib/core''"
proof -
  have same: "killed h' = killed h" if "emits (check_event core_state) h h'" for h h'
  proof -
    from that obtain es where es: "h' = es @ h" "list_all (check_event core_state) es" by (auto simp: emits_def)
    have "\<not> killed es" using es(2) by (auto simp: killed_def list_all_iff check_event_def core_state_def)
    with es(1) show ?thesis by (auto simp: killed_def)
  qed
  have "proc_fs stubborn_os stubborn_table"
    using core_proc_wf
    by (auto simp: proc_fs_def stubborn_table_def stubborn_os_def stubborn_answer_def done_resp_def stat_path_def)
  moreover have "undisturbed stubborn_table core_state h" for h
    using same by (auto simp: undisturbed_def stubborn_table_def)
  moreover have "stubborn_table ((CKill 42 9, a) # h) 42 = None" "stubborn_table h 42 = None \<longrightarrow> stubborn_table (e # h) 42 = None" for a h e
    by (auto simp: stubborn_table_def killed_def)
  ultimately show ?thesis
    by (auto simp: mortal_def canonical_to_def stubborn_os_def stubborn_answer_def done_resp_def core_state_def)
qed

lemma helper_os_signals: "signals_bounded helper_os 0"
proof -
  have "r_errno (helper_answer h c) = E0" for h c
    by (cases c) (simp_all add: helper_answer_def count_answer_def done_resp_def)
  then show ?thesis by (simp add: signals_bounded_def helper_os_def)
qed

text \<open>
  Calls that come back: a process is waited for without a limit only where that is due, a poll has
  a limit, and no lock is waited for.
\<close>

definition bounded_call :: "call \<Rightarrow> hist \<Rightarrow> bool" where
  "bounded_call c h \<longleftrightarrow>
     (case c of
        CWaitpid p nohang \<Rightarrow> nohang \<or> wait_due p h
      | CPoll fds t \<Rightarrow> 0 \<le> t
      | CFlock fd op \<Rightarrow> op \<noteq> LockEx
      | _ \<Rightarrow> True)"

lemma proxy_bounded: "proxy_ok S P M c h \<Longrightarrow> bounded_call c h"
  by (cases c) (simp_all add: bounded_call_def)

lemma plain_bounded: "plain_call c \<Longrightarrow> bounded_call c h"
  by (rule proxy_bounded) (rule plain_proxy)

lemma plain_waits: "plain_call c \<Longrightarrow> case c of CWaitpid p nohang \<Rightarrow> nohang | _ \<Rightarrow> True"
  by (cases c) simp_all

lemma running_says_so: "already_running S status h \<or> newly_started S P status h \<Longrightarrow> ps_running status"
  by (elim disjE) (unfold already_running_def newly_started_def, (elim exE conjE, simp add: statusFromState_def)+)

section \<open>Properties\<close>



text \<open>C28: Only verified programs are started and only processes known to be ours are signalled. Every
  child a start or a stop forks is one of the tools with its fixed arguments, the core's own
  configuration check, or the core itself, the latter two only after the checksum of its file was
  seen to be the released one (\<open>proxy_ok\<close>, \<open>core_ok\<close>); a process is signalled only if it is an own
  child that was not waited for or the identity check has just found it to be the recorded one;
  files are replaced only at the places the program owns. A status query starts, signals and
  replaces nothing.\<close>

theorem starts_and_signals_guarded:
  assumes "fresh_kernel S" and "quiet_logger L"
  shows "wp (start_proxy S P M L h) (\<lambda>_ h'. guarded (\<lambda>e g. proxy_ok S P M (fst e) g) h h') \<and>
    wp (stop_proxy S P L h) (\<lambda>_ h'. guarded (\<lambda>e g. proxy_ok S P M (fst e) g) h h') \<and>
    wp (proxy_status_of S P M h) (\<lambda>_ h'. emits (\<lambda>e. plain_call (fst e)) h h')"
  by (intro conjI wp_mono [OF start_proxy_proxy [OF assms, unfolded gwp_def]]
      wp_mono [OF stop_proxy_proxy [OF assms(2), unfolded gwp_def]] emits_gwp [OF status_plain]) simp_all

theorem starts_and_signals_guarded_witness:
  "wp (start_proxy helper_os default_paths kSingBoxRelease None []) (\<lambda>_ h'. guarded (\<lambda>e g. proxy_ok helper_os default_paths kSingBoxRelease (fst e) g) [] h') \<and>
    wp (stop_proxy helper_os default_paths None []) (\<lambda>_ h'. guarded (\<lambda>e g. proxy_ok helper_os default_paths kSingBoxRelease (fst e) g) [] h') \<and>
    wp (proxy_status_of helper_os default_paths kSingBoxRelease []) (\<lambda>_ h'. emits (\<lambda>e. plain_call (fst e)) [] h')"
  by (rule starts_and_signals_guarded [OF helper_os_kernel]) (simp add: quiet_logger_def)

text \<open>C29: A start succeeds only over a running core. Where \<open>start_proxy\<close> reports success, the status says
  running, and either the identity check has just found the recorded core (and the record said
  running), or the core is a child of this process that was not waited for when its interface was
  seen, and the record that names it was then saved.\<close>

theorem start_reports_running_core:
  assumes "fresh_kernel S" and "quiet_logger L"
  shows "wp (start_proxy S P M L h) (\<lambda>r h'. case r of Inl e \<Rightarrow> True
    | Inr status \<Rightarrow> ps_running status \<and> (already_running S status h' \<or> newly_started S P status h'))"
proof (rule wp_mono [OF start_proxy_proxy [OF assms, unfolded gwp_def]], elim conjE)
  fix r h' assume "\<forall>status. r = Inr status \<longrightarrow> already_running S status h' \<or> newly_started S P status h'"
  then show "case r of Inl e \<Rightarrow> True
    | Inr status \<Rightarrow> ps_running status \<and> (already_running S status h' \<or> newly_started S P status h')"
    by (cases r) (auto intro: running_says_so)
qed

theorem start_reports_running_core_witness:
  "wp (start_proxy helper_os default_paths kSingBoxRelease None []) (\<lambda>r h'. case r of Inl e \<Rightarrow> True
    | Inr status \<Rightarrow> ps_running status \<and> (already_running helper_os status h' \<or> newly_started helper_os default_paths status h'))"
  by (rule start_reports_running_core [OF helper_os_kernel]) (simp add: quiet_logger_def)



text \<open>C31: A core that \<^verbatim>\<open>SIGKILL\<close> ends is stopped. If the recorded process may be signalled and does not
  survive \<^verbatim>\<open>SIGKILL\<close>, \<open>terminateCore\<close> returns success, however the process behaves on
  \<^verbatim>\<open>SIGTERM\<close>, and then the core is gone.\<close>

theorem killable_core_is_stopped:
  assumes "mortal S T st q" and "quiet_logger L"
  shows "twp (terminateCore S L st h) (\<lambda>r h'. r = Inr () \<and> core_gone S st h')"
proof (rule twpI [OF terminateCore_returns [OF assms(2)]])
  show "wp (terminateCore S L st h) (\<lambda>r h'. r = Inr () \<and> core_gone S st h')"
    using wp_conj [OF terminateCore_mortal [OF assms] terminateCore_ends [OF assms(2)]]
    by (rule wp_mono) (auto simp: ended_well_def)
qed

theorem killable_core_is_stopped_witness:
  "twp (terminateCore stubborn_os None core_state []) (\<lambda>r h'. r = Inr () \<and> core_gone stubborn_os core_state h')"
  by (rule killable_core_is_stopped [OF stubborn_mortal]) (simp add: quiet_logger_def)

end
