(* ===== verification/Ipc.thy ===== *)
theory Ipc
  imports Codec
begin

text \<open>
  \<^verbatim>\<open>include/tunproxy/ipc.hpp\<close> and \<^verbatim>\<open>src/ipc.cpp\<close>: the commands, the frames of the
  control connection, and sending and receiving them over a stream socket that takes and
  gives bytes in pieces.

  \<open>sent\<close> and \<open>received\<close> read off a history the bytes that went into and came out of a
  descriptor. The lemmas say what the code adds to them, on success and on failure.
\<close>

section \<open>Commands\<close>

definition kIpcProtocolVersion :: u32 where "kIpcProtocolVersion = 1"
definition kIpcMaximumPayload :: nat where "kIpcMaximumPayload = 64 * 1024"

datatype frame_type = FrameRequest | FrameLog | FrameResult | FrameError

fun frame_type_num :: "frame_type \<Rightarrow> nat" where
  "frame_type_num FrameRequest = 1"
| "frame_type_num FrameLog = 2"
| "frame_type_num FrameResult = 3"
| "frame_type_num FrameError = 4"

datatype command = On | Off | Status | GetSetting | SetSetting | Bypass

fun command_num :: "command \<Rightarrow> u32" where
  "command_num On = 1"
| "command_num Off = 2"
| "command_num Status = 3"
| "command_num GetSetting = 4"
| "command_num SetSetting = 5"
| "command_num Bypass = 6"

definition encodeCommand :: "command \<Rightarrow> u32" where
  "encodeCommand c = or (push_bit 16 kIpcProtocolVersion) (command_num c)"

text \<open>\<^verbatim>\<open>static_cast<Command>\<close> of a number that was checked to be one of the enumeration.\<close>

definition command_of_num :: "u32 \<Rightarrow> command" where
  "command_of_num n =
     (if n = 1 then On else if n = 2 then Off else if n = 3 then Status
      else if n = 4 then GetSetting else if n = 5 then SetSetting else Bypass)"

definition decodeCommand :: "u32 \<Rightarrow> command result" where
  "decodeCommand code =
     (if drop_bit 16 code \<noteq> kIpcProtocolVersion then
        failure InvalidArguments ''unsupported IPC protocol version''
      else let command_code = and code 0xffff
      in if command_code < command_num On \<or> command_num Bypass < command_code then
           failure InvalidArguments ''unknown IPC command''
         else success (command_of_num command_code))"

section \<open>Frames\<close>

record ipc_frame =
  frame_type :: frame_type
  frame_code :: u32
  frame_payload :: string

definition kFrameMetadataSize :: nat where "kFrameMetadataSize = 1 + 4"

text \<open>The bytes in memory of \<^verbatim>\<open>htonl(w)\<close>, and \<^verbatim>\<open>ntohl\<close> of four such bytes.\<close>

definition htonl_bytes :: "u32 \<Rightarrow> string" where
  "htonl_bytes w = map (\<lambda>k. char_of (unat (drop_bit k w))) [24, 16, 8, 0]"

definition ntohl_bytes :: "string \<Rightarrow> u32" where
  "ntohl_bytes bs = foldl (\<lambda>w c. or (push_bit 8 w) (of_char c)) 0 bs"

definition byte_text :: "nat \<Rightarrow> string" where
  "byte_text n = [char_of n]"

partial_function (option) sendAll :: "os \<Rightarrow> int \<Rightarrow> string \<Rightarrow> hist \<Rightarrow> unit result run" where
  "sendAll S descriptor data h =
     (if data = [] then Some (success (), h)
      else do {
        (count, h) \<leftarrow> sys S (CWrite descriptor data) h;
        if 0 < r_ret count then sendAll S descriptor (drop (nat (r_ret count)) data) h
        else if r_ret count < 0 \<and> r_errno count = EINTR then sendAll S descriptor data h
        else Some (failure StateError
          (''control connection write failed: '' @ strerror S (cur_errno h)), h)
      })"

text \<open>
  The buffer is \<open>bytes\<close> with \<open>remaining\<close> bytes to fill; the answer holds what the call put
  there.
\<close>

partial_function (option) receiveAll ::
  "os \<Rightarrow> int \<Rightarrow> string \<Rightarrow> nat \<Rightarrow> hist \<Rightarrow> string result run" where
  "receiveAll S descriptor bytes remaining h =
     (if remaining = 0 then Some (success bytes, h)
      else do {
        (count, h) \<leftarrow> sys S (CRecv descriptor remaining) h;
        if 0 < r_ret count then
          receiveAll S descriptor (bytes @ take (nat (r_ret count)) (r_out count))
            (remaining - nat (r_ret count)) h
        else if r_ret count < 0 \<and> r_errno count = EINTR then
          receiveAll S descriptor bytes remaining h
        else Some (failure StateError (''control connection read failed: '' @
          (if r_ret count = 0 then ''connection closed'' else strerror S (cur_errno h))), h)
      })"

definition sendIpcFrame :: "os \<Rightarrow> int \<Rightarrow> ipc_frame \<Rightarrow> hist \<Rightarrow> unit result run" where
  "sendIpcFrame S descriptor f h =
     (if kIpcMaximumPayload < length (frame_payload f) then
        Some (failure InvalidArguments ''IPC payload is too large'', h)
      else let body_size = kFrameMetadataSize + length (frame_payload f)
      in if 2 ^ 32 - 1 < body_size then
           Some (failure InvalidArguments ''IPC frame is too large'', h)
      else do {
        (sent, h) \<leftarrow> sendAll S descriptor (htonl_bytes (word_of_nat body_size)) h;
        if \<not> ok sent then Some (sent, h)
        else do {
          (sent, h) \<leftarrow> sendAll S descriptor (byte_text (frame_type_num (frame_type f))) h;
          if \<not> ok sent then Some (sent, h)
          else do {
            (sent, h) \<leftarrow> sendAll S descriptor (htonl_bytes (frame_code f)) h;
            if \<not> ok sent \<or> frame_payload f = [] then Some (sent, h)
            else sendAll S descriptor (frame_payload f) h
          }
        }
      })"

definition frame_type_of_num :: "nat \<Rightarrow> frame_type" where
  "frame_type_of_num n =
     (if n = 1 then FrameRequest else if n = 2 then FrameLog
      else if n = 3 then FrameResult else FrameError)"

definition receiveIpcFrame :: "os \<Rightarrow> int \<Rightarrow> hist \<Rightarrow> ipc_frame result run" where
  "receiveIpcFrame S descriptor h = do {
     (received, h) \<leftarrow> receiveAll S descriptor [] 4 h;
     case received of
       Inl e \<Rightarrow> Some (Inl e, h)
     | Inr network_size \<Rightarrow>
         let body_size = unat (ntohl_bytes network_size)
         in if body_size < kFrameMetadataSize \<or> kFrameMetadataSize + kIpcMaximumPayload < body_size
            then Some (failure InvalidArguments ''invalid IPC frame size'', h)
         else do {
           (received, h) \<leftarrow> receiveAll S descriptor [] 1 h;
           case received of
             Inl e \<Rightarrow> Some (Inl e, h)
           | Inr type_byte \<Rightarrow> do {
               (received, h) \<leftarrow> receiveAll S descriptor [] 4 h;
               case received of
                 Inl e \<Rightarrow> Some (Inl e, h)
               | Inr network_code \<Rightarrow>
                   let type = of_char (hd type_byte) :: nat
                   in if type < frame_type_num FrameRequest \<or> frame_type_num FrameError < type then
                        Some (failure InvalidArguments ''invalid IPC frame type'', h)
                   else
                     let f = \<lparr>frame_type = frame_type_of_num type,
                              frame_code = ntohl_bytes network_code, frame_payload = []\<rparr>;
                         size = body_size - kFrameMetadataSize
                     in if size = 0 then Some (success f, h)
                        else do {
                          (received, h) \<leftarrow> receiveAll S descriptor [] size h;
                          case received of
                            Inl e \<Rightarrow> Some (Inl e, h)
                          | Inr payload \<Rightarrow> Some (success (f\<lparr>frame_payload := payload\<rparr>), h)
                        }
             }
         }
   }"

text \<open>\<open>sizeof(sun_path)\<close> is 108.\<close>

definition connectControlSocket :: "os \<Rightarrow> string \<Rightarrow> hist \<Rightarrow> int result run" where
  "connectControlSocket S path h =
     (if path = [] \<or> 108 \<le> length path then
        Some (failure InvalidArguments ''control socket path is invalid'', h)
      else do {
        (descriptor, h) \<leftarrow> sys S (CNet NSocketUnix) h;
        if r_ret descriptor < 0 then Some (failure StateError ''cannot create control socket'', h)
        else do {
          (connected, h) \<leftarrow> sys S (CNet (NConnectUnix (r_ret descriptor) path)) h;
          if r_ret connected \<noteq> 0 then do {
            let saved_errno = cur_errno h;
            (_, h) \<leftarrow> sys S (CClose (r_ret descriptor)) h;
            Some (failure StateError
              (if saved_errno = EACCES then
                 ''permission denied connecting to tunproxyd; the user must belong to the sudo group''
               else ''cannot connect to tunproxyd at '' @ path @ '': '' @ strerror S saved_errno), h)
          }
          else Some (success (r_ret descriptor), h)
        }
      })"

section \<open>The command numbers\<close>

lemma decode_encode: "decodeCommand (encodeCommand c) = Inr c"
  by (cases c) (simp_all add: decodeCommand_def encodeCommand_def kIpcProtocolVersion_def
      command_of_num_def Let_def)

lemma u32_halves: "or (push_bit 16 (drop_bit 16 w)) (and w 0xffff) = (w :: u32)"
proof (rule bit_word_eqI)
  fix n assume n: "n < LENGTH(32)"
  have m: "(0xffff :: u32) = mask 16" by (simp add: mask_eq_exp_minus_1)
  show "bit (or (push_bit 16 (drop_bit 16 w)) (and w 0xffff)) n \<longleftrightarrow> bit w n"
    unfolding m using n
    by (cases "n < 16") (auto simp: bit_or_iff bit_and_iff bit_push_bit_iff bit_drop_bit_eq bit_mask_iff)
qed

lemma encode_decode: "decodeCommand w = Inr c \<Longrightarrow> w = encodeCommand c"
proof -
  assume d: "decodeCommand w = Inr c"
  let ?n = "and w 0xffff"
  from d have v: "drop_bit 16 w = kIpcProtocolVersion" and r: "?n \<noteq> 0" "?n \<le> 6"
    and c: "c = command_of_num ?n"
    by (auto simp: decodeCommand_def Let_def not_less split: if_splits)
  from r have "unat ?n \<noteq> 0" "unat ?n \<le> 6"
    by (simp_all add: word_le_nat_alt unat_eq_zero)
  then have "unat ?n \<in> {1, 2, 3, 4, 5, 6}" by auto
  then have "?n \<in> {1, 2, 3, 4, 5, 6}"
    by (auto simp: word_unat_eq_iff)
  then have "command_num c = ?n" unfolding c command_of_num_def by auto
  then show ?thesis using u32_halves [of w] v by (simp add: encodeCommand_def)
qed

lemma decode_iff: "decodeCommand w = Inr c \<longleftrightarrow> w = encodeCommand c"
  using decode_encode encode_decode by blast

text \<open>The codes are in bijection with the six commands; all others are refused.\<close>

lemma command_codes:
  "case decodeCommand code of
     Inr c \<Rightarrow> code = encodeCommand c
   | Inl e \<Rightarrow> err_code e = InvalidArguments \<and> code \<notin> range encodeCommand"
proof (cases "decodeCommand code")
  case (Inl e)
  then have "err_code e = InvalidArguments" by (auto simp: decodeCommand_def Let_def split: if_splits)
  with Inl decode_encode show ?thesis by auto
qed (simp add: encode_decode)

section \<open>The bytes of a descriptor\<close>

fun sent :: "int \<Rightarrow> hist \<Rightarrow> string" where
  "sent fd [] = []"
| "sent fd (e # h) = sent fd h @
     (case e of (CWrite f d, r) \<Rightarrow> if f = fd then take (nat (r_ret r)) d else [] | _ \<Rightarrow> [])"

fun received :: "int \<Rightarrow> hist \<Rightarrow> string" where
  "received fd [] = []"
| "received fd (e # h) = received fd h @
     (case e of (CRecv f n, r) \<Rightarrow> if f = fd then take (nat (r_ret r)) (r_out r) else [] | _ \<Rightarrow> [])"

lemma sendAll_wp:
  "wp (sendAll S fd data h) (\<lambda>r h'. \<exists>k \<le> length data. sent fd h' = sent fd h @ take k data \<and>
     (case r of Inr _ \<Rightarrow> k = length data | Inl e \<Rightarrow> err_code e = StateError))"
proof (rule wpI)
  fix r h' assume ret: "sendAll S fd data h = Some (r, h')"
  let ?post = "\<lambda>fd data h res. \<exists>k \<le> length data. sent fd (snd res) = sent fd h @ take k data \<and>
     (case fst res of Inr _ \<Rightarrow> k = length data | Inl e \<Rightarrow> err_code e = StateError)"
  have "?post fd data h (r, h')"
  proof (rule sendAll.raw_induct [where P = "\<lambda>S fd data h res. ?post fd data h res", OF _ ret], goal_cases)
    case (1 f S fd data h res)
    note IH = 1(1) and eq = 1(2)
    let ?a = "answer S h (CWrite fd data)"
    let ?h = "(CWrite fd data, ?a) # h"
    consider (empty) "data = []" | (some) "data \<noteq> []" "0 < r_ret ?a"
      | (intr) "data \<noteq> []" "\<not> 0 < r_ret ?a" "r_ret ?a < 0 \<and> r_errno ?a = EINTR"
      | (fail) "data \<noteq> []" "\<not> 0 < r_ret ?a" "\<not> (r_ret ?a < 0 \<and> r_errno ?a = EINTR)" by blast
    then show ?case
    proof cases
      case empty
      with eq show ?thesis by auto
    next
      case some
      let ?n = "nat (r_ret ?a)"
      from some eq have "f S fd (drop ?n data) ?h = Some res" by (simp add: sys_def)
      from IH [OF this] obtain k where k: "k \<le> length (drop ?n data)"
        "sent fd (snd res) = sent fd ?h @ take k (drop ?n data)"
        "case fst res of Inr _ \<Rightarrow> k = length (drop ?n data) | Inl e \<Rightarrow> err_code e = StateError" by blast
      have "take ?n data @ take k (drop ?n data) = take (min ?n (length data) + k) data"
        by (metis take_add length_take min.commute take_take append_take_drop_id
            append_eq_conv_conj drop_take diff_add_inverse min.idem take_all_iff nat_le_linear drop_all take_Nil
            append_Nil2 min_def le_add1)
      with k show ?thesis
        by (intro exI [of _ "min ?n (length data) + k"]) (auto split: sum.splits)
    next
      case intr
      with eq have "f S fd data ?h = Some res" by (simp add: sys_def)
      from IH [OF this] intr show ?thesis by simp
    next
      case fail
      with eq have "res = (failure StateError
          (''control connection write failed: '' @ strerror S (cur_errno ?h)), ?h)"
        by (auto simp: sys_def)
      with fail show ?thesis by (intro exI [of _ 0]) simp
    qed
  qed
  then show "\<exists>k \<le> length data. sent fd h' = sent fd h @ take k data \<and>
     (case r of Inr _ \<Rightarrow> k = length data | Inl e \<Rightarrow> err_code e = StateError)" by simp
qed

lemma sendAll_returns:
  assumes "signals_bounded S B"
  shows "returns (sendAll S fd data h)"
proof (induction "(B - interrupts h) + length data" arbitrary: data h rule: less_induct)
  case less
  let ?a = "answer S h (CWrite fd data)"
  let ?h = "(CWrite fd data, ?a) # h"
  consider (empty) "data = []" | (some) "data \<noteq> []" "0 < r_ret ?a"
    | (intr) "data \<noteq> []" "\<not> 0 < r_ret ?a" "r_ret ?a < 0 \<and> r_errno ?a = EINTR"
    | (fail) "data \<noteq> []" "\<not> 0 < r_ret ?a" "\<not> (r_ret ?a < 0 \<and> r_errno ?a = EINTR)" by blast
  then show ?case
  proof cases
    case empty
    then show ?thesis by (subst sendAll.simps) simp
  next
    case some
    then have "length (drop (nat (r_ret ?a)) data) < length data" by simp
    with some less have "returns (sendAll S fd (drop (nat (r_ret ?a)) data) ?h)" by simp
    with some show ?thesis by (subst sendAll.simps) (simp add: sys_def)
  next
    case intr
    with assms have "interrupts h < B" unfolding signals_bounded_def by (meson leI)
    with intr less have "returns (sendAll S fd data ?h)" by simp
    with intr show ?thesis by (subst sendAll.simps) (simp add: sys_def)
  next
    case fail
    then show ?thesis by (subst sendAll.simps) (auto simp: sys_def)
  qed
qed

text \<open>
  What \<^verbatim>\<open>recv\<close> promises: at most the bytes that were asked for, and as many as it says.
\<close>

definition recv_sized :: "os \<Rightarrow> int \<Rightarrow> bool" where
  "recv_sized S fd \<longleftrightarrow>
     (\<forall>h n. 0 < r_ret (answer S h (CRecv fd n)) \<longrightarrow>
        nat (r_ret (answer S h (CRecv fd n))) \<le> n \<and>
        length (r_out (answer S h (CRecv fd n))) = nat (r_ret (answer S h (CRecv fd n))))"

lemma receiveAll_wp:
  assumes "recv_sized S fd"
  shows "wp (receiveAll S fd acc n h) (\<lambda>r h'. \<exists>x. received fd h' = received fd h @ x \<and> length x \<le> n \<and>
     (case r of Inr bs \<Rightarrow> bs = acc @ x \<and> length x = n | Inl e \<Rightarrow> err_code e = StateError))"
proof (rule wpI)
  fix r h' assume ret: "receiveAll S fd acc n h = Some (r, h')"
  let ?post = "\<lambda>fd acc n h res. \<exists>x. received fd (snd res) = received fd h @ x \<and> length x \<le> n \<and>
     (case fst res of Inr bs \<Rightarrow> bs = acc @ x \<and> length x = n | Inl e \<Rightarrow> err_code e = StateError)"
  have "recv_sized S fd \<longrightarrow> ?post fd acc n h (r, h')"
  proof (rule receiveAll.raw_induct
      [where P = "\<lambda>S fd acc n h res. recv_sized S fd \<longrightarrow> ?post fd acc n h res", OF _ ret], intro impI, goal_cases)
    case (1 f S fd acc n h res)
    note IH = 1(1) and eq = 1(2) and sized = 1(3)
    let ?a = "answer S h (CRecv fd n)"
    let ?h = "(CRecv fd n, ?a) # h" and ?k = "nat (r_ret ?a)"
    consider (empty) "n = 0" | (some) "n \<noteq> 0" "0 < r_ret ?a"
      | (intr) "n \<noteq> 0" "\<not> 0 < r_ret ?a" "r_ret ?a < 0 \<and> r_errno ?a = EINTR"
      | (fail) "n \<noteq> 0" "\<not> 0 < r_ret ?a" "\<not> (r_ret ?a < 0 \<and> r_errno ?a = EINTR)" by blast
    then show ?case
    proof cases
      case empty
      with eq show ?thesis by auto
    next
      case some
      have k: "?k \<le> n" "length (r_out ?a) = ?k" using sized some by (auto simp: recv_sized_def)
      from some eq have "f S fd (acc @ take ?k (r_out ?a)) (n - ?k) ?h = Some res" by (simp add: sys_def)
      from IH [OF this] sized obtain x where
        "received fd (snd res) = received fd ?h @ x" "length x \<le> n - ?k"
        "case fst res of Inr bs \<Rightarrow> bs = (acc @ take ?k (r_out ?a)) @ x \<and> length x = n - ?k
           | Inl e \<Rightarrow> err_code e = StateError" by blast
      with k show ?thesis
        by (intro exI [of _ "r_out ?a @ x"]) (auto split: sum.splits)
    next
      case intr
      with eq have "f S fd acc n ?h = Some res" by (simp add: sys_def)
      from IH [OF this] intr sized show ?thesis by simp
    next
      case fail
      with eq obtain m where "res = (failure StateError m, ?h)" by (auto simp: sys_def)
      with fail show ?thesis by simp
    qed
  qed
  with assms show "\<exists>x. received fd h' = received fd h @ x \<and> length x \<le> n \<and>
     (case r of Inr bs \<Rightarrow> bs = acc @ x \<and> length x = n | Inl e \<Rightarrow> err_code e = StateError)" by simp
qed

text \<open>
  A descriptor from which the bytes \<open>bs\<close> arrive, in any pieces: a call is interrupted, or gives
  a nonempty part of what is still to come.
\<close>

definition stream_in :: "os \<Rightarrow> int \<Rightarrow> string \<Rightarrow> bool" where
  "stream_in S fd bs \<longleftrightarrow>
     (\<forall>h n x. 0 < n \<longrightarrow> x \<noteq> [] \<longrightarrow> bs = received fd h @ x \<longrightarrow>
        (let a = answer S h (CRecv fd n) in
         r_ret a < 0 \<and> r_errno a = EINTR \<or>
         0 < r_ret a \<and> nat (r_ret a) \<le> min n (length x) \<and> r_out a = take (nat (r_ret a)) x))"

lemma receiveAll_twp:
  assumes "signals_bounded S B" and "stream_in S fd bs"
    and "bs = received fd h @ x @ y" and "length x = n"
  shows "twp (receiveAll S fd acc n h) (\<lambda>r h'. r = Inr (acc @ x) \<and> received fd h' = received fd h @ x)"
  using assms(3,4)
proof (induction "(B - interrupts h) + n" arbitrary: acc n h x rule: less_induct)
  case less
  let ?a = "answer S h (CRecv fd n)"
  let ?h = "(CRecv fd n, ?a) # h" and ?k = "nat (r_ret ?a)"
  show ?case
  proof (cases "n = 0")
    case True
    with less.prems show ?thesis by (subst receiveAll.simps) (simp add: twp_def)
  next
    case False
    then have "x @ y \<noteq> []" using less.prems by auto
    with assms(2) less.prems(1) False
    consider (intr) "r_ret ?a < 0" "r_errno ?a = EINTR"
      | (some) "0 < r_ret ?a" "?k \<le> min n (length (x @ y))" "r_out ?a = take ?k (x @ y)"
      unfolding stream_in_def Let_def by (metis gr0I)
    then show ?thesis
    proof cases
      case intr
      with assms(1) have "interrupts h < B" unfolding signals_bounded_def by (meson leI)
      with intr less.prems less.hyps [of ?h n x acc]
      have "twp (receiveAll S fd acc n ?h) (\<lambda>r h'. r = Inr (acc @ x) \<and> received fd h' = received fd h @ x)"
        by simp
      with intr False show ?thesis by (subst receiveAll.simps) (simp add: sys_def)
    next
      case some
      have out: "r_out ?a = take ?k x" using some less.prems(2) by simp
      have split: "x = take ?k x @ drop ?k x" by simp
      have "n - ?k < n" using some False by simp
      moreover have "bs = received fd ?h @ drop ?k x @ y"
        using less.prems some out by simp
      ultimately have "twp (receiveAll S fd (acc @ take ?k x) (n - ?k) ?h)
          (\<lambda>r h'. r = Inr ((acc @ take ?k x) @ drop ?k x) \<and> received fd h' = received fd ?h @ drop ?k x)"
        using less.prems(2) some(1) by (intro less.hyps) auto
      moreover have "received fd ?h @ drop ?k x = received fd h @ x" using out by simp
      ultimately show ?thesis using some False out
        by (subst receiveAll.simps) (simp add: sys_def)
    qed
  qed
qed

lemma receiveAll_returns:
  assumes "signals_bounded S B"
  shows "returns (receiveAll S fd acc n h)"
proof (induction "(B - interrupts h) + n" arbitrary: acc n h rule: less_induct)
  case less
  let ?a = "answer S h (CRecv fd n)"
  let ?h = "(CRecv fd n, ?a) # h" and ?k = "nat (r_ret ?a)"
  consider (empty) "n = 0" | (some) "n \<noteq> 0" "0 < r_ret ?a"
    | (intr) "n \<noteq> 0" "\<not> 0 < r_ret ?a" "r_ret ?a < 0 \<and> r_errno ?a = EINTR"
    | (fail) "n \<noteq> 0" "\<not> 0 < r_ret ?a" "\<not> (r_ret ?a < 0 \<and> r_errno ?a = EINTR)" by blast
  then show ?case
  proof cases
    case empty
    then show ?thesis by (subst receiveAll.simps) simp
  next
    case some
    with less have "returns (receiveAll S fd (acc @ take ?k (r_out ?a)) (n - ?k) ?h)" by simp
    with some show ?thesis by (subst receiveAll.simps) (simp add: sys_def)
  next
    case intr
    with assms have "interrupts h < B" unfolding signals_bounded_def by (meson leI)
    with intr less have "returns (receiveAll S fd acc n ?h)" by simp
    with intr show ?thesis by (subst receiveAll.simps) (simp add: sys_def)
  next
    case fail
    then show ?thesis by (subst receiveAll.simps) (auto simp: sys_def)
  qed
qed

section \<open>Network byte order\<close>

lemma length_htonl [simp]: "length (htonl_bytes w) = 4"
  by (simp add: htonl_bytes_def)

lemma ntohl_four:
  "ntohl_bytes [a, b, c, d] =
     or (push_bit 24 (of_char a)) (or (push_bit 16 (of_char b)) (or (push_bit 8 (of_char c)) (of_char d)))"
  by (rule bit_word_eqI) (auto simp: ntohl_bytes_def bit_or_iff bit_push_bit_iff)

lemma unat_of_char [simp]: "unat (of_char c :: u32) = of_char c"
proof -
  have "(of_char c :: nat) < 256" by (rule nat_of_char_less_256)
  then have "(of_char c :: nat) < 2 ^ LENGTH(32)" by (rule less_trans) simp
  then have "unat (of_nat (of_char c) :: u32) = of_char c" by (rule unat_of_nat_small)
  then show ?thesis unfolding of_nat_of_char .
qed

lemma of_char_word_of_nat: "(of_char (char_of (unat w) :: char) :: u32) = take_bit 8 (w :: u32)"
proof (rule unsigned_word_eqI)
  have "unat (of_char (char_of (unat w) :: char) :: u32) = unat w mod 256"
    unfolding unat_of_char by simp
  also have "\<dots> = take_bit 8 (unat w)" by (simp add: take_bit_eq_mod)
  finally show "unat (of_char (char_of (unat w) :: char) :: u32) = unat (take_bit 8 w)"
    by (simp add: unsigned_take_bit_eq)
qed

lemma ntohl_htonl [simp]: "ntohl_bytes (htonl_bytes w) = w"
  unfolding htonl_bytes_def list.map ntohl_four of_char_word_of_nat
proof (rule bit_word_eqI)
  fix n assume "n < LENGTH(32)"
  then consider "n < 8" | "8 \<le> n" "n < 16" | "16 \<le> n" "n < 24" | "24 \<le> n" "n < 32" by fastforce
  then show "bit (or (push_bit 24 (take_bit 8 (drop_bit 24 w)))
      (or (push_bit 16 (take_bit 8 (drop_bit 16 w)))
        (or (push_bit 8 (take_bit 8 (drop_bit 8 w))) (take_bit 8 (drop_bit 0 w))))) n = bit w n"
    by cases (auto simp: bit_or_iff bit_push_bit_iff bit_take_bit_iff bit_drop_bit_eq)
qed

lemma of_char_bits: "take_bit 8 (of_char c :: u32) = of_char c"
proof (rule unsigned_word_eqI)
  have "unat (take_bit 8 (of_char c :: u32)) = take_bit 8 (unat (of_char c :: u32))"
    by (simp only: unsigned_take_bit_eq)
  also have "\<dots> = unat (of_char c :: u32)" unfolding unat_of_char by (simp add: take_bit_eq_mod)
  finally show "unat (take_bit 8 (of_char c :: u32)) = unat (of_char c :: u32)" .
qed

lemma of_char_bit_less: "bit (of_char c :: u32) i \<Longrightarrow> i < 8"
  by (metis of_char_bits bit_take_bit_iff)

lemma htonl_ntohl: "length bs = 4 \<Longrightarrow> htonl_bytes (ntohl_bytes bs) = bs"
proof -
  assume "length bs = 4"
  then obtain a b c d where bs: "bs = [a, b, c, d]"
    by (auto simp: length_Suc_conv numeral_eq_Suc)
  let ?w = "ntohl_bytes bs"
  have ch: "(char_of (unat v) :: char) = e" if "take_bit 8 v = (of_char e :: u32)" for v e
  proof -
    have "(of_char (char_of (unat v) :: char) :: u32) = of_char e" using of_char_word_of_nat [of v] that by simp
    then have "unat (of_char (char_of (unat v) :: char) :: u32) = unat (of_char e :: u32)" by simp
    then show ?thesis unfolding unat_of_char by (simp only: of_char_eq_iff)
  qed
  have "take_bit 8 (drop_bit 24 ?w) = of_char a" "take_bit 8 (drop_bit 16 ?w) = of_char b"
    "take_bit 8 (drop_bit 8 ?w) = of_char c" "take_bit 8 (drop_bit 0 ?w) = of_char d"
    unfolding bs ntohl_four
    by (rule bit_word_eqI; auto simp: bit_or_iff bit_push_bit_iff bit_take_bit_iff bit_drop_bit_eq dest: of_char_bit_less)+
  then show ?thesis using ch bs by (simp add: htonl_bytes_def)
qed
section \<open>Frames on the wire\<close>

definition frame_bytes :: "ipc_frame \<Rightarrow> string" where
  "frame_bytes f =
     htonl_bytes (word_of_nat (kFrameMetadataSize + length (frame_payload f))) @
     byte_text (frame_type_num (frame_type f)) @ htonl_bytes (frame_code f) @ frame_payload f"

definition wf_frame :: "ipc_frame \<Rightarrow> bool" where
  "wf_frame f \<longleftrightarrow> length (frame_payload f) \<le> kIpcMaximumPayload"

lemma frame_type_of_num [simp]: "frame_type_of_num (frame_type_num t) = t"
  by (cases t) (simp_all add: frame_type_of_num_def)

lemma frame_type_num_range: "1 \<le> frame_type_num t \<and> frame_type_num t \<le> 4"
  by (cases t) simp_all

lemma frame_type_num_of: "1 \<le> n \<Longrightarrow> n \<le> 4 \<Longrightarrow> frame_type_num (frame_type_of_num n) = n"
  by (auto simp: frame_type_of_num_def le_Suc_eq numeral_eq_Suc)

lemma wf_frame_size: "wf_frame f \<Longrightarrow> kFrameMetadataSize + length (frame_payload f) < 2 ^ 32"
  by (simp add: wf_frame_def kFrameMetadataSize_def kIpcMaximumPayload_def)

lemma length_frame_bytes: "length (frame_bytes f) = 9 + length (frame_payload f)"
  by (simp add: frame_bytes_def byte_text_def)

definition sends_prefix :: "int \<Rightarrow> string \<Rightarrow> hist \<Rightarrow> unit result \<Rightarrow> hist \<Rightarrow> bool" where
  "sends_prefix fd d h r h' \<longleftrightarrow> (\<exists>k \<le> length d. sent fd h' = sent fd h @ take k d \<and>
     (case r of Inr _ \<Rightarrow> k = length d | Inl e \<Rightarrow> err_code e = StateError))"

lemma sends_prefix_ok: "sends_prefix fd d h (Inr ()) h' \<longleftrightarrow> sent fd h' = sent fd h @ d"
  by (auto simp: sends_prefix_def)

lemma sends_prefix_fail: "sends_prefix fd d h (Inl e) h' \<Longrightarrow> sends_prefix fd (d @ d') h (Inl e) h'"
  unfolding sends_prefix_def by (elim exE, rule_tac x = k in exI) simp

lemma sends_prefix_after:
  assumes "sent fd h1 = sent fd h @ a" and "sends_prefix fd b h1 r h'"
  shows "sends_prefix fd (a @ b) h r h'"
proof -
  from assms(2) obtain k where k: "k \<le> length b" "sent fd h' = sent fd h1 @ take k b"
    "case r of Inr _ \<Rightarrow> k = length b | Inl e \<Rightarrow> err_code e = StateError"
    unfolding sends_prefix_def by blast
  with assms(1) show ?thesis
    unfolding sends_prefix_def by (intro exI [of _ "length a + k"]) (auto split: sum.splits)
qed

lemma sendAll_sends: "wp (sendAll S fd d h) (sends_prefix fd d h)"
  using sendAll_wp [of S fd d h] unfolding sends_prefix_def .

lemma sends_seq:
  assumes "\<And>h1. sent fd h1 = sent fd h @ a \<Longrightarrow> wp (K h1) (sends_prefix fd b h1)"
  shows "wp (Option.bind (sendAll S fd a h) (\<lambda>(r, h1). if \<not> ok r then Some (r, h1) else K h1))
    (sends_prefix fd (a @ b) h)"
  unfolding wp_simps prod.case
proof (rule wp_mono [OF sendAll_sends])
  fix r h1 assume sp: "sends_prefix fd a h r h1"
  show "if \<not> ok r then sends_prefix fd (a @ b) h r h1 else wp (K h1) (sends_prefix fd (a @ b) h)"
  proof (cases r)
    case (Inl e)
    with sp sends_prefix_fail [of fd a h e h1 b] show ?thesis by simp
  next
    case (Inr u)
    with sp have s: "sent fd h1 = sent fd h @ a" by (simp add: sends_prefix_ok)
    from wp_mono [OF assms [OF s], of "sends_prefix fd (a @ b) h"] sends_prefix_after [OF s] Inr
    show ?thesis by simp
  qed
qed

lemma sendIpcFrame_wp:
  "wp (sendIpcFrame S fd f h) (\<lambda>r h'.
     if wf_frame f then sends_prefix fd (frame_bytes f) h r h'
     else h' = h \<and> (\<exists>m. r = failure InvalidArguments m))"
proof (cases "wf_frame f")
  case False
  then show ?thesis by (simp add: sendIpcFrame_def wf_frame_def wp_simps)
next
  case True
  let ?a = "htonl_bytes (word_of_nat (kFrameMetadataSize + length (frame_payload f)))"
  let ?b = "byte_text (frame_type_num (frame_type f))"
  let ?c = "htonl_bytes (frame_code f)" and ?d = "frame_payload f"
  note small = wf_frame_size [OF True]
  have "wp (sendIpcFrame S fd f h) (sends_prefix fd (frame_bytes f) h)"
  proof -
    have last: "wp (Option.bind (sendAll S fd ?c g) (\<lambda>(r, h1). if \<not> ok r \<or> ?d = [] then Some (r, h1)
        else sendAll S fd ?d h1)) (sends_prefix fd (?c @ ?d) g)" for g
    proof (cases "?d = []")
      case True
      then show ?thesis using sendAll_sends [of S fd ?c g] by (simp add: wp_bind wp_Some)
    next
      case False
      with sends_seq [of fd g ?c "\<lambda>h1. sendAll S fd ?d h1" ?d S] sendAll_sends show ?thesis by simp
    qed
    have "sendIpcFrame S fd f h = Option.bind (sendAll S fd ?a h) (\<lambda>(r, h1). if \<not> ok r then Some (r, h1)
       else Option.bind (sendAll S fd ?b h1) (\<lambda>(r, h1). if \<not> ok r then Some (r, h1)
       else Option.bind (sendAll S fd ?c h1) (\<lambda>(r, h1). if \<not> ok r \<or> ?d = [] then Some (r, h1)
         else sendAll S fd ?d h1)))"
      using True small by (simp add: sendIpcFrame_def wf_frame_def)
    then show ?thesis unfolding frame_bytes_def
      by (simp only:) (intro sends_seq last)
  qed
  with True show ?thesis by simp
qed
lemma sendIpcFrame_returns: "signals_bounded S B \<Longrightarrow> returns (sendIpcFrame S fd f h)"
  by (auto simp: sendIpcFrame_def returns_bind wp_simps Let_def sendAll_returns intro!: wpI)

lemma receiveIpcFrame_returns: "signals_bounded S B \<Longrightarrow> returns (receiveIpcFrame S fd h)"
  by (auto simp: receiveIpcFrame_def returns_bind wp_simps Let_def receiveAll_returns
      intro!: wpI split: sum.splits)

text \<open>One part of a frame: it fails with what came so far, or gives the next \<open>n\<close> bytes.\<close>

lemma receives_part:
  assumes "recv_sized S fd"
    and "\<And>x h1. length x = n \<Longrightarrow> received fd h1 = received fd h @ x \<Longrightarrow> wp (K x h1) Q"
    and "\<And>x e h1. length x \<le> n \<Longrightarrow> received fd h1 = received fd h @ x \<Longrightarrow> err_code e = StateError \<Longrightarrow> Q (Inl e) h1"
  shows "wp (Option.bind (receiveAll S fd [] n h)
     (\<lambda>(r, h1). case r of Inl e \<Rightarrow> Some (Inl e, h1) | Inr x \<Rightarrow> K x h1)) Q"
  unfolding wp_simps prod.case
  by (rule wp_mono [OF receiveAll_wp [OF assms(1)]])
    (use assms(2,3) in \<open>auto split: sum.splits\<close>)

lemma one_byte: "length x = 1 \<Longrightarrow> byte_text (of_char (hd x)) = x"
  by (cases x) (auto simp: byte_text_def)

lemma frame_of_parts:
  assumes "length a = 4" "length b = 1" "length c = 4"
    and "kFrameMetadataSize \<le> unat (ntohl_bytes a)"
    and "length d = unat (ntohl_bytes a) - kFrameMetadataSize"
    and "1 \<le> (of_char (hd b) :: nat)" "(of_char (hd b) :: nat) \<le> 4"
  shows "frame_bytes \<lparr>frame_type = frame_type_of_num (of_char (hd b)), frame_code = ntohl_bytes c,
    frame_payload = d\<rparr> = a @ b @ c @ d"
proof -
  have "word_of_nat (kFrameMetadataSize + length d) = ntohl_bytes a"
    using assms(4,5) by simp
  then show ?thesis using assms htonl_ntohl one_byte [OF assms(2)]
    by (simp add: frame_bytes_def frame_type_num_of)
qed

lemma receiveIpcFrame_wp:
  assumes "recv_sized S fd"
  shows "wp (receiveIpcFrame S fd h) (\<lambda>r h'. \<exists>x. received fd h' = received fd h @ x \<and>
     length x \<le> 9 + kIpcMaximumPayload \<and>
     (case r of Inr f \<Rightarrow> wf_frame f \<and> x = frame_bytes f
              | Inl e \<Rightarrow> err_code e \<in> {StateError, InvalidArguments}))"
    (is "wp _ ?Q")
proof -
  have fail: "?Q (Inl e) h'" if "received fd h' = received fd h @ x" "length x \<le> 9 + kIpcMaximumPayload"
    "err_code e \<in> {StateError, InvalidArguments}" for x e h' using that by auto
  show ?thesis
    unfolding receiveIpcFrame_def Let_def
  proof (rule receives_part [OF assms], goal_cases)
    case (1 a h1)
    note a = 1
    show ?case
    proof (cases "unat (ntohl_bytes a) < kFrameMetadataSize \<or> kFrameMetadataSize + kIpcMaximumPayload < unat (ntohl_bytes a)")
      case True
      with fail [of h1 a] a show ?thesis by (simp add: wp_Some)
    next
      case size: False
      show ?thesis unfolding if_not_P [OF size]
      proof (rule receives_part [OF assms], goal_cases)
        case (1 b h2)
        note b = 1
        show ?case
        proof (rule receives_part [OF assms], goal_cases)
          case (1 c h3)
          have h3: "received fd h3 = received fd h @ (a @ b @ c)" using 1 a b by simp
          show ?case
          proof (cases "(of_char (hd b) :: nat) < frame_type_num FrameRequest \<or> frame_type_num FrameError < of_char (hd b)")
            case True
            with fail [OF h3] 1 a b show ?thesis by (simp add: wp_Some)
          next
            case type: False
            let ?n = "unat (ntohl_bytes a) - kFrameMetadataSize"
            let ?f = "\<lambda>d. \<lparr>frame_type = frame_type_of_num (of_char (hd b)), frame_code = ntohl_bytes c,
               frame_payload = d\<rparr>"
            have fb: "frame_bytes (?f d) = a @ b @ c @ d" "wf_frame (?f d)" if "length d = ?n" for d
              using frame_of_parts [of a b c d] that 1 a b size type by (auto simp: wf_frame_def)
            have done0: "?Q (Inr (?f d)) h4" if "length d = ?n" "received fd h4 = received fd h3 @ d" for d h4
              using fb [OF that(1)] that h3 length_frame_bytes [of "?f d"] by (auto simp: wf_frame_def)
            show ?thesis
            proof (cases "?n = 0")
              case True
              with type done0 [of "[]" h3] show ?thesis by (simp add: wp_Some)
            next
              case False
              show ?thesis unfolding if_not_P [OF type] if_not_P [OF False]
              proof (rule receives_part [OF assms], goal_cases)
                case (1 d h4)
                with done0 [of d h4] show ?case by (simp add: wp_Some)
              next
                case (2 d e h4)
                with h3 have "received fd h4 = received fd h @ (a @ b @ c @ d)" by simp
                moreover have "length d \<le> kIpcMaximumPayload" using 2(1) size by linarith
                  ultimately show ?case using fail [of h4 "a @ b @ c @ d" e] 2(3) a b \<open>length c = 4\<close> by simp
              qed
            qed
          qed
        next
          case (2 c e h3)
          with a b have "received fd h3 = received fd h @ (a @ b @ c)" by simp
          from fail [OF this] 2 a b show ?case by simp
        qed
      next
        case (2 b e h2)
        with a have "received fd h2 = received fd h @ (a @ b)" by simp
        from fail [OF this] 2 a show ?case by simp
      qed
    qed
  next
    case (2 a e h1)
    from fail [OF 2(2)] 2 show ?case by simp
  qed
qed
lemma receives_exactly:
  assumes "signals_bounded S B" and "stream_in S fd bs"
    and "bs = received fd h @ x @ y" and "length x = n"
    and "\<And>h1. received fd h1 = received fd h @ x \<Longrightarrow> twp (K x h1) Q"
  shows "twp (Option.bind (receiveAll S fd [] n h)
     (\<lambda>(r, h1). case r of Inl e \<Rightarrow> Some (Inl e, h1) | Inr x \<Rightarrow> K x h1)) Q"
  using twpD [OF receiveAll_twp [OF assms(1-4), of "[]"]] assms(5) by auto

lemma receiveIpcFrame_twp:
  assumes "signals_bounded S B" and "stream_in S fd bs"
    and "bs = received fd h @ frame_bytes f @ tl_bytes" and "wf_frame f"
  shows "twp (receiveIpcFrame S fd h) (\<lambda>r h'. r = Inr f \<and> received fd h' = received fd h @ frame_bytes f)"
proof -
  let ?a = "htonl_bytes (word_of_nat (kFrameMetadataSize + length (frame_payload f)))"
  let ?b = "byte_text (frame_type_num (frame_type f))"
  let ?c = "htonl_bytes (frame_code f)" and ?d = "frame_payload f"
  have size: "unat (ntohl_bytes ?a) = kFrameMetadataSize + length ?d"
    unfolding ntohl_htonl by (rule unat_of_nat_small) (use wf_frame_size [OF assms(4)] in simp)
  have type: "(of_char (hd ?b) :: nat) = frame_type_num (frame_type f)"
    using frame_type_num_range [of "frame_type f"] by (simp add: byte_text_def)
  have range: "\<not> (of_char (hd ?b) < frame_type_num FrameRequest \<or> frame_type_num FrameError < of_char (hd ?b))"
    using frame_type_num_range [of "frame_type f"] unfolding type by simp
  have ok_size: "\<not> (unat (ntohl_bytes ?a) < kFrameMetadataSize \<or> kFrameMetadataSize + kIpcMaximumPayload < unat (ntohl_bytes ?a))"
    using assms(4) unfolding size by (simp add: wf_frame_def)
  show ?thesis
    unfolding receiveIpcFrame_def Let_def
  proof (rule receives_exactly [OF assms(1,2), where x = ?a and y = "?b @ ?c @ ?d @ tl_bytes"], goal_cases)
    case (3 h1)
    note h1 = 3
    show ?case unfolding if_not_P [OF ok_size]
    proof (rule receives_exactly [OF assms(1,2), where x = ?b and y = "?c @ ?d @ tl_bytes"], goal_cases)
      case (3 h2)
      note h2 = 3
      show ?case
      proof (rule receives_exactly [OF assms(1,2), where x = ?c and y = "?d @ tl_bytes"], goal_cases)
        case (3 h3)
        note h3 = 3
        show ?case
        proof (cases "?d = []")
          case True
          then show ?thesis
            using h1 h2 h3 range size by (simp add: twp_def type frame_bytes_def)
        next
          case False
          then have ne: "unat (ntohl_bytes ?a) - kFrameMetadataSize \<noteq> 0" using size by simp
          show ?thesis unfolding if_not_P [OF range] if_not_P [OF ne]
            by (rule receives_exactly [OF assms(1,2), where x = ?d and y = tl_bytes])
              (use h1 h2 h3 assms(3) size type in \<open>simp_all add: twp_def frame_bytes_def\<close>)
        qed
      qed (use h1 h2 assms(3) in \<open>simp_all add: frame_bytes_def\<close>)
    qed (use h1 assms(3) in \<open>simp_all add: frame_bytes_def byte_text_def\<close>)
  qed (use assms(3) in \<open>simp_all add: frame_bytes_def\<close>)
qed
text \<open>A peer from which \<open>bs\<close> arrives one byte at a time.\<close>

definition stream_answer :: "string \<Rightarrow> hist \<Rightarrow> call \<Rightarrow> resp" where
  "stream_answer bs h c =
     (case c of
        CRecv fd n \<Rightarrow>
          (let x = drop (length (received fd h)) bs
           in if x = [] \<or> n = 0 then done_resp 0 [] else done_resp 1 [hd x])
      | _ \<Rightarrow> done_resp 0 [])"

definition stream_os :: "string \<Rightarrow> os" where
  "stream_os bs = (file_os empty_vfs)\<lparr>answer := stream_answer bs\<rparr>"

lemma stream_os_signals: "signals_bounded (stream_os bs) 0"
  by (auto simp: signals_bounded_def stream_os_def stream_answer_def done_resp_def Let_def
      split: call.splits)

lemma stream_os_sized: "recv_sized (stream_os bs) fd"
  by (auto simp: recv_sized_def stream_os_def stream_answer_def done_resp_def Let_def)

lemma stream_os_stream: "stream_in (stream_os bs) fd bs"
  by (auto simp: stream_in_def stream_os_def stream_answer_def done_resp_def Let_def neq_Nil_conv)

lemma sendAll_file_os: "d \<noteq> [] \<Longrightarrow>
  sendAll (file_os v) fd d h = Some (Inr (), (CWrite fd d, done_resp (int (length d)) []) # h)"
  by (subst sendAll.simps, subst sendAll.simps) (simp add: sys_def file_os_def file_answer_def done_resp_def)

section \<open>Properties\<close>

text \<open>C11: A frame is transferred intact. Where \<open>sendIpcFrame\<close> reported success on one side, and
  the other side's socket delivers the bytes that were written, in pieces of any size and with
  finitely many interruptions, \<open>receiveIpcFrame\<close> returns the same type, code and payload and
  has taken exactly the bytes of the frame, so the next frame starts where it ends.\<close>

theorem frame_transfer:
  assumes "sendIpcFrame SA fa f hA = Some (Inr (), hA')"
    and "stream_in SB fb (received fb hB @ drop (length (sent fa hA)) (sent fa hA'))"
    and "signals_bounded SB B"
  shows "twp (receiveIpcFrame SB fb hB) (\<lambda>r hB'. r = Inr f \<and>
    received fb hB' = received fb hB @ drop (length (sent fa hA)) (sent fa hA'))"
proof -
  have wf: "wf_frame f" and s: "sent fa hA' = sent fa hA @ frame_bytes f"
    using wpD [OF sendIpcFrame_wp assms(1)] by (auto simp: sends_prefix_ok split: if_splits)
  from receiveIpcFrame_twp [OF assms(3,2) _ wf, of hB "[]"] s show ?thesis by simp
qed

definition on_frame :: ipc_frame where
  "on_frame = \<lparr>frame_type = FrameRequest, frame_code = encodeCommand On, frame_payload = []\<rparr>"

definition on_frame_sent :: hist where
  "on_frame_sent = snd (the (sendIpcFrame (file_os empty_vfs) 3 on_frame []))"

theorem frame_transfer_witness:
  "twp (receiveIpcFrame (stream_os (sent 3 on_frame_sent)) 7 []) (\<lambda>r hB'. r = Inr on_frame \<and>
    received 7 hB' = received 7 [] @ drop (length (sent 3 [])) (sent 3 on_frame_sent))"
proof (rule frame_transfer [where SA = "file_os empty_vfs"])
  have "htonl_bytes w \<noteq> []" "byte_text n \<noteq> []" for w n by (simp_all add: htonl_bytes_def byte_text_def)
  then show "sendIpcFrame (file_os empty_vfs) 3 on_frame [] = Some (Inr (), on_frame_sent)"
    by (simp add: on_frame_sent_def sendIpcFrame_def on_frame_def sendAll_file_os Let_def
        kIpcMaximumPayload_def kFrameMetadataSize_def)
  show "stream_in (stream_os (sent 3 on_frame_sent)) 7
      (received 7 [] @ drop (length (sent 3 [])) (sent 3 on_frame_sent))"
    using stream_os_stream by simp
qed (rule stream_os_signals)

text \<open>C12: Receiving is safe against any peer. Whatever bytes come, \<open>receiveIpcFrame\<close> returns, has
  taken at most the bytes of a largest frame (9 bytes and 64 KiB), and either gives a frame whose payload is
  within 64 KiB and whose encoding is exactly the bytes taken, or an error that is \<open>StateError\<close>
  or \<open>InvalidArguments\<close>.\<close>

theorem receive_any_peer:
  assumes "recv_sized S fd" and "signals_bounded S B"
  shows "twp (receiveIpcFrame S fd h) (\<lambda>r h'. \<exists>x. received fd h' = received fd h @ x \<and>
     length x \<le> 9 + kIpcMaximumPayload \<and>
     (case r of Inr f \<Rightarrow> wf_frame f \<and> x = frame_bytes f
              | Inl e \<Rightarrow> err_code e \<in> {StateError, InvalidArguments}))"
  by (rule twpI [OF receiveIpcFrame_returns [OF assms(2)] receiveIpcFrame_wp [OF assms(1)]])

theorem receive_any_peer_witness:
  "twp (receiveIpcFrame (stream_os ''GET / HTTP/1.1'') 7 []) (\<lambda>r h'. \<exists>x. received 7 h' = received 7 [] @ x \<and>
     length x \<le> 9 + kIpcMaximumPayload \<and>
     (case r of Inr f \<Rightarrow> wf_frame f \<and> x = frame_bytes f
              | Inl e \<Rightarrow> err_code e \<in> {StateError, InvalidArguments}))"
  by (rule receive_any_peer [OF stream_os_sized stream_os_signals])

text \<open>C13: Sending writes the frame's bytes and nothing else: \<open>sendIpcFrame\<close> returns; success means
  that exactly the encoding of the frame was written, in spite of partial writes and
  interruptions; failure that a prefix of it was; and a payload above 64 KiB is refused before
  any byte is written.\<close>

theorem send_exact:
  assumes "signals_bounded S B"
  shows "twp (sendIpcFrame S fd f h) (\<lambda>r h'.
    if wf_frame f then \<exists>k \<le> length (frame_bytes f). sent fd h' = sent fd h @ take k (frame_bytes f) \<and>
      (case r of Inr _ \<Rightarrow> k = length (frame_bytes f) | Inl e \<Rightarrow> err_code e = StateError)
    else h' = h \<and> (\<exists>m. r = failure InvalidArguments m))"
  using twpI [OF sendIpcFrame_returns [OF assms] sendIpcFrame_wp] unfolding sends_prefix_def .

theorem send_exact_witness:
  "twp (sendIpcFrame (file_os empty_vfs) 3 on_frame []) (\<lambda>r h'.
    if wf_frame on_frame then \<exists>k \<le> length (frame_bytes on_frame).
      sent 3 h' = sent 3 [] @ take k (frame_bytes on_frame) \<and>
      (case r of Inr _ \<Rightarrow> k = length (frame_bytes on_frame) | Inl e \<Rightarrow> err_code e = StateError)
    else h' = [] \<and> (\<exists>m. r = failure InvalidArguments m))"
  by (rule send_exact [OF file_os_signals])

end
