(* ===== verification/Controller.thy ===== *)
theory Controller
  imports ProxyManager Ipc
begin

text \<open>
  \<^verbatim>\<open>src/controller.cpp\<close>: the six commands, as the daemon and the client in direct mode execute
  them. Queries look; the other commands work under the operation lock, which is given up on every
  path.

  The member \<^verbatim>\<open>paths_\<close> is the argument \<open>P\<close>; the managers are constructed with the released
  core's manifest.
\<close>

section \<open>Texts\<close>

definition formatStatus :: "proxy_status \<Rightarrow> string" where
  "formatStatus status =
     ''Status: '' @ (if ps_running status then ''ON'' else ''OFF'') @ [nl] @
     (if ps_upstream status \<noteq> [] then
        ''Upstream: '' @ ps_upstream status @
        (if ps_running status \<and> ps_upstream_address status \<noteq> [] then
           '' ('' @ ps_upstream_address status @ '')''
         else []) @ [nl]
      else []) @
     (if ps_running status then
        ''Core: sing-box '' @ ps_core_version status @ [nl] @
        ''PID: '' @ show_int (ps_pid status) @ [nl] @
        ''Routing: '' @ ps_routing_mode status @ [nl] @
        ''Bypass: '' @ show_nat (length (ps_bypass_cidrs status)) @ '' CIDRs'' @ [nl]
      else if ps_core_installed status then
        ''Core: sing-box '' @ ps_core_version status @ [nl]
      else ''Core: not installed'' @ [nl])"

definition rejectArgument :: "string \<Rightarrow> string \<Rightarrow> string result" where
  "rejectArgument argument command =
     (if argument \<noteq> [] then failure InvalidArguments (command @ '' takes no argument'') else success [])"

definition bypass_report :: "bool \<Rightarrow> string \<Rightarrow> string list \<Rightarrow> string" where
  "bypass_report active pinned cidrs =
     ''Bypass: '' @ (if active then ''active'' else ''preview'') @ '', '' @ show_nat (length cidrs) @
     '' CIDRs'' @ [nl] @
     (if pinned \<noteq> [] then ''Upstream: '' @ pinned @ [nl] else []) @
     concat (map (\<lambda>cidr. ''  '' @ cidr @ [nl]) cidrs)"

section \<open>The commands\<close>

definition status_command :: "os \<Rightarrow> app_paths \<Rightarrow> string \<Rightarrow> hist \<Rightarrow> string result run" where
  "status_command S P argument h =
     (case rejectArgument argument ''status'' of Inl e \<Rightarrow> Some (Inl e, h)
      | Inr _ \<Rightarrow> do {
          (status, h) \<leftarrow> proxy_status_of S P kSingBoxRelease h;
          case status of Inl e \<Rightarrow> Some (Inl e, h)
          | Inr st \<Rightarrow> Some (success (formatStatus st), h)
        })"

definition bypass_command :: "os \<Rightarrow> app_paths \<Rightarrow> string \<Rightarrow> hist \<Rightarrow> string result run" where
  "bypass_command S P argument h =
     (case rejectArgument argument ''bypass'' of Inl e \<Rightarrow> Some (Inl e, h)
      | Inr _ \<Rightarrow> do {
          (status, h) \<leftarrow> proxy_status_of S P kSingBoxRelease h;
          case status of Inl e \<Rightarrow> Some (Inl e, h)
          | Inr st \<Rightarrow>
              if ps_running st \<and> ps_bypass_cidrs st \<noteq> [] then
                let pinned =
                  (if ps_upstream_address st \<noteq> [] then
                     (case addressHostCidr (inet_of S) (ps_upstream_address st) of
                        Inl _ \<Rightarrow> [] | Inr cidr \<Rightarrow> cidr)
                   else [])
                in Some (success (bypass_report True pinned (ps_bypass_cidrs st)), h)
              else do {
                (preview, h) \<leftarrow> collectBypassPolicy S [] (tun_interface P) h;
                case preview of Inl e \<Rightarrow> Some (Inl e, h)
                | Inr policy \<Rightarrow>
                    Some (success (bypass_report False [] (allCidrs (inet_of S) policy)), h)
              }
        })"

definition setting_query :: "os \<Rightarrow> app_paths \<Rightarrow> string \<Rightarrow> hist \<Rightarrow> string result run" where
  "setting_query S P argument h =
     (case rejectArgument argument ''setting query'' of Inl e \<Rightarrow> Some (Inl e, h)
      | Inr _ \<Rightarrow> do {
          (current, h) \<leftarrow> load_config S P h;
          case current of Inl e \<Rightarrow> Some (Inl e, h)
          | Inr u \<Rightarrow> Some (success (formatUpstreamUri u), h)
        })"

definition setting_update :: "os \<Rightarrow> app_paths \<Rightarrow> string \<Rightarrow> hist \<Rightarrow> string result run" where
  "setting_update S P argument h =
     (if argument = [] then
        Some (failure InvalidArguments ''setting requires an upstream URI'', h)
      else (case parseUpstreamUri argument of Inl e \<Rightarrow> Some (Inl e, h)
      | Inr u \<Rightarrow> do {
          (saved, h) \<leftarrow> save_config S P u h;
          case saved of Inl e \<Rightarrow> Some (Inl e, h)
          | Inr _ \<Rightarrow> Some (success (''Upstream: '' @ formatUpstreamUri u @ [nl]), h)
        }))"

definition proxy_command ::
  "os \<Rightarrow> app_paths \<Rightarrow> command \<Rightarrow> string \<Rightarrow> log_callback \<Rightarrow> hist \<Rightarrow> string result run" where
  "proxy_command S P command argument L h =
     (case rejectArgument argument ''command'' of Inl e \<Rightarrow> Some (Inl e, h)
      | Inr _ \<Rightarrow>
          if command = Off then do {
            (stopped, h) \<leftarrow> stop_proxy S P L h;
            case stopped of Inl e \<Rightarrow> Some (Inl e, h)
            | Inr _ \<Rightarrow> Some (success (''Status: OFF'' @ [nl]), h)
          }
          else if command = On then do {
            (newly, h) \<leftarrow> start_proxy S P kSingBoxRelease L h;
            case newly of Inl e \<Rightarrow> Some (Inl e, h)
            | Inr status \<Rightarrow> Some (success (formatStatus status), h)
          }
          else Some (failure InvalidArguments ''unknown command'', h))"

text \<open>The destructor of the lock runs on every way out of the function.\<close>

definition execute_command ::
  "os \<Rightarrow> app_paths \<Rightarrow> command \<Rightarrow> string \<Rightarrow> log_callback \<Rightarrow> hist \<Rightarrow> string result run" where
  "execute_command S P command argument logger h =
     (if command = Status then status_command S P argument h
      else if command = Bypass then bypass_command S P argument h
      else if command = GetSetting then setting_query S P argument h
      else do {
        (lock, h) \<leftarrow> acquire_lock S (lock_file P)
          (Some (\<lambda>h. emitLog logger Info ''Waiting for another operation to finish'' h)) h;
        case lock of Inl e \<Rightarrow> Some (Inl e, h)
        | Inr descriptor \<Rightarrow> do {
            (result, h) \<leftarrow> (if command = SetSetting then setting_update S P argument h
              else proxy_command S P command argument logger h);
            (_, h) \<leftarrow> release_lock S descriptor h;
            Some (result, h)
          }
      })"

section \<open>Looking, changing and locking\<close>

text \<open>Calls that only look at the system.\<close>

fun looks :: "call \<Rightarrow> bool" where
  "looks (CReadFile p) = True"
| "looks (CReadSymlink p) = True"
| "looks (CCanonical p) = True"
| "looks (CSymlinkStatus p) = True"
| "looks (CKill p s) = (s = 0)"
| "looks CGetIfAddrs = True"
| "looks _ = False"

text \<open>
  Calls that start or signal a process, or put a file in the place of another, or remove one. Not
  among them: creating directories and setting their modes, opening or creating files and writing to
  them (the temporary file of a replacement, the lock file, messages). The lock file and its
  directory are needed to take the lock; \<open>lock_step\<close> below says exactly what is done for that.
\<close>

fun changes :: "call \<Rightarrow> bool" where
  "changes (CFork c) = True"
| "changes (CKill p s) = (s \<noteq> 0)"
| "changes (CRename a b) = True"
| "changes (CUnlink p) = True"
| "changes (CRemove p) = True"
| "changes (CRemoveAll p) = True"
| "changes (CMknod p a b) = True"
| "changes _ = False"

fun locking :: "call \<Rightarrow> bool" where
  "locking (CFlock fd op) = True"
| "locking _ = False"

text \<open>The descriptors on which an exclusive lock was obtained and not yet given up.\<close>

fun holders :: "hist \<Rightarrow> int set" where
  "holders [] = {}"
| "holders (e # h) =
     (case e of
        (CFlock fd LockUn, r) \<Rightarrow> holders h - {fd}
      | (CFlock fd op, r) \<Rightarrow> if r_ret r = 0 then insert fd (holders h) else holders h
      | _ \<Rightarrow> holders h)"

lemma holders_Cons: "\<not> locking c \<Longrightarrow> holders ((c, a) # h) = holders h"
  by (cases c) simp_all

lemma looks_harmless: "looks c \<Longrightarrow> \<not> changes c \<and> \<not> locking c \<and> \<not> thread_call c"
  by (cases c rule: looks.cases) simp_all

lemma logging_harmless: "log_call c \<Longrightarrow> \<not> changes c \<and> \<not> locking c \<and> \<not> thread_call c"
  by (cases c rule: log_call.cases) simp_all

lemma proxy_not_locking: "proxy_ok S P M c h \<Longrightarrow> \<not> locking c"
  by (cases c) simp_all

lemma still_not_locking: "still_call c \<Longrightarrow> \<not> locking c"
  by (cases c) simp_all

abbreviation lockless :: "event \<Rightarrow> hist \<Rightarrow> bool" where
  "lockless \<equiv> \<lambda>e g. \<not> locking (fst e)"

abbreviation under_lock :: "event \<Rightarrow> hist \<Rightarrow> bool" where
  "under_lock \<equiv> \<lambda>e g. if changes (fst e) then holders g \<noteq> {} else True"

lemma guarded_lockless: "guarded lockless h h' \<Longrightarrow> holders h' = holders h"
proof (induction rule: guarded.induct)
  case (guarded_Cons h' e)
  then show ?case by (cases e) (simp add: holders_Cons del: holders.simps)
qed simp

text \<open>What takes no lock itself may run while one is held.\<close>

lemma run_locked:
  assumes m: "gwp lockless h m R" and held: "holders h \<noteq> {}"
  shows "gwp under_lock h m (\<lambda>_ h'. holders h' = holders h)"
proof -
  have "guarded under_lock h h'" if "guarded lockless h h'" for h'
    using that
  proof (induction rule: guarded.induct)
    case (guarded_Cons h' e)
    from held guarded_lockless [OF guarded_Cons(1)] have "holders h' \<noteq> {}" by simp
    with guarded_Cons(3) show ?case by (intro guarded.guarded_Cons) simp_all
  qed simp
  then show ?thesis
    unfolding gwp_def by (intro wp_mono [OF m [unfolded gwp_def]]) (use guarded_lockless in blast)
qed

abbreviation unchanging :: "event \<Rightarrow> hist \<Rightarrow> bool" where
  "unchanging \<equiv> \<lambda>e g. \<not> changes (fst e) \<and> \<not> thread_call (fst e)"

lemma of_unchanging: "gwp unchanging h m R \<Longrightarrow> gwp under_lock h m R"
  by (erule gwp_weaken) simp

lemma lock_wait_unchanging:
  "gwp unchanging h (lock_wait S fd h) (\<lambda>r h'. case r of Inl e \<Rightarrow> holders h' = holders h | Inr d \<Rightarrow> d = fd \<and> holders h' = insert fd (holders h))"
proof -
  let ?R = "\<lambda>fd h r h'. case r of Inl e \<Rightarrow> holders h' = holders h | Inr d \<Rightarrow> d = fd \<and> holders h' = insert fd (holders h)"
  have "gwp unchanging h (Some res) (?R fd h)" if ret: "lock_wait S fd h = Some res" for res
  proof (rule lock_wait.raw_induct [where P = "\<lambda>S fd h res. gwp unchanging h (Some res) (?R fd h)", OF _ ret], goal_cases)
    case (1 f S fd h res)
    have rec: "gwp unchanging g (f S fd g) (?R fd g)" for g
      using 1(1) by (cases "f S fd g") (auto simp: gwp_None)
    show ?case unfolding 1(2) [symmetric]
      by (intro gwp_intros gwp_mono [OF rec]) (auto split: sum.splits)
  qed
  then show ?thesis by (cases "lock_wait S fd h") (auto simp: gwp_None)
qed

lemma directory_harmless: "directory_event e \<Longrightarrow> \<not> changes (fst e) \<and> \<not> locking (fst e) \<and> \<not> thread_call (fst e)"
  by (auto simp: directory_event_def split: call.splits)


lemma directory_unchanging:
  "gwp unchanging h (ensureDirectory S p mode h) (\<lambda>_ h'. holders h' = holders h)"
proof -
  have "wp (ensureDirectory S p mode h) (\<lambda>_ h'. guarded unchanging h h' \<and> guarded lockless h h')"
    by (rule wp_mono [OF ensureDirectory_emits]) (auto dest: directory_harmless intro: emits_guarded)
  then show ?thesis unfolding gwp_def by (rule wp_mono) (auto dest: guarded_lockless)
qed

lemma emitLog_unchanging:
  assumes "quiet_logger L"
  shows "gwp unchanging h (emitLog L l m h) (\<lambda>_ h'. holders h' = holders h)"
proof -
  have "wp (emitLog L l m h) (\<lambda>_ h'. guarded unchanging h h' \<and> guarded lockless h h')"
    by (rule wp_mono [OF emitLog_wp [OF assms]]) (auto dest: logging_harmless intro: emits_guarded)
  then show ?thesis unfolding gwp_def by (rule wp_mono) (auto dest: guarded_lockless)
qed

text \<open>Taking the lock changes nothing; afterwards it is held, or nothing is.\<close>

lemma acquire_unchanging:
  assumes "quiet_logger L"
  shows "gwp unchanging h (acquire_lock S path (Some (\<lambda>h. emitLog L l m h)) h)
    (\<lambda>r h'. holders h' = (case r of Inl e \<Rightarrow> holders h | Inr fd \<Rightarrow> insert fd (holders h)) \<and>
      (\<forall>fd. r = Inr fd \<longrightarrow> 0 \<le> fd))"
proof -
  have wait: "gwp unchanging g (if b then emitLog L l m g else Some ((), g)) (\<lambda>_ h'. holders h' = holders g)" for b g
    by (intro gwp_if gwp_ret emitLog_unchanging [OF assms]) simp
  have got: "gwp unchanging g (lock_wait S fd g)
      (\<lambda>r h'. holders h' = (case r of Inl e \<Rightarrow> holders h | Inr fd \<Rightarrow> insert fd (holders h)) \<and>
        (\<forall>fd. r = Inr fd \<longrightarrow> 0 \<le> fd))" if "holders g = holders h" "0 \<le> fd" for g fd
    by (rule gwp_mono [OF lock_wait_unchanging]) (use that in \<open>auto split: sum.splits\<close>)
  show ?thesis
    unfolding acquire_lock_def option.case
    by (intro gwp_intros gwp_bind [OF directory_unchanging] gwp_bind [OF wait] got) (auto simp: holders_Cons)
qed


lemma release_lock_ends:
  assumes "fd \<in> holders h \<Longrightarrow> 0 \<le> fd"
  shows "gwp unchanging h (release_lock S fd h) (\<lambda>_ h'. holders h' = holders h - {fd})"
  unfolding release_lock_def by (intro gwp_intros) (use assms in auto)

lemma setting_update_lockless: "gwp lockless h (setting_update S P argument h) (\<lambda>_ _. True)"
proof -
  have dir: "gwp lockless g (ensureDirectory S p mode g) (\<lambda>_ _. True)" for p mode g
    by (rule gwp_emits [OF ensureDirectory_emits]) (auto dest: directory_harmless)
  have save: "gwp lockless g (save_config S P u g) (\<lambda>_ _. True)" for u g
    unfolding save_config_def
    by (intro gwp_intros gwp_bind [OF dir] writeFileAtomic_guard TrueI)
      (auto dest: still_not_locking)
  show ?thesis
    unfolding setting_update_def by (intro gwp_intros gwp_bind [OF save] TrueI)
qed

lemma proxy_command_lockless:
  assumes "fresh_kernel S" and "quiet_logger L"
  shows "gwp lockless h (proxy_command S P c argument L h) (\<lambda>_ _. True)"
  unfolding proxy_command_def
  by (intro gwp_intros gwp_bind [OF gwp_weaken [OF stop_proxy_proxy [OF assms(2)]]]
      gwp_bind [OF gwp_weaken [OF start_proxy_proxy [OF assms]]] TrueI) (auto dest: proxy_not_locking)

abbreviation looking :: "event \<Rightarrow> hist \<Rightarrow> bool" where
  "looking \<equiv> \<lambda>e g. looks (fst e)"

lemma load_config_looks: "gwp looking h (load_config S P h) (\<lambda>_ _. True)"
  unfolding load_config_def readTextFile_def
  by (intro gwp_intros gwp_bind [where m = "Option.bind _ _" and Q = "\<lambda>_ _. True"] TrueI) simp_all

lemma status_looks: "gwp looking h (proxy_status_of S P M h) (\<lambda>_ _. True)"
proof -
  have check: "gwp looking g (isManagedProcessRunning S st g) (\<lambda>_ _. True)" for st g
  proof (rule gwp_emits)
    show "wp (isManagedProcessRunning S st g) (\<lambda>_. emits (check_event st) g)"
      by (rule wp_mono [OF isManaged_emits]) simp
  qed (auto simp: check_event_def)
  show ?thesis
    unfolding proxy_status_of_def load_runtime_def readTextFile_def
    by (intro gwp_intros gwp_prod gwp_bind [OF load_config_looks] gwp_bind [OF check]
        gwp_bind [where m = "Option.bind _ _" and Q = "\<lambda>_ _. True"] TrueI) simp_all
qed

lemma queries_look:
  "gwp looking h (status_command S P argument h) (\<lambda>_ _. True)"
  "gwp looking h (bypass_command S P argument h) (\<lambda>_ _. True)"
  "gwp looking h (setting_query S P argument h) (\<lambda>_ _. True)"
proof -
  have collect: "gwp looking g (collectBypassPolicy S a i g) (\<lambda>_ _. True)" for a i g
    unfolding collectBypassPolicy_def collectInterfaceAddresses_def
    by (intro gwp_intros gwp_bind [where m = "Option.bind _ _" and Q = "\<lambda>_ _. True"] TrueI) simp_all
  note steps = gwp_intros gwp_bind [OF status_looks] gwp_bind [OF load_config_looks] gwp_bind [OF collect] TrueI
  show "gwp looking h (status_command S P argument h) (\<lambda>_ _. True)"
    unfolding status_command_def by (intro steps)
  show "gwp looking h (bypass_command S P argument h) (\<lambda>_ _. True)"
    unfolding bypass_command_def by (intro steps)
  show "gwp looking h (setting_query S P argument h) (\<lambda>_ _. True)"
    unfolding setting_query_def by (intro steps)
qed


section \<open>The whole command\<close>

lemma locked_body:
  assumes k: "fresh_kernel S" and L: "quiet_logger L" and held: "holders h = {fd}"
  shows "gwp under_lock h (if b then setting_update S P argument h else proxy_command S P c argument L h)
    (\<lambda>_ h'. holders h' = {fd})"
proof -
  have ne: "holders h \<noteq> {}" using held by simp
  show ?thesis
    using run_locked [OF setting_update_lockless ne, of S P argument]
      run_locked [OF proxy_command_lockless [OF k L] ne, of P c argument] unfolding held by simp
qed

lemma execute_under_lock:
  assumes k: "fresh_kernel S" and L: "quiet_logger L" and free: "holders h = {}"
  shows "gwp under_lock h (execute_command S P c argument L h) (\<lambda>_ h'. holders h' = {})"
proof -
  have query: "gwp under_lock h m (\<lambda>_ h'. holders h' = {})" if m: "gwp looking h m (\<lambda>_ _. True)" for m :: "string result run"
  proof -
    have "guarded under_lock h h' \<and> holders h' = {}" if g: "guarded looking h h'" for h'
    proof
      show "guarded under_lock h h'" by (rule guarded_mono [OF g]) (simp add: looks_harmless)
      have "guarded lockless h h'" by (rule guarded_mono [OF g]) (simp add: looks_harmless)
      then show "holders h' = {}" using guarded_lockless free by simp
    qed
    then show ?thesis unfolding gwp_def by (intro wp_mono [OF m [unfolded gwp_def]]) blast
  qed
  show ?thesis
    unfolding execute_command_def
    by (intro gwp_intros query queries_look gwp_bind [OF of_unchanging [OF acquire_unchanging [OF L]]]
        gwp_bind [OF locked_body [OF k L]] gwp_bind [OF of_unchanging [OF release_lock_ends]])
      (auto simp: free)
qed

text \<open>A command whose argument is not what it takes.\<close>

definition bad_argument :: "command \<Rightarrow> string \<Rightarrow> bool" where
  "bad_argument c argument \<longleftrightarrow>
     (if c = SetSetting then argument = [] \<or> \<not> ok (parseUpstreamUri argument) else argument \<noteq> [])"

lemma bad_argument_refused:
  assumes "bad_argument c argument"
  shows "c \<noteq> SetSetting \<Longrightarrow> \<exists>e. rejectArgument argument t = Inl e \<and> err_code e \<in> {InvalidArguments, InvalidConfiguration}"
    and "c = SetSetting \<Longrightarrow> \<exists>e. setting_update S P argument h = Some (Inl e, h) \<and> err_code e \<in> {InvalidArguments, InvalidConfiguration}"
  using assms parse_error [of argument]
  by (auto simp: bad_argument_def rejectArgument_def setting_update_def ok_def split: sum.splits)

lemma queries_return:
  "returns (status_command S P argument h)" "returns (bypass_command S P argument h)" "returns (setting_query S P argument h)"
proof -
  have collect: "returns (collectBypassPolicy S a i g)" for a i g
    unfolding collectBypassPolicy_def collectInterfaceAddresses_def
    by (auto simp: returns_bind intro!: wpI split: sum.splits)
  show "returns (status_command S P argument h)"
    unfolding status_command_def by (auto simp: returns_bind status_returns intro!: wpI split: sum.splits)
  show "returns (bypass_command S P argument h)"
    unfolding bypass_command_def Let_def
    by (auto simp: returns_bind status_returns collect intro!: wpI split: sum.splits)
  show "returns (setting_query S P argument h)"
    unfolding setting_query_def by (auto simp: returns_bind load_config_returns intro!: wpI split: sum.splits)
qed

lemma setting_update_returns: "signals_bounded S B \<Longrightarrow> returns (setting_update S P argument h)"
  unfolding setting_update_def by (auto simp: returns_bind save_config_returns intro!: wpI split: sum.splits)

lemma proxy_command_returns:
  assumes "ticking S" "output_bounded S N" "quiet_logger L" "signals_bounded S B"
  shows "returns (proxy_command S P c argument L h)"
  unfolding proxy_command_def
  by (auto simp: returns_bind start_proxy_returns [OF assms] stop_proxy_returns [OF assms(3)] intro!: wpI split: sum.splits)

lemma release_lock_returns: "returns (release_lock S fd h)"
  by (simp add: release_lock_def returns_bind wp_sys)

lemma acquire_returns:
  assumes "quiet_logger L" "signals_bounded S B"
  shows "returns (acquire_lock S path (Some (\<lambda>h. emitLog L l m h)) h)"
  by (rule acquire_lock_returns [OF assms(2)])
    (simp add: logs_only_def emitLog_returns [OF assms(1)] emitLog_wp [OF assms(1)])

lemma execute_returns:
  assumes "ticking S" "output_bounded S N" "quiet_logger L" "signals_bounded S B"
  shows "returns (execute_command S P c argument L h)"
  unfolding execute_command_def
  by (auto simp: returns_bind queries_return acquire_returns [OF assms(3,4)] setting_update_returns [OF assms(4)]
      proxy_command_returns [OF assms] release_lock_returns intro!: wpI split: sum.splits)


section \<open>A bad argument\<close>

text \<open>The descriptor of the lock file, as opened before.\<close>

definition lock_open :: "app_paths \<Rightarrow> call" where
  "lock_open P = COpen (lock_file P) [O_RDWR, O_CREAT, O_CLOEXEC, O_NOFOLLOW] 384"

definition lock_fd :: "app_paths \<Rightarrow> int \<Rightarrow> hist \<Rightarrow> bool" where
  "lock_fd P fd g \<longleftrightarrow> (\<exists>a. (lock_open P, a) \<in> set g \<and> r_ret a = fd)"

text \<open>
  What taking and giving up the operation lock calls, from \<open>h\<close> on: it writes messages, creates the
  directory of the lock file without following links, opens or creates the lock file, and locks,
  unlocks and closes it.
\<close>

definition lock_step :: "app_paths \<Rightarrow> hist \<Rightarrow> event \<Rightarrow> hist \<Rightarrow> bool" where
  "lock_step P h e g \<longleftrightarrow>
     log_call (fst e) \<or> fst e = lock_open P \<or>
     (\<exists>fd. lock_fd P fd g \<and> ((\<exists>op. fst e = CFlock fd op) \<or> fst e = CClose fd)) \<or>
     directory_guard (parent_path (lock_file P)) 493 h e g"

lemma lock_fd_mono: "lock_fd P fd h \<Longrightarrow> extends h g \<Longrightarrow> lock_fd P fd g"
  by (auto simp: lock_fd_def extends_def)

lemma lock_fd_opened [simp]: "lock_fd P (r_ret a) ((lock_open P, a) # g)"
  by (auto simp: lock_fd_def)

lemma lock_fd_Cons [simp]: "lock_fd P fd g \<Longrightarrow> lock_fd P fd (e # g)"
  by (auto simp: lock_fd_def)

lemma lock_step_simps [simp]:
  "log_call c \<Longrightarrow> lock_step P h (c, a) g"
  "lock_step P h (lock_open P, a) g"
  "lock_fd P fd g \<Longrightarrow> lock_step P h (CFlock fd op, a) g"
  "lock_fd P fd g \<Longrightarrow> lock_step P h (CClose fd, a) g"
  by (auto simp: lock_step_def)

lemma lock_wait_steps:
  assumes "lock_fd P fd g"
  shows "gwp (lock_step P h) g (lock_wait S fd g) (\<lambda>r g'. \<forall>d. r = Inr d \<longrightarrow> lock_fd P d g')"
proof -
  let ?R = "\<lambda>r g'. \<forall>d. r = Inr d \<longrightarrow> lock_fd P d g'"
  have "lock_fd P fd g \<longrightarrow> gwp (lock_step P h) g (Some res) ?R" if ret: "lock_wait S fd g = Some res" for res
  proof (rule lock_wait.raw_induct [where P = "\<lambda>S fd g res. lock_fd P fd g \<longrightarrow> gwp (lock_step P h) g (Some res) ?R",
        OF _ ret], intro impI, goal_cases)
    case (1 f S fd g res)
    have rec: "gwp (lock_step P h) k (f S fd k) ?R" if "lock_fd P fd k" for k
      using 1(1) that by (cases "f S fd k") (auto simp: gwp_None)
    show ?case unfolding 1(2) [symmetric]
      by (intro gwp_intros rec) (use 1(3) in auto)
  qed
  with assms show ?thesis by (cases "lock_wait S fd g") (auto simp: gwp_None)
qed

lemma acquire_lock_steps:
  assumes L: "quiet_logger L" and p: "is_absolute (parent_path (lock_file P))"
  shows "gwp (lock_step P h) h (acquire_lock S (lock_file P) (Some (\<lambda>h. emitLog L l m h)) h)
    (\<lambda>r h'. \<forall>fd. r = Inr fd \<longrightarrow> lock_fd P fd h')"
proof -
  have dir: "gwp (lock_step P h) h (ensureDirectory S (parent_path (lock_file P)) 493 h) (\<lambda>_ _. True)"
    by (rule gwp_weaken [OF gwp_True [OF ensureDirectory_gwp [OF p]]]) (simp add: lock_step_def)
  have log: "gwp (lock_step P h) g (if b then emitLog L l m g else Some ((), g)) (\<lambda>_ _. True)" for b g
    by (intro gwp_if gwp_ret TrueI gwp_emits [OF emitLog_wp [OF L]]) (auto simp: lock_step_def)
  show ?thesis
    unfolding acquire_lock_def option.case lock_open_def [symmetric]
    by (intro gwp_intros gwp_bind [OF dir] gwp_bind [OF log] lock_wait_steps)
      (auto elim: lock_fd_mono [rotated])
qed

lemma release_lock_steps:
  "lock_fd P fd g \<Longrightarrow> gwp (lock_step P h) g (release_lock S fd g) (\<lambda>_ _. True)"
  unfolding release_lock_def by (intro gwp_intros TrueI) auto

lemma execute_bad_argument:
  assumes L: "quiet_logger L" and bad: "bad_argument c argument" and p: "is_absolute (parent_path (lock_file P))"
    and c: "c \<noteq> Status" "c \<noteq> Bypass" "c \<noteq> GetSetting"
  shows "gwp (lock_step P h) h (execute_command S P c argument L h) (\<lambda>r _. \<not> ok r)"
proof -
  note refused = bad_argument_refused [OF bad]
  have body: "gwp (lock_step P h) g (if c = SetSetting then setting_update S P argument g else proxy_command S P c argument L g)
    (\<lambda>r h'. \<not> ok r \<and> h' = g)" for g
    using refused(1) [of "''command''"] refused(2) [of S P g]
    by (auto simp: proxy_command_def gwp_ret)
  show ?thesis
    unfolding execute_command_def using c
    by (auto intro!: gwp_intros gwp_bind [OF acquire_lock_steps [OF L p]] gwp_bind [OF body]
        gwp_bind [OF release_lock_steps])
qed

lemma query_bad_argument:
  assumes "bad_argument c argument" and "c = Status \<or> c = Bypass \<or> c = GetSetting"
  shows "\<exists>e. execute_command S P c argument L h = Some (Inl e, h) \<and> err_code e = InvalidArguments"
  using assms
  by (auto simp: bad_argument_def rejectArgument_def execute_command_def status_command_def bypass_command_def
      setting_query_def)

section \<open>What a status query says\<close>

text \<open>What a status query has just seen where it says OFF.\<close>

definition stopped_seen :: "os \<Rightarrow> app_paths \<Rightarrow> hist \<Rightarrow> bool" where
  "stopped_seen S P h \<longleftrightarrow>
     (\<exists>k e. load_runtime S P k = Some (Inl e, h)) \<or>
     (\<exists>state g k b. load_runtime S P k = Some (Inr state, g) \<and> isManagedProcessRunning S state g = Some (Inr b, h) \<and>
        (\<not> b \<or> rs_phase state \<noteq> ''running''))"

text \<open>The two reports, line by line.\<close>

definition on_report :: "runtime_state \<Rightarrow> string" where
  "on_report state =
     ''Status: ON'' @ [nl] @
     (if rs_upstream state = [] then []
      else ''Upstream: '' @ rs_upstream state @
        (if rs_upstream_address state = [] then [] else '' ('' @ rs_upstream_address state @ '')'') @ [nl]) @
     ''Core: sing-box '' @ rs_core_version state @ [nl] @
     ''PID: '' @ show_int (rs_pid state) @ [nl] @
     ''Routing: '' @ rs_routing_mode state @ [nl] @
     ''Bypass: '' @ show_nat (length (rs_bypass_cidrs state)) @ '' CIDRs'' @ [nl]"

definition off_report :: "upstream result \<Rightarrow> bool \<Rightarrow> string" where
  "off_report conf installed =
     ''Status: OFF'' @ [nl] @
     (case conf of Inl _ \<Rightarrow> [] | Inr u \<Rightarrow> ''Upstream: '' @ formatUpstreamUri u @ [nl]) @
     (if installed then ''Core: sing-box '' @ cm_version kSingBoxRelease @ [nl]
      else ''Core: not installed'' @ [nl])"

lemma formatStatus_on: "formatStatus (statusFromState state) = on_report state"
  by (simp add: formatStatus_def statusFromState_def on_report_def)

lemma formatStatus_off:
  "formatStatus (empty_status\<lparr>ps_upstream := (case conf of Inl _ \<Rightarrow> [] | Inr u \<Rightarrow> formatUpstreamUri u),
     ps_core_version := cm_version kSingBoxRelease, ps_core_installed := installed\<rparr>) = off_report conf installed"
  by (cases conf)
    (simp_all add: formatStatus_def empty_status_def off_report_def formatUpstreamUri_def)

text \<open>The record says running, and the identity check has just found its process.\<close>

definition core_seen :: "os \<Rightarrow> app_paths \<Rightarrow> runtime_state \<Rightarrow> hist \<Rightarrow> bool" where
  "core_seen S P state h \<longleftrightarrow>
     (\<exists>g k. load_runtime S P k = Some (Inr state, g) \<and> isManagedProcessRunning S state g = Some (Inr True, h) \<and>
        rs_phase state = ''running'')"

definition status_answer :: "os \<Rightarrow> app_paths \<Rightarrow> hist \<Rightarrow> string result \<Rightarrow> hist \<Rightarrow> bool" where
  "status_answer S P h r h' \<longleftrightarrow>
     (\<exists>state. core_seen S P state h' \<and> r = Inr (on_report state)) \<or>
     (stopped_seen S P h' \<and> (\<exists>conf g a. load_config S P h = Some (conf, g) \<and>
        extends ((CSymlinkStatus (corePath P kSingBoxRelease), a) # g) h' \<and>
        r = Inr (off_report conf (r_ret a = 0 \<and> r_kind a = KReg))))"

lemma on_answer: "core_seen S P state h' \<Longrightarrow> status_answer S P h (Inr (on_report state)) h'"
  by (auto simp: status_answer_def)

lemma off_answer:
  "stopped_seen S P h' \<Longrightarrow> load_config S P h = Some (conf, g) \<Longrightarrow>
    extends ((CSymlinkStatus (corePath P kSingBoxRelease), a) # g) h' \<Longrightarrow>
    status_answer S P h (Inr (off_report conf (r_ret a = 0 \<and> r_kind a = KReg))) h'"
  unfolding status_answer_def by blast

lemma status_of_seen:
  "wp (proxy_status_of S P kSingBoxRelease h) (\<lambda>r h'. \<exists>st. r = Inr st \<and> status_answer S P h (Inr (formatStatus st)) h')"
proof -
  have load: "wp (load_runtime S P g) (\<lambda>r h'. load_runtime S P g = Some (r, h') \<and> extends g h')" for g
    using run_extends [OF load_runtime_plain, of S P g] by (auto simp: wp_def split: option.splits)
  have conf: "wp (load_config S P g) (\<lambda>r h'. load_config S P g = Some (r, h'))" for g
    by (simp add: wp_def split: option.splits)
  have check: "wp (isManagedProcessRunning S st g) (\<lambda>r h'. \<exists>b. r = Inr b \<and> extends g h' \<and>
      isManagedProcessRunning S st g = Some (Inr b, h'))" for st g
    using wp_conj [OF isManaged_emits [of S st g] run_extends [OF isManaged_plain, of S st g]]
    by (auto simp: wp_def ok_def split: option.splits sum.splits)
  have found: "core_seen S P state h'"
    if "load_runtime S P k = Some (Inr state, g)" "isManagedProcessRunning S state g = Some (Inr True, h')"
      "rs_phase state = ''running''" for state g k h'
    using that unfolding core_seen_def by blast
  have lost: "stopped_seen S P h'" if "load_runtime S P k = Some (Inl e, h')" for k e h'
    using that unfolding stopped_seen_def by blast
  have gone: "stopped_seen S P h'"
    if "load_runtime S P k = Some (Inr state, g)" "isManagedProcessRunning S state g = Some (Inr b, h')"
      "\<not> b \<or> rs_phase state \<noteq> ''running''" for state g k b h'
    using that unfolding stopped_seen_def by blast
  have tail: "wp (do {
      (loaded, k) \<leftarrow> load_runtime S P g';
      case loaded of Inl _ \<Rightarrow> Some (success status, k)
      | Inr state \<Rightarrow> do {
          (running, k) \<leftarrow> isManagedProcessRunning S state k;
          if running \<noteq> Inr True \<or> rs_phase state \<noteq> ''running'' then Some (success status, k)
          else Some (success (statusFromState state), k)
        }}) (\<lambda>r h'. \<exists>st. r = Inr st \<and> status_answer S P h (Inr (formatStatus st)) h')"
    if off: "\<And>h'. stopped_seen S P h' \<Longrightarrow> extends g' h' \<Longrightarrow> status_answer S P h (Inr (formatStatus status)) h'" for status g'
    by (auto simp: wp_bind wp_Some formatStatus_on split: sum.splits intro!: wp_mono [OF load] wp_mono [OF check])
      (auto intro!: off intro: found lost gone on_answer extends_trans)
  show ?thesis
    unfolding proxy_status_of_def Let_def
  proof (unfold wp_bind [of "load_config S P h"], rule wp_mono [OF conf], unfold prod.case, unfold wp_bind [of "sys S c g" for c g], 
      unfold wp_sys prod.case, rule tail)
    fix conf g h'
    assume "load_config S P h = Some (conf, g)" "stopped_seen S P h'"
      "extends ((CSymlinkStatus (corePath P kSingBoxRelease), answer S g (CSymlinkStatus (corePath P kSingBoxRelease))) # g) h'"
    then show "status_answer S P h (Inr (formatStatus (empty_status\<lparr>
        ps_upstream := (case conf of Inl _ \<Rightarrow> [] | Inr u \<Rightarrow> formatUpstreamUri u),
        ps_core_version := cm_version kSingBoxRelease,
        ps_core_installed := (r_ret (answer S g (CSymlinkStatus (corePath P kSingBoxRelease))) = 0 \<and>
          r_kind (answer S g (CSymlinkStatus (corePath P kSingBoxRelease))) = KReg)\<rparr>))) h'"
      unfolding formatStatus_off by (intro off_answer)
  qed
qed

lemma status_command_seen:
  "wp (execute_command S P Status [] L h) (status_answer S P h)"
  unfolding execute_command_def status_command_def rejectArgument_def
  by (auto simp: wp_bind wp_Some intro!: wp_mono [OF status_of_seen] split: sum.splits)

text \<open>Setting an upstream and asking for it.\<close>

definition set_then_query ::
  "os \<Rightarrow> app_paths \<Rightarrow> string \<Rightarrow> log_callback \<Rightarrow> hist \<Rightarrow> (string result \<times> string result) run" where
  "set_then_query S P uri L h = do {
     (updated, h) \<leftarrow> execute_command S P SetSetting uri L h;
     (asked, h) \<leftarrow> execute_command S P GetSetting [] L h;
     Some ((updated, asked), h)
   }"

lemma release_keeps_files: "wp (release_lock S fd h) (\<lambda>_ h'. contents_at v h' p = contents_at v h p)"
  by (simp add: release_lock_def wp_bind wp_sys wp_Some)


lemma set_then_query_wp:
  assumes u: "parseUpstreamUri uri = Inr u" "storable_host (host u)"
    and files: "reads_faithfully S v" and L: "quiet_logger L"
  shows "wp (set_then_query S P uri L h) (\<lambda>(updated, asked) _. ok updated \<longrightarrow>
     updated = Inr (''Upstream: '' @ formatUpstreamUri u @ [nl]) \<and> asked = Inr (formatUpstreamUri u))"
proof -
  have valid: "valid_upstream u" using parse_valid [OF u(1)] .
  let ?stored = "\<lambda>g. contents_at v g (config_file P) = Some (config_text u)"
  let ?done = "Inr (''Upstream: '' @ formatUpstreamUri u @ [nl])"
  have saved: "wp (save_config S P u g) (\<lambda>r h'. ok r \<longrightarrow> ?stored h')" for g
    by (rule wp_mono [OF save_config_wp [OF valid, where v = v]]) (auto simp: atomic_outcome_def)
  have update: "wp (setting_update S P uri g) (\<lambda>r h'. ok r \<longrightarrow> r = ?done \<and> ?stored h')" for g
    using u(1) unfolding setting_update_def
    by (auto simp: wp_bind wp_Some split: sum.splits intro!: wp_mono [OF saved])
  have asks: "wp (setting_query S P [] g) (\<lambda>r h'. r = Inr (formatUpstreamUri u))" if "?stored g" for g
  proof -
    have "wp (load_config S P g) (\<lambda>r h'. r = Inr u)"
      using load_config_twp [OF files that] parse_config_text [OF valid u(2)] unfolding twp_def wp_def
      by (auto split: option.splits)
    then show ?thesis
      by (auto simp: setting_query_def rejectArgument_def wp_bind wp_Some elim!: wp_mono)
  qed
  have locked: "wp (release_lock S fd g) (\<lambda>_ h'. ?stored g \<longrightarrow> ?stored h')" for fd g
    by (rule wp_mono [OF release_keeps_files [where v = v and p = "config_file P"]]) simp
  have any: "wp (acquire_lock S p w g) (\<lambda>_ _. True)" for p w g
    by (simp add: wp_def split: option.splits)
  have set: "wp (execute_command S P SetSetting uri L h) (\<lambda>r h'. ok r \<longrightarrow> r = ?done \<and> ?stored h')"
    unfolding execute_command_def
    by (auto simp: wp_bind wp_Some split: sum.splits intro!: wp_mono [OF any] wp_mono [OF update] wp_mono [OF locked])
  have query: "wp (execute_command S P GetSetting [] L g) (\<lambda>r h'. ?stored g \<longrightarrow> r = Inr (formatUpstreamUri u))" for g
    using asks [of g] by (auto simp: execute_command_def wp_def split: option.splits)
  show ?thesis
    unfolding set_then_query_def
    by (auto simp: wp_bind wp_Some intro!: wp_mono [OF set] wp_mono [OF query])
qed


lemma set_then_query_returns:
  assumes "quiet_logger L" and "signals_bounded S B"
  shows "returns (set_then_query S P uri L h)"
proof -
  have "returns (execute_command S P SetSetting uri L g)" for g
    unfolding execute_command_def
    by (auto simp: returns_bind acquire_returns [OF assms] setting_update_returns [OF assms(2)] release_lock_returns
        intro!: wpI split: sum.splits)
  moreover have "returns (execute_command S P GetSetting [] L g)" for g
    by (simp add: execute_command_def queries_return)
  ultimately show ?thesis unfolding set_then_query_def by (auto simp: returns_bind intro!: wpI)
qed

section \<open>Properties\<close>

text \<open>C32: Changes happen only under the operation lock, and the lock is always given up. While
  \<open>execute_command\<close> runs a command, a process is started or signalled and a file is replaced or
  removed only at instants at which the exclusive lock is held; when it returns, on success and on
  every error, no lock is held. The three queries start, signal, write and lock nothing: they only
  look.\<close>

theorem changes_only_under_lock:
  assumes "fresh_kernel S" and "quiet_logger L" and "holders h = {}"
  shows "wp (execute_command S P c argument L h) (\<lambda>_ h'.
     guarded (\<lambda>e g. if changes (fst e) then holders g \<noteq> {} else True) h h' \<and> holders h' = {} \<and>
     (if c \<in> {Status, Bypass, GetSetting} then emits (\<lambda>e. looks (fst e)) h h' else True))"
proof -
  have "wp (execute_command S P c argument L h) (\<lambda>_. emits (\<lambda>e. looks (fst e)) h)" if "c \<in> {Status, Bypass, GetSetting}"
    using that queries_look [THEN emits_gwp] by (auto simp: execute_command_def)
  then have "wp (execute_command S P c argument L h) (\<lambda>_ h'.
      if c \<in> {Status, Bypass, GetSetting} then emits (\<lambda>e. looks (fst e)) h h' else True)"
    by (auto simp: wp_def split: option.splits)
  from wp_conj [OF execute_under_lock [OF assms, unfolded gwp_def] this] show ?thesis
    by (rule wp_mono) simp
qed

theorem changes_only_under_lock_witness:
  "wp (execute_command helper_os default_paths On [] None []) (\<lambda>_ h'.
     guarded (\<lambda>e g. if changes (fst e) then holders g \<noteq> {} else True) [] h' \<and> holders h' = {} \<and>
     (if On \<in> {Status, Bypass, GetSetting} then emits (\<lambda>e. looks (fst e)) [] h' else True))"
  by (rule changes_only_under_lock [OF helper_os_kernel no_logger]) simp

text \<open>C33: A setting that was accepted is the one reported. Where \<open>SetSetting\<close> with a well-formed URI
  succeeds, it names the canonical URI, and the next \<open>GetSetting\<close> answers exactly that; both
  always return.\<close>

theorem setting_is_reported:
  assumes "parseUpstreamUri uri = Inr u" and "storable_host (host u)"
    and "reads_faithfully S v" and "quiet_logger L" and "signals_bounded S B"
  shows "twp (set_then_query S P uri L h) (\<lambda>(updated, asked) _. if ok updated then
     updated = Inr (''Upstream: '' @ formatUpstreamUri u @ [nl]) \<and> asked = Inr (formatUpstreamUri u) else True)"
  by (rule twpI [OF set_then_query_returns [OF assms(4,5)]], rule wp_mono [OF set_then_query_wp [OF assms(1-4)]]) auto

theorem setting_is_reported_witness:
  "twp (set_then_query (file_os empty_vfs) default_paths (formatUpstreamUri default_upstream) None []) (\<lambda>(updated, asked) _. if ok updated then
     updated = Inr (''Upstream: '' @ formatUpstreamUri default_upstream @ [nl]) \<and>
     asked = Inr (formatUpstreamUri default_upstream) else True)"
  by (rule setting_is_reported [OF parse_format _ file_os_faithful no_logger file_os_signals])
    (simp_all add: default_upstream_def valid_upstream_def isValidHost_iff uri_host_def storable_host_def trim_id is_space_def)

text \<open>C34: The status query is truthful. It always succeeds. Its text starts with
  \<open>Status: ON\<close> only where the record of a core says running and the identity check has just found
  that core, and then it gives the upstream, version, process number, routing mode and number of
  bypassed ranges of the record; else it starts with \<open>Status: OFF\<close>, where it has just seen that there
  is no readable record, no such process, or a record of an unfinished start, and then it gives the
  configured upstream, if one can be read, and whether the file of the core is there.\<close>

theorem status_is_truthful:
  "twp (execute_command S P Status [] L h) (\<lambda>r h'.
     (\<exists>state. core_seen S P state h' \<and> r = Inr (on_report state)) \<or>
     (stopped_seen S P h' \<and> (\<exists>conf g a. load_config S P h = Some (conf, g) \<and>
        extends ((CSymlinkStatus (corePath P kSingBoxRelease), a) # g) h' \<and>
        r = Inr (off_report conf (r_ret a = 0 \<and> r_kind a = KReg)))))"
  by (rule twpI [OF _ status_command_seen [unfolded status_answer_def [abs_def]]]) (simp add: execute_command_def queries_return)

text \<open>The machine of \<open>one_proc_os\<close>, with the record of its process.\<close>

definition recorded_answer :: "hist \<Rightarrow> call \<Rightarrow> resp" where
  "recorded_answer h c =
     (if c = CReadFile (state_file default_paths) then done_resp 0 (state_text core_state)
      else answer one_proc_os h c)"

definition recorded_os :: os where
  "recorded_os = one_proc_os\<lparr>answer := recorded_answer\<rparr>"

lemma recorded_load: "load_runtime recorded_os default_paths h = Some (r, g) \<Longrightarrow> r = Inr core_state"
proof -
  have "wf_state core_state" by (simp add: wf_state_def core_state_def one_line_def)
  then show "load_runtime recorded_os default_paths h = Some (r, g) \<Longrightarrow> r = Inr core_state"
    by (auto simp: load_runtime_def readTextFile_def sys_def recorded_os_def recorded_answer_def done_resp_def parse_state_text)
qed

lemma recorded_check: "isManagedProcessRunning recorded_os core_state h = Some (Inr b, g) \<Longrightarrow> b"
proof -
  have other: "stat_path n \<noteq> state_file default_paths" for n
    by (simp add: state_file_def default_paths_def path_append_def is_absolute_def stat_path_def)
  have "answer recorded_os g (CKill n z) = answer one_proc_os g (CKill n z)"
    "answer recorded_os g (CReadFile (stat_path n)) = answer one_proc_os g (CReadFile (stat_path n))"
    "answer recorded_os g (CReadSymlink f) = answer one_proc_os g (CReadSymlink f)" for g n z f
    using other by (simp_all add: recorded_os_def recorded_answer_def)
  then have shown: "proc_fs recorded_os one_proc"
    using one_proc_shown by (simp only: proc_fs_def simp_thms)
  have exe: "strip_deleted ''/var/lib/core (deleted)'' = ''/var/lib/core''" by code_simp
  show "isManagedProcessRunning recorded_os core_state h = Some (Inr b, g) \<Longrightarrow> b"
    using isManaged_exact [OF shown, of core_state h "''/var/lib/core''"]
    by (simp add: wp_def undisturbed_def one_proc_def canonical_to_def recorded_os_def recorded_answer_def one_proc_os_def
        done_resp_def core_state_def core_proc_def is_the_process_def exe)
qed

theorem status_is_truthful_witness:
  "twp (execute_command recorded_os default_paths Status [] None []) (\<lambda>r h'.
     r = Inr (''Status: ON'' @ [nl] @ ''Upstream: socks5://h:1 (192.0.2.1)'' @ [nl] @ ''Core: sing-box 1'' @ [nl] @
       ''PID: 42'' @ [nl] @ ''Routing: tun-route'' @ [nl] @ ''Bypass: 2 CIDRs'' @ [nl]))"
proof -
  have "\<not> stopped_seen recorded_os default_paths h" for h
    using recorded_load recorded_check by (fastforce simp: stopped_seen_def core_state_def)
  moreover have "state = core_state" if "core_seen recorded_os default_paths state h" for state h
    using that recorded_load by (fastforce simp: core_seen_def)
  moreover have "on_report core_state = ''Status: ON'' @ [nl] @ ''Upstream: socks5://h:1 (192.0.2.1)'' @ [nl] @
      ''Core: sing-box 1'' @ [nl] @ ''PID: 42'' @ [nl] @ ''Routing: tun-route'' @ [nl] @ ''Bypass: 2 CIDRs'' @ [nl]"
    by code_simp
  ultimately show ?thesis
    using status_is_truthful [of recorded_os default_paths None "[]"]
    unfolding twp_def by (auto split: option.splits)
qed



end
