(* ===== verification/Authorization.thy ===== *)
theory Authorization
  imports Filesystem
begin

text \<open>
  \<^verbatim>\<open>src/authorization.cpp\<close>: who may change the proxy. The user database is what
  \<^verbatim>\<open>getgrnam\<close>, \<^verbatim>\<open>getpwuid\<close> and \<^verbatim>\<open>getgrouplist\<close> answer; the lemma shows that the
  check decides membership in it, up to the bound of 1024 groups the code sets.
\<close>

section \<open>The check\<close>

definition first_num :: "resp \<Rightarrow> int" where
  "first_num r = (case r_nums r of [] \<Rightarrow> 0 | n # _ \<Rightarrow> n)"

text \<open>
  \<^verbatim>\<open>getgrouplist\<close> answers the number of groups followed by the groups it put into the vector,
  which keeps its other elements.
\<close>

definition fill_groups :: "int list \<Rightarrow> resp \<Rightarrow> int list" where
  "fill_groups groups r =
     (let written = take (length groups) (tl (r_nums r)) in written @ drop (length written) groups)"

definition resize_groups :: "nat \<Rightarrow> int list \<Rightarrow> int list" where
  "resize_groups n groups = take n (groups @ replicate n 0)"

definition listed :: "int \<Rightarrow> int list \<Rightarrow> int \<Rightarrow> bool" where
  "listed count groups admin_gid \<longleftrightarrow>
     \<not> (count \<le> 0 \<or> int (length groups) < count) \<and> admin_gid \<in> set (take (nat count) groups)"

definition isAuthorizedUser :: "os \<Rightarrow> int \<Rightarrow> int \<Rightarrow> string \<Rightarrow> hist \<Rightarrow> bool run" where
  "isAuthorizedUser S uid primary_gid group_name h =
     (if uid = 0 then Some (True, h)
      else do {
        (admin_group, h) \<leftarrow> sys S (CUser (UGetGrNam (c_str group_name))) h;
        if r_ret admin_group \<noteq> 0 then Some (False, h)
        else do {
          let admin_gid = first_num admin_group;
          if primary_gid = admin_gid then Some (True, h)
          else do {
            (account, h) \<leftarrow> sys S (CUser (UGetPwUid uid)) h;
            if r_ret account \<noteq> 0 then Some (False, h)
            else do {
              let gid = first_num account;
              (got, h) \<leftarrow> sys S (CUser (UGetGroupList (r_out account) gid 16)) h;
              let groups = fill_groups (replicate 16 0) got;
              if r_ret got < 0 then
                (if first_num got \<le> 0 \<or> 1024 < first_num got then Some (False, h)
                 else do {
                   let groups = resize_groups (nat (first_num got)) groups;
                   (got, h) \<leftarrow> sys S (CUser (UGetGroupList (r_out account) gid (nat (first_num got)))) h;
                   if r_ret got < 0 then Some (False, h)
                   else Some (listed (first_num got) (fill_groups groups got) admin_gid, h)
                 })
              else Some (listed (first_num got) groups admin_gid, h)
            }
          }
        }
      })"

section \<open>The database\<close>

record user_db =
  db_group :: "string \<Rightarrow> int option"
  db_account :: "int \<Rightarrow> (string \<times> int) option"
  db_groups :: "string \<Rightarrow> int \<Rightarrow> int list"

definition group_list_answer :: "int list \<Rightarrow> nat \<Rightarrow> resp \<Rightarrow> bool" where
  "group_list_answer gs room r \<longleftrightarrow>
     r_nums r = int (length gs) # take room gs \<and>
     (if length gs \<le> room then 0 \<le> r_ret r else r_ret r < 0)"

definition answers_users :: "os \<Rightarrow> user_db \<Rightarrow> bool" where
  "answers_users S db \<longleftrightarrow>
     (\<forall>h name. case db_group db name of
        None \<Rightarrow> r_ret (answer S h (CUser (UGetGrNam name))) \<noteq> 0
      | Some g \<Rightarrow> r_ret (answer S h (CUser (UGetGrNam name))) = 0 \<and>
          first_num (answer S h (CUser (UGetGrNam name))) = g) \<and>
     (\<forall>h uid. case db_account db uid of
        None \<Rightarrow> r_ret (answer S h (CUser (UGetPwUid uid))) \<noteq> 0
      | Some (n, g) \<Rightarrow> r_ret (answer S h (CUser (UGetPwUid uid))) = 0 \<and>
          r_out (answer S h (CUser (UGetPwUid uid))) = n \<and>
          first_num (answer S h (CUser (UGetPwUid uid))) = g) \<and>
     (\<forall>h name gid room. group_list_answer (db_groups db name gid) room
        (answer S h (CUser (UGetGroupList name gid room))))"

text \<open>Who is in the group, by the primary group of the connection or by the database.\<close>

definition authorized :: "user_db \<Rightarrow> int \<Rightarrow> int \<Rightarrow> string \<Rightarrow> bool" where
  "authorized db uid primary_gid name \<longleftrightarrow>
     uid = 0 \<or>
     (case db_group db name of None \<Rightarrow> False
      | Some g \<Rightarrow> primary_gid = g \<or>
          (case db_account db uid of None \<Rightarrow> False
           | Some (n, pg) \<Rightarrow> length (db_groups db n pg) \<le> 1024 \<and> g \<in> set (db_groups db n pg)))"

lemma listed_answer:
  assumes "group_list_answer gs (length old) r" and "length gs \<le> length old"
  shows "listed (first_num r) (fill_groups old r) g \<longleftrightarrow> g \<in> set gs"
  using assms by (auto simp: group_list_answer_def listed_def fill_groups_def first_num_def Let_def)

lemma length_resize [simp]: "length (resize_groups n gs) = n"
  by (simp add: resize_groups_def)

fun lookup_call :: "call \<Rightarrow> bool" where
  "lookup_call (CUser u) = True"
| "lookup_call _ = False"

lemma authorization_decides:
  assumes "answers_users S db" and "CHR 0x00 \<notin> set group_name"
  shows "twp (isAuthorizedUser S uid primary_gid group_name h) (\<lambda>r h'.
     r = authorized db uid primary_gid group_name \<and> emits (\<lambda>e. lookup_call (fst e)) h h')"
proof -
  have gr: "case db_group db name of None \<Rightarrow> r_ret a \<noteq> 0 | Some g \<Rightarrow> r_ret a = 0 \<and> first_num a = g"
    if "answered S h (CUser (UGetGrNam name)) a" for h a name
    using assms that unfolding answers_users_def answered_def by blast
  have pw: "case db_account db uid of None \<Rightarrow> r_ret a \<noteq> 0
      | Some (n, g) \<Rightarrow> r_ret a = 0 \<and> r_out a = n \<and> first_num a = g"
    if "answered S h (CUser (UGetPwUid uid)) a" for h a uid
    using assms that unfolding answers_users_def answered_def by blast
  have gl: "group_list_answer (db_groups db name gid) room a"
    if "answered S h (CUser (UGetGroupList name gid room)) a" for h a name gid room
    using assms that unfolding answers_users_def answered_def by blast
  have first: "first_num a = int (length (db_groups db name gid)) \<and>
      (r_ret a < 0 \<longleftrightarrow> room < length (db_groups db name gid))"
    if "answered S h (CUser (UGetGroupList name gid room)) a" for h a name gid room
    using gl [OF that] by (auto simp: group_list_answer_def first_num_def split: if_splits)
  show ?thesis
  proof (rule twpI)
    show "returns (isAuthorizedUser S uid primary_gid group_name h)"
      by (simp add: isAuthorizedUser_def Let_def returns_bind wp_sys)
    show "wp (isAuthorizedUser S uid primary_gid group_name h) (\<lambda>r h'.
     r = authorized db uid primary_gid group_name \<and> emits (\<lambda>e. lookup_call (fst e)) h h')"
    proof (cases "uid = 0")
      case True
      then show ?thesis by (simp add: isAuthorizedUser_def wp_Some authorized_def)
    next
      case False
      show ?thesis
        unfolding isAuthorizedUser_def Let_def if_not_P [OF False] wp_bind wp_call prod.case
          c_str_id [OF assms(2)]
      proof (intro allI impI, goal_cases)
        case (1 a)
        show ?case
        proof (cases "db_group db group_name")
          case None
          with gr [OF 1] False show ?thesis by (simp add: wp_Some authorized_def)
        next
          case (Some g)
          with gr [OF 1] have g: "r_ret a = 0" "first_num a = g" by auto
          show ?thesis
          proof (cases "primary_gid = g")
            case True
            with g Some False show ?thesis by (simp add: wp_Some authorized_def)
          next
            case other: False
            have nz: "\<not> r_ret a \<noteq> 0" using g by simp
            show ?thesis
              unfolding if_not_P [OF nz] g(2) if_not_P [OF other] wp_bind wp_call prod.case
            proof (intro allI impI, goal_cases)
              case (1 b)
              show ?case
              proof (cases "db_account db uid")
                case None
                with pw [OF 1] False other Some show ?thesis by (simp add: wp_Some authorized_def)
              next
                case account: (Some np)
                obtain n pg where np: "np = (n, pg)" by (cases np)
                let ?gs = "db_groups db n pg"
                from pw [OF 1] account np have b: "r_ret b = 0" "r_out b = n" "first_num b = pg" by auto
                have auth: "authorized db uid primary_gid group_name \<longleftrightarrow> length ?gs \<le> 1024 \<and> g \<in> set ?gs"
                  using False other Some account np by (simp add: authorized_def)
                have nzb: "\<not> r_ret b \<noteq> 0" using b by simp
                show ?thesis
                  unfolding if_not_P [OF nzb] b(2,3) wp_bind wp_call prod.case
                proof (intro allI impI, goal_cases)
                  case (1 c)
                  note c = first [OF 1] gl [OF 1]
                  show ?case
                  proof (cases "r_ret c < 0")
                    case small: False
                    with c have "length ?gs \<le> 16" by simp
                    with c(2) have "listed (first_num c) (fill_groups (replicate 16 0) c) g \<longleftrightarrow> g \<in> set ?gs"
                      by (intro listed_answer) simp_all
                    with small auth \<open>length ?gs \<le> 16\<close> show ?thesis by (simp add: wp_Some)
                  next
                    case True
                    with c have long: "16 < length ?gs" and n: "first_num c = int (length ?gs)" by auto
                    show ?thesis
                    proof (cases "1024 < length ?gs")
                      case True
                      with \<open>r_ret c < 0\<close> n auth show ?thesis by (simp add: wp_Some)
                    next
                      case False
                      with long n have nle: "\<not> (first_num c \<le> 0 \<or> 1024 < first_num c)" by auto
                      show ?thesis
                        unfolding if_P [OF True] if_not_P [OF nle]
                        unfolding wp_bind wp_call prod.case n nat_int
                      proof (intro allI impI, goal_cases)
                        case (1 d)
                        note d = first [OF 1] gl [OF 1]
                        then have "listed (first_num d) (fill_groups (resize_groups (length ?gs) (fill_groups (replicate 16 0) c)) d) g
                            \<longleftrightarrow> g \<in> set ?gs"
                          by (intro listed_answer) simp_all
                        with d(1) auth False show ?case by (simp add: wp_Some)
                      qed
                    qed
                  qed
                qed
              qed
            qed
          qed
        qed
      qed
    qed
  qed
qed

section \<open>Properties\<close>

text \<open>C23: The authorisation check decides membership. Against any user database it returns, only
  looks things up, and answers yes exactly for root, for a connection whose primary group is the
  administrators' group, and for a user whose group list in the database, of at most 1024
  groups, contains that group.\<close>

theorem authorization_exact:
  assumes "answers_users S db" and "CHR 0x00 \<notin> set group_name"
  shows "twp (isAuthorizedUser S uid primary_gid group_name h) (\<lambda>r h'.
     r = authorized db uid primary_gid group_name \<and> emits (\<lambda>e. lookup_call (fst e)) h h')"
  by (rule authorization_decides [OF assms])

definition db_answer :: "user_db \<Rightarrow> hist \<Rightarrow> call \<Rightarrow> resp" where
  "db_answer db h c =
     (case c of
        CUser (UGetGrNam name) \<Rightarrow>
          (case db_group db name of None \<Rightarrow> done_resp (- 1) [] | Some g \<Rightarrow> (done_resp 0 [])\<lparr>r_nums := [g]\<rparr>)
      | CUser (UGetPwUid uid) \<Rightarrow>
          (case db_account db uid of None \<Rightarrow> done_resp (- 1) []
           | Some (n, g) \<Rightarrow> (done_resp 0 n)\<lparr>r_nums := [g]\<rparr>)
      | CUser (UGetGroupList name gid room) \<Rightarrow>
          let gs = db_groups db name gid
          in (done_resp (if length gs \<le> room then int (length gs) else - 1) [])\<lparr>
               r_nums := int (length gs) # take room gs\<rparr>
      | _ \<Rightarrow> done_resp 0 [])"

lemma db_answers: "answers_users (count_os\<lparr>answer := db_answer db\<rparr>) db"
  by (auto simp: answers_users_def db_answer_def done_resp_def first_num_def group_list_answer_def Let_def
      split: option.splits)

definition sample_db :: user_db where
  "sample_db =
     \<lparr>db_group = (\<lambda>n. if n = ''sudo'' then Some 27 else None),
      db_account = (\<lambda>u. if u = 1000 then Some (''ann'', 1000) else None),
      db_groups = (\<lambda>n g. [g, 4, 27])\<rparr>"

theorem authorization_exact_witness:
  "twp (isAuthorizedUser (count_os\<lparr>answer := db_answer sample_db\<rparr>) 1000 1000 ''sudo'' []) (\<lambda>r h'.
     r = authorized sample_db 1000 1000 ''sudo'' \<and> emits (\<lambda>e. lookup_call (fst e)) [] h') \<and>
   authorized sample_db 1000 1000 ''sudo'' \<and> \<not> authorized sample_db 1001 1001 ''sudo''"
  using authorization_exact [OF db_answers, of "''sudo''" sample_db 1000 1000 "[]"]
  by (simp add: authorized_def sample_db_def)

end
