(* ===== verification/Daemon.thy ===== *)
theory Daemon
  imports Controller Authorization
begin

text \<open>
  \<^verbatim>\<open>src/daemon_main.cpp\<close>: the control socket, the loop that accepts and authorizes clients, the
  worker that serves one client, and the shutdown.

  Each thread is a run of its own: what the others do in between is in the answers of its calls. The
  theory \<open>Workers\<close> puts the threads together.
\<close>

definition kAdminGroup :: string where "kAdminGroup = ''sudo''"

section \<open>The socket\<close>

text \<open>\<^verbatim>\<open>strtoul\<close>: blanks, a sign, digits. The argument is \<open>None\<close> where \<^verbatim>\<open>getenv\<close> found nothing.\<close>

definition parseUnsigned :: "string option \<Rightarrow> 64 word option" where
  "parseUnsigned text_opt =
     (case text_opt of None \<Rightarrow> None
      | Some t \<Rightarrow>
          let u = dropWhile is_space (c_str t);
              negative = (u \<noteq> [] \<and> hd u = CHR ''-'');
              v = (if u \<noteq> [] \<and> (hd u = CHR ''-'' \<or> hd u = CHR ''+'') then tl u else u);
              digits = takeWhile is_digit v;
              n = digits_value digits
          in if digits = [] \<or> dropWhile is_digit v \<noteq> [] \<or> 2 ^ 64 \<le> n then None
             else Some (if negative then - word_of_nat n else word_of_nat n))"

text \<open>The address family is the first number of the answer; \<^verbatim>\<open>AF_UNIX = 1\<close>.\<close>

definition isSocketDescriptor :: "os \<Rightarrow> int \<Rightarrow> hist \<Rightarrow> bool run" where
  "isSocketDescriptor S descriptor h = do {
     (status, h) \<leftarrow> sys S (CEnv (EStatSocket descriptor)) h;
     if r_ret status \<noteq> 0 \<or> r_kind status \<noteq> KSock then Some (False, h)
     else do {
       (address, h) \<leftarrow> sys S (CEnv (ESockName descriptor)) h;
       Some (r_ret address = 0 \<and> first_num address = 1, h)
     }
   }"

definition env_text :: "resp \<Rightarrow> string option" where
  "env_text r = (if r_ret r = 0 then Some (r_out r) else None)"

definition inheritedSocket :: "os \<Rightarrow> hist \<Rightarrow> int run" where
  "inheritedSocket S h = do {
     (pid_text, h) \<leftarrow> sys S (CEnv (EGetEnv ''LISTEN_PID'')) h;
     case parseUnsigned (env_text pid_text) of None \<Rightarrow> Some (- 1, h)
     | Some listen_pid \<Rightarrow> do {
         (fds_text, h) \<leftarrow> sys S (CEnv (EGetEnv ''LISTEN_FDS'')) h;
         case parseUnsigned (env_text fds_text) of None \<Rightarrow> Some (- 1, h)
         | Some listen_fds \<Rightarrow> do {
             (pid, h) \<leftarrow> sys S CGetpid h;
             if listen_pid \<noteq> word_of_int (r_ret pid) \<or> listen_fds \<noteq> 1 then Some (- 1, h)
             else do {
               (is_socket, h) \<leftarrow> isSocketDescriptor S 3 h;
               if \<not> is_socket then Some (- 1, h)
               else do {
                 (_, h) \<leftarrow> sys S (CEnv (ESetCloexec 3)) h;
                 (_, h) \<leftarrow> sys S (CEnv (EUnsetEnv ''LISTEN_PID'')) h;
                 (_, h) \<leftarrow> sys S (CEnv (EUnsetEnv ''LISTEN_FDS'')) h;
                 (_, h) \<leftarrow> sys S (CEnv (EUnsetEnv ''LISTEN_FDNAMES'')) h;
                 Some (3, h)
               }
             }
           }
       }
   }"

definition clear_socket_path :: "os \<Rightarrow> string \<Rightarrow> hist \<Rightarrow> unit result run" where
  "clear_socket_path S path h = do {
     (existing, h) \<leftarrow> sys S (CLstat path) h;
     if r_ret existing = 0 then
       (if r_kind existing \<noteq> KSock then
          Some (failure StateError ''control socket path exists and is not a socket'', h)
        else do {
          (unlinked, h) \<leftarrow> sys S (CUnlink path) h;
          Some (if r_ret unlinked \<noteq> 0 then failure StateError ''cannot remove stale control socket''
            else success (), h)
        })
     else Some (if cur_errno h \<noteq> ENOENT then failure StateError ''cannot inspect control socket path''
       else success (), h)
   }"

text \<open>Owner, mode and listening, in this order; the first that fails ends the chain.\<close>

definition secure_socket :: "os \<Rightarrow> string \<Rightarrow> int \<Rightarrow> int \<Rightarrow> hist \<Rightarrow> bool run" where
  "secure_socket S path descriptor gid h = do {
     (owned, h) \<leftarrow> sys S (CChown path 0 gid) h;
     if r_ret owned \<noteq> 0 then Some (False, h)
     else do {
       (restricted, h) \<leftarrow> sys S (CChmod path 432) h;
       if r_ret restricted \<noteq> 0 then Some (False, h)
       else do {
         (listening, h) \<leftarrow> sys S (CNet (NListen descriptor 8)) h;
         Some (r_ret listening = 0, h)
       }
     }
   }"

definition open_socket :: "os \<Rightarrow> string \<Rightarrow> hist \<Rightarrow> int result run" where
  "open_socket S path h = do {
     (descriptor, h) \<leftarrow> sys S (CNet NSocketUnix) h;
     let fd = r_ret descriptor;
     if fd < 0 then Some (failure StateError ''cannot create control socket'', h)
     else do {
       (bound, h) \<leftarrow> sys S (CNet (NBind fd path)) h;
       if r_ret bound \<noteq> 0 then do {
         let detail = strerror S (cur_errno h);
         (_, h) \<leftarrow> sys S (CClose fd) h;
         Some (failure StateError (''cannot bind control socket: '' @ detail), h)
       }
       else do {
         (admin_group, h) \<leftarrow> sys S (CUser (UGetGrNam kAdminGroup)) h;
         if r_ret admin_group \<noteq> 0 then do {
           (_, h) \<leftarrow> sys S (CClose fd) h;
           (_, h) \<leftarrow> sys S (CUnlink path) h;
           Some (failure StateError (''system group '' @ [CHR 0x27] @ kAdminGroup @ [CHR 0x27] @ '' does not exist''), h)
         }
         else do {
           (secured, h) \<leftarrow> secure_socket S path fd (first_num admin_group) h;
           if \<not> secured then do {
             let detail = strerror S (cur_errno h);
             (_, h) \<leftarrow> sys S (CClose fd) h;
             (_, h) \<leftarrow> sys S (CUnlink path) h;
             Some (failure StateError (''cannot secure control socket: '' @ detail), h)
           }
           else Some (success fd, h)
         }
       }
     }
   }"

definition createSocket :: "os \<Rightarrow> string \<Rightarrow> hist \<Rightarrow> int result run" where
  "createSocket S path h =
     (if path = [] \<or> 108 \<le> length path then
        Some (failure InvalidArguments ''control socket path is invalid'', h)
      else do {
        (directory, h) \<leftarrow> ensureDirectory S (parent_path path) 493 h;
        case directory of Inl e \<Rightarrow> Some (Inl e, h)
        | Inr _ \<Rightarrow> do {
            (cleared, h) \<leftarrow> clear_socket_path S path h;
            case cleared of Inl e \<Rightarrow> Some (Inl e, h)
            | Inr _ \<Rightarrow> open_socket S path h
          }
      })"

section \<open>One client\<close>

definition isMutating :: "command \<Rightarrow> bool" where
  "isMutating command \<longleftrightarrow> command = On \<or> command = Off \<or> command = SetSetting"

fun commandName :: "command \<Rightarrow> string" where
  "commandName On = ''on''"
| "commandName Off = ''off''"
| "commandName Status = ''status''"
| "commandName GetSetting = ''setting query''"
| "commandName SetSetting = ''setting update''"
| "commandName Bypass = ''bypass query''"

text \<open>The answer has process, user and group of the peer; fewer where the length is not that of \<^verbatim>\<open>ucred\<close>.\<close>

definition authorizeClient :: "os \<Rightarrow> int \<Rightarrow> hist \<Rightarrow> (bool \<times> int) run" where
  "authorizeClient S descriptor h = do {
     (credentials, h) \<leftarrow> sys S (CNet (NPeerCred descriptor)) h;
     case r_nums credentials of
       [pid, uid, gid] \<Rightarrow>
         if r_ret credentials \<noteq> 0 then Some ((False, 2 ^ 32 - 1), h)
         else do {
           (allowed, h) \<leftarrow> isAuthorizedUser S uid gid kAdminGroup h;
           Some ((allowed, uid), h)
         }
     | _ \<Rightarrow> Some ((False, 2 ^ 32 - 1), h)
   }"

definition error_frame :: "error \<Rightarrow> ipc_frame" where
  "error_frame e =
     \<lparr>frame_type = FrameError, frame_code = word_of_nat (error_num (err_code e)),
      frame_payload = (if length (err_message e) \<le> kIpcMaximumPayload then err_message e
        else take kIpcMaximumPayload (err_message e))\<rparr>"

definition sendError :: "os \<Rightarrow> int \<Rightarrow> error \<Rightarrow> hist \<Rightarrow> unit run" where
  "sendError S descriptor e h = do {
     (_, h) \<leftarrow> sendIpcFrame S descriptor (error_frame e) h;
     Some ((), h)
   }"

text \<open>The value of the worker's variable \<^verbatim>\<open>connected\<close>: what was last assigned to it.\<close>

fun connected :: "hist \<Rightarrow> bool" where
  "connected [] = True"
| "connected (e # h) = (case fst e of CEnv (ESetConnected b) \<Rightarrow> b | _ \<Rightarrow> connected h)"

definition log_frame :: "log_level \<Rightarrow> string \<Rightarrow> ipc_frame" where
  "log_frame level message =
     \<lparr>frame_type = FrameLog, frame_code = word_of_nat (log_num level), frame_payload = message\<rparr>"

function send_log :: "os \<Rightarrow> int \<Rightarrow> log_level \<Rightarrow> string \<Rightarrow> hist \<Rightarrow> unit run" where
  "send_log S descriptor level message h =
     (if message = [] \<or> \<not> connected h then Some ((), h)
      else do {
        (sent, h) \<leftarrow> sendIpcFrame S descriptor (log_frame level (take kIpcMaximumPayload message)) h;
        (_, h) \<leftarrow> sys S (CEnv (ESetConnected (ok sent))) h;
        send_log S descriptor level (drop kIpcMaximumPayload message) h
      })"
  by pat_completeness auto

termination
  by (relation "measure (\<lambda>(S, fd, level, message, h). length message)") (simp_all add: kIpcMaximumPayload_def)

definition client_logger :: "os \<Rightarrow> int \<Rightarrow> command \<Rightarrow> log_callback" where
  "client_logger S descriptor command = Some (\<lambda>level message h.
     if \<not> connected h then Some ((), h)
     else do {
       (_, h) \<leftarrow> (if isMutating command \<and> level \<noteq> Progress then do {
           (_, h) \<leftarrow> sys S (CEnv (ESetActive (commandName command @ '': '' @ message))) h;
           Some ((), h)
         }
         else Some ((), h));
       send_log S descriptor level message h
     })"

definition send_reply :: "os \<Rightarrow> int \<Rightarrow> string result \<Rightarrow> hist \<Rightarrow> unit run" where
  "send_reply S descriptor result h =
     (case result of Inl e \<Rightarrow> sendError S descriptor e h
      | Inr t \<Rightarrow> do {
          (_, h) \<leftarrow> sendIpcFrame S descriptor \<lparr>frame_type = FrameResult, frame_code = 0, frame_payload = t\<rparr> h;
          Some ((), h)
        })"

text \<open>The command runs; \<open>owned\<close> says whether the operation mutex is held by this worker.\<close>

definition run_command ::
  "os \<Rightarrow> app_paths \<Rightarrow> int \<Rightarrow> command \<Rightarrow> string \<Rightarrow> bool \<Rightarrow> hist \<Rightarrow> unit run" where
  "run_command S P descriptor command argument owned h = do {
     (_, h) \<leftarrow> (if owned then do {
         (_, h) \<leftarrow> sys S (CEnv (ESetActive (commandName command))) h; Some ((), h) }
       else Some ((), h));
     (_, h) \<leftarrow> sys S (CEnv (ESetConnected True)) h;
     (result, h) \<leftarrow> execute_command S P command argument (client_logger S descriptor command) h;
     (_, h) \<leftarrow> (if owned then do { (_, h) \<leftarrow> sys S (CEnv EClearActive) h; Some ((), h) }
       else Some ((), h));
     (_, h) \<leftarrow> (if connected h then send_reply S descriptor result h else Some ((), h));
     (if owned then do { (_, h) \<leftarrow> sys S (CEnv EUnlock) h; Some ((), h) } else Some ((), h))
   }"

definition serve_request :: "os \<Rightarrow> app_paths \<Rightarrow> int \<Rightarrow> command \<Rightarrow> string \<Rightarrow> hist \<Rightarrow> unit run" where
  "serve_request S P descriptor command argument h =
     (if isMutating command then do {
        (taken, h) \<leftarrow> sys S (CEnv ETryLock) h;
        if r_ret taken \<noteq> 0 then do {
          (active, h) \<leftarrow> sys S (CEnv EGetActive) h;
          sendError S descriptor (makeError StateError (''another operation is in progress'' @
            (if r_out active = [] then [] else '': '' @ r_out active))) h
        }
        else run_command S P descriptor command argument True h
      }
      else run_command S P descriptor command argument False h)"

definition serveClient :: "os \<Rightarrow> app_paths \<Rightarrow> int \<Rightarrow> hist \<Rightarrow> unit run" where
  "serveClient S P descriptor h = do {
     (request, h) \<leftarrow> receiveIpcFrame S descriptor h;
     case request of Inl e \<Rightarrow> sendError S descriptor e h
     | Inr f \<Rightarrow> (case decodeCommand (frame_code f) of
         Inl _ \<Rightarrow> sendError S descriptor (makeError InvalidArguments ''unsupported IPC protocol or command'') h
       | Inr command \<Rightarrow>
           if frame_type f \<noteq> FrameRequest then
             sendError S descriptor (makeError InvalidArguments ''unsupported IPC protocol or command'') h
           else serve_request S P descriptor command (frame_payload f) h)
   }"

text \<open>
  The body of the worker thread. The client is counted off under the mutex (\<open>ELeave\<close>); the notification
  of the main thread (\<open>ENotify\<close>) comes after the mutex was given up.
\<close>

definition client_thread :: "os \<Rightarrow> app_paths \<Rightarrow> int \<Rightarrow> hist \<Rightarrow> unit run" where
  "client_thread S P client h = do {
     (_, h) \<leftarrow> serveClient S P client h;
     (_, h) \<leftarrow> sys S (CClose client) h;
     (_, h) \<leftarrow> sys S (CEnv ELeave) h;
     (_, h) \<leftarrow> sys S (CEnv ENotify) h;
     Some ((), h)
   }"

section \<open>The listener\<close>

definition start_worker :: "os \<Rightarrow> int \<Rightarrow> hist \<Rightarrow> unit run" where
  "start_worker S client h = do {
     (_, h) \<leftarrow> sys S (CNet (NRecvTimeout client kClientSocketTimeout)) h;
     (_, h) \<leftarrow> sys S (CNet (NSendTimeout client kClientSocketTimeout)) h;
     (_, h) \<leftarrow> sys S (CEnv EEnter) h;
     (thread, h) \<leftarrow> sys S (CEnv (EThread client)) h;
     if r_ret thread < 0 then do {
       (_, h) \<leftarrow> sys S (CEnv ELeave) h;
       (_, h) \<leftarrow> sys S (CEnv ENotify) h;
       (_, h) \<leftarrow> sendError S client (makeError StateError (''cannot create client worker: '' @ r_out thread)) h;
       (_, h) \<leftarrow> sys S (CClose client) h;
       Some ((), h)
     }
     else Some ((), h)
   }"

definition admit_client :: "os \<Rightarrow> int \<Rightarrow> hist \<Rightarrow> unit run" where
  "admit_client S client h = do {
     ((allowed, uid), h) \<leftarrow> authorizeClient S client h;
     if \<not> allowed then do {
       (_, h) \<leftarrow> sys S (CEnv (EStderr (''tunproxyd: rejected unauthorized local client uid='' @ show_int uid @ [nl]))) h;
       (_, h) \<leftarrow> sendError S client
         (makeError InsufficientPrivileges ''client is not authorized to control TunProxy'') h;
       (_, h) \<leftarrow> sys S (CClose client) h;
       Some ((), h)
     }
     else start_worker S client h
   }"

text \<open>One round of the loop; the value says whether to go on. \<^verbatim>\<open>POLLIN = 1\<close>.\<close>

definition accept_round :: "os \<Rightarrow> int \<Rightarrow> hist \<Rightarrow> bool run" where
  "accept_round S listener h = do {
     (ready, h) \<leftarrow> sys S (CNet (NPollOne listener False 500)) h;
     if r_ret ready < 0 \<and> r_errno ready = EINTR then Some (True, h)
     else if r_ret ready = 0 then Some (True, h)
     else if r_ret ready < 0 \<or> and (revents ready) 1 = 0 then do {
       (_, h) \<leftarrow> sys S (CEnv (EStderr (''tunproxyd: control listener failed'' @ [nl]))) h;
       Some (False, h)
     }
     else do {
       (client, h) \<leftarrow> sys S (CNet (NAccept listener)) h;
       if r_ret client < 0 then
         (if r_errno client = EINTR then Some (True, h)
          else do {
            (_, h) \<leftarrow> sys S (CEnv (EStderr (''tunproxyd: accept failed: '' @ strerror S (cur_errno h) @ [nl]))) h;
            Some (False, h)
          })
       else do {
         (_, h) \<leftarrow> admit_client S (r_ret client) h;
         Some (True, h)
       }
     }
   }"

partial_function (option) accept_loop :: "os \<Rightarrow> int \<Rightarrow> hist \<Rightarrow> unit run" where
  "accept_loop S listener h = do {
     (stop_requested, h) \<leftarrow> sys S (CEnv EStopRequested) h;
     if r_ret stop_requested \<noteq> 0 then Some ((), h)
     else do {
       (go_on, h) \<leftarrow> accept_round S listener h;
       if go_on then accept_loop S listener h else Some ((), h)
     }
   }"

section \<open>The daemon\<close>

definition stderr_logger :: "os \<Rightarrow> log_callback" where
  "stderr_logger S = Some (\<lambda>level message h. do {
     (_, h) \<leftarrow> sys S (CEnv (EStderr (''tunproxyd: '' @ message @ [nl]))) h;
     Some ((), h)
   })"

text \<open>
  After the last client. \<^verbatim>\<open>std::filesystem::exists\<close> answers 1 or 0, and throws where it cannot tell (a
  negative answer here); nothing catches that, so the daemon is aborted, here \<open>None\<close> for the exit
  code.
\<close>

definition shut_down :: "os \<Rightarrow> app_paths \<Rightarrow> int \<Rightarrow> bool \<Rightarrow> hist \<Rightarrow> nat option run" where
  "shut_down S P listener owns_socket h = do {
     (there, h) \<leftarrow> sys S (CExists (state_file P)) h;
     if r_ret there < 0 then Some (None, h)
     else do {
       (_, h) \<leftarrow> (if r_ret there \<noteq> 0 then do {
           (stopped, h) \<leftarrow> execute_command S P Off [] (stderr_logger S) h;
           case stopped of Inr _ \<Rightarrow> Some ((), h)
           | Inl e \<Rightarrow> do {
               (_, h) \<leftarrow> sys S (CEnv (EStderr (''tunproxyd: shutdown cleanup failed: '' @ err_message e @ [nl]))) h;
               Some ((), h)
             }
         }
         else Some ((), h));
       (_, h) \<leftarrow> sys S (CClose listener) h;
       (_, h) \<leftarrow> (if owns_socket then do { (_, h) \<leftarrow> sys S (CUnlink (control_socket P)) h; Some ((), h) }
         else Some ((), h));
       Some (Some 0, h)
     }
   }"

definition find_listener :: "os \<Rightarrow> app_paths \<Rightarrow> hist \<Rightarrow> (int \<times> bool) result run" where
  "find_listener S P h = do {
     (listener, h) \<leftarrow> inheritedSocket S h;
     if 0 \<le> listener then Some (success (listener, False), h)
     else do {
       (created, h) \<leftarrow> createSocket S (control_socket P) h;
       case created of Inl e \<Rightarrow> Some (Inl e, h) | Inr fd \<Rightarrow> Some (success (fd, True), h)
     }
   }"

definition daemon_main :: "os \<Rightarrow> app_paths \<Rightarrow> hist \<Rightarrow> nat option run" where
  "daemon_main S P h = do {
     (uid, h) \<leftarrow> sys S CGeteuid h;
     if r_ret uid \<noteq> 0 then do {
       (_, h) \<leftarrow> sys S (CEnv (EStderr (''tunproxyd: root privileges are required'' @ [nl]))) h;
       Some (Some (error_num InsufficientPrivileges), h)
     }
     else do {
       (_, h) \<leftarrow> sys S (CEnv (EUmask 63)) h;
       (term_set, h) \<leftarrow> sys S (CEnv (ESigaction 15)) h;
       (int_failed, h) \<leftarrow> (if r_ret term_set \<noteq> 0 then Some (True, h)
         else do { (int_set, h) \<leftarrow> sys S (CEnv (ESigaction 2)) h; Some (r_ret int_set \<noteq> 0, h) });
       if int_failed then do {
         (_, h) \<leftarrow> sys S (CEnv (EStderr (''tunproxyd: cannot install signal handlers'' @ [nl]))) h;
         Some (Some (error_num StateError), h)
       }
       else do {
         (_, h) \<leftarrow> sys S (CEnv EIgnorePipe) h;
         (found, h) \<leftarrow> find_listener S P h;
         case found of
           Inl e \<Rightarrow> do {
             (_, h) \<leftarrow> sys S (CEnv (EStderr (''tunproxyd: '' @ err_message e @ [nl]))) h;
             Some (Some (error_num (err_code e)), h)
           }
         | Inr (listener, owns_socket) \<Rightarrow> do {
             (_, h) \<leftarrow> accept_loop S listener h;
             (_, h) \<leftarrow> sys S (CEnv EAwaitClients) h;
             shut_down S P listener owns_socket h
           }
       }
     }
   }"

section \<open>Sending only writes, receiving only reads\<close>

declare send_log.simps [simp del]

fun writing :: "call \<Rightarrow> bool" where
  "writing (CWrite fd d) = True"
| "writing _ = False"

lemma writing_logging: "writing c \<Longrightarrow> log_call c"
  by (cases c rule: writing.cases) simp_all

lemma sendAll_writes: "gwp (\<lambda>e g. writing (fst e)) h (sendAll S fd data h) (\<lambda>_ _. True)"
proof -
  have "gwp (\<lambda>e g. writing (fst e)) h (Some res) (\<lambda>_ _. True)" if ret: "sendAll S fd data h = Some res" for res
  proof (rule sendAll.raw_induct [where P = "\<lambda>S fd data h res. gwp (\<lambda>e g. writing (fst e)) h (Some res) (\<lambda>_ _. True)", OF _ ret], goal_cases)
    case (1 f S fd data h res)
    have rec: "gwp (\<lambda>e g. writing (fst e)) g (f S fd x g) (\<lambda>_ _. True)" for x g
      using 1(1) by (cases "f S fd x g") (auto simp: gwp_None)
    show ?case unfolding 1(2) [symmetric] by (intro gwp_intros rec TrueI) simp
  qed
  then show ?thesis by (cases "sendAll S fd data h") (auto simp: gwp_None)
qed

lemma sendIpcFrame_writes: "gwp (\<lambda>e g. writing (fst e)) h (sendIpcFrame S fd f h) (\<lambda>_ _. True)"
  unfolding sendIpcFrame_def by (intro gwp_intros gwp_bind [OF sendAll_writes] sendAll_writes TrueI)

lemma sendError_writes: "gwp (\<lambda>e g. writing (fst e)) h (sendError S fd e h) (\<lambda>_ _. True)"
  unfolding sendError_def by (intro gwp_intros gwp_bind [OF sendIpcFrame_writes] TrueI)

lemma send_reply_writes: "gwp (\<lambda>e g. writing (fst e)) h (send_reply S fd r h) (\<lambda>_ _. True)"
  unfolding send_reply_def by (intro gwp_intros gwp_bind [OF sendIpcFrame_writes] sendError_writes TrueI)

fun receiving :: "call \<Rightarrow> bool" where
  "receiving (CRecv fd n) = True"
| "receiving _ = False"

lemma receiveAll_receives: "gwp (\<lambda>e g. receiving (fst e)) h (receiveAll S fd bs n h) (\<lambda>_ _. True)"
proof -
  have "gwp (\<lambda>e g. receiving (fst e)) h (Some res) (\<lambda>_ _. True)" if ret: "receiveAll S fd bs n h = Some res" for res
  proof (rule receiveAll.raw_induct [where P = "\<lambda>S fd bs n h res. gwp (\<lambda>e g. receiving (fst e)) h (Some res) (\<lambda>_ _. True)", OF _ ret], goal_cases)
    case (1 f S fd bs n h res)
    have rec: "gwp (\<lambda>e g. receiving (fst e)) g (f S fd x k g) (\<lambda>_ _. True)" for x k g
      using 1(1) by (cases "f S fd x k g") (auto simp: gwp_None)
    show ?case unfolding 1(2) [symmetric] by (intro gwp_intros rec TrueI) simp
  qed
  then show ?thesis by (cases "receiveAll S fd bs n h") (auto simp: gwp_None)
qed

lemma receiveIpcFrame_receives: "gwp (\<lambda>e g. receiving (fst e)) h (receiveIpcFrame S fd h) (\<lambda>_ _. True)"
  unfolding receiveIpcFrame_def by (intro gwp_intros gwp_bind [OF receiveAll_receives] TrueI)

lemma sendIpcFrame_logging: "wp (sendIpcFrame S fd f h) (\<lambda>_. emits logging h)"
  by (rule emits_gwp, rule gwp_weaken [OF sendIpcFrame_writes]) (rule writing_logging)

lemma send_log_logging: "wp (send_log S fd l m h) (\<lambda>_. emits logging h)"
proof (induction "length m" arbitrary: m h rule: less_induct)
  case less
  show ?case
  proof (cases "m = [] \<or> \<not> connected h")
    case True
    then show ?thesis by (subst send_log.simps) (simp add: wp_Some)
  next
    case False
    have rest: "wp (send_log S fd l (drop kIpcMaximumPayload m) ((CEnv (ESetConnected b), a) # g)) (\<lambda>_. emits logging h)"
      if "emits logging h g" for b a g
    proof (rule wp_mono [OF less])
      show "length (drop kIpcMaximumPayload m) < length m" using False by (simp add: kIpcMaximumPayload_def)
      have start: "emits logging h ((CEnv (ESetConnected b), a) # g)" using that by simp
      show "emits logging h k" if "emits logging ((CEnv (ESetConnected b), a) # g) k" for k
        by (rule emits_trans [OF start that])
    qed
    show ?thesis using False
      by (subst send_log.simps) (auto simp: wp_bind wp_sys intro!: wp_mono [OF sendIpcFrame_logging] rest)
  qed
qed

lemma send_log_returns: "signals_bounded S B \<Longrightarrow> returns (send_log S fd l m h)"
proof (induction "length m" arbitrary: m h rule: less_induct)
  case less
  have "returns (send_log S fd l (drop kIpcMaximumPayload m) g)" if "m \<noteq> []" for g
    by (rule less(1) [OF _ less(2)]) (use that in \<open>simp add: kIpcMaximumPayload_def\<close>)
  then show ?case
    by (subst send_log.simps) (auto simp: returns_bind sendIpcFrame_returns [OF less(2)] intro!: wpI)
qed

lemma client_logger_quiet:
  assumes "signals_bounded S B"
  shows "quiet_logger (client_logger S fd c)"
proof -
  have active: "wp (if b then do { (_, h) \<leftarrow> sys S (CEnv (ESetActive t)) h; Some ((), h) } else Some ((), h))
      (\<lambda>_ h'. emits logging h h')" for b t h
    by (simp add: wp_bind wp_sys wp_Some)
  have send: "wp (send_log S fd l m g) (\<lambda>_. emits logging h)" if "emits logging h g" for l m g h
    by (rule wp_mono [OF send_log_logging]) (use that emits_trans in blast)
  have "wp (the (client_logger S fd c) l m h) (\<lambda>_. emits logging h)" for l m h
  proof (cases "connected h")
    case True
    show ?thesis
      unfolding client_logger_def option.sel if_not_P [OF True [THEN not_not [THEN iffD2]]] wp_bind [of "if _ then _ else _"] prod.case
      by (rule wp_mono [OF active]) (rule send)
  qed (simp add: client_logger_def wp_Some)
  moreover have "returns (the (client_logger S fd c) l m h)" for l m h
    unfolding client_logger_def
    by (auto simp: returns_bind send_log_returns [OF assms] intro!: wpI)
  ultimately show ?thesis by (simp add: quiet_logger_def client_logger_def)
qed

lemma stderr_logger_quiet: "quiet_logger (stderr_logger S)"
  by (simp add: quiet_logger_def stderr_logger_def returns_bind wp_bind wp_sys wp_Some)

end
