(* ===== verification/Listener.thy ===== *)
theory Listener
  imports Daemon
begin

text \<open>
  Who reaches a worker of the daemon, and when the control socket is opened: the accept loop of
  \<^verbatim>\<open>src/daemon_main.cpp\<close> is followed round by round, so that what is shown of it holds of a
  daemon that never stops as well.
\<close>

section \<open>The accept loop, round by round\<close>

text \<open>At most \<open>n\<close> rounds; the value says whether the loop is still running after them.\<close>

fun accept_rounds :: "os \<Rightarrow> int \<Rightarrow> nat \<Rightarrow> hist \<Rightarrow> bool run" where
  "accept_rounds S listener 0 h = Some (True, h)"
| "accept_rounds S listener (Suc n) h = do {
     (stop_requested, h) \<leftarrow> sys S (CEnv EStopRequested) h;
     if r_ret stop_requested \<noteq> 0 then Some (False, h)
     else do {
       (go_on, h) \<leftarrow> accept_round S listener h;
       if go_on then accept_rounds S listener n h else Some (False, h)
     }
   }"

lemma accept_rounds_loop: "accept_rounds S l n h = Some (False, h') \<Longrightarrow> accept_loop S l h = Some ((), h')"
proof (induction n arbitrary: h)
  case (Suc n)
  then show ?case
    by (subst accept_loop.simps) (auto simp: sys_def split: if_splits Option.bind_splits)
qed simp

lemma accept_loop_rounds:
  assumes ret: "accept_loop S l h = Some res"
  shows "\<exists>n. accept_rounds S l n h = Some (False, snd res)"
proof (rule accept_loop.raw_induct [where P = "\<lambda>S l h res. \<exists>n. accept_rounds S l n h = Some (False, snd res)", OF _ ret], goal_cases)
  case (1 f S l h res)
  let ?e = "(CEnv EStopRequested, answer S h (CEnv EStopRequested))"
  show ?case
  proof (cases "r_ret (snd ?e) = 0")
    case False
    with 1(2) have "accept_rounds S l (Suc 0) h = Some (False, snd res)" by (auto simp: sys_def)
    then show ?thesis by blast
  next
    case True
    with 1(2) obtain b g where round: "accept_round S l (?e # h) = Some (b, g)"
      by (auto simp: sys_def split: Option.bind_splits)
    show ?thesis
    proof (cases b)
      case b: True
      with 1(2) True round have "f S l g = Some res" by (simp add: sys_def)
      from 1(1) [OF this] obtain n where "accept_rounds S l n g = Some (False, snd res)" by blast
      with True round b have "accept_rounds S l (Suc n) h = Some (False, snd res)" by (simp add: sys_def)
      then show ?thesis by blast
    next
      case False
      with 1(2) True round have "accept_rounds S l (Suc 0) h = Some (False, snd res)" by (auto simp: sys_def)
      then show ?thesis by blast
    qed
  qed
qed

lemma accept_loop_iff: "accept_loop S l h = Some ((), h') \<longleftrightarrow> (\<exists>n. accept_rounds S l n h = Some (False, h'))"
  using accept_rounds_loop accept_loop_rounds by fastforce

section \<open>Who gets a worker\<close>

text \<open>
  The descriptors accepted and neither closed nor handed to a worker, newest event first.
\<close>

fun unserved :: "hist \<Rightarrow> int set" where
  "unserved [] = {}"
| "unserved ((c, r) # h) =
     (case c of
        CNet (NAccept l) \<Rightarrow> if r_ret r < 0 then unserved h else insert (r_ret r) (unserved h)
      | CClose fd \<Rightarrow> unserved h - {fd}
      | CEnv (EThread fd) \<Rightarrow> if r_ret r < 0 then unserved h else unserved h - {fd}
      | _ \<Rightarrow> unserved h)"

text \<open>
  Between \<open>h\<close> and \<open>h'\<close> the kernel named the peer of \<open>client\<close>, and that user is authorized.
\<close>

definition peer_authorized :: "user_db \<Rightarrow> int \<Rightarrow> hist \<Rightarrow> hist \<Rightarrow> bool" where
  "peer_authorized db client h h' \<longleftrightarrow>
     (\<exists>r pid uid gid. r_ret r = 0 \<and> r_nums r = [pid, uid, gid] \<and> authorized db uid gid kAdminGroup \<and>
        emits (\<lambda>e. lookup_call (fst e)) ((CNet (NPeerCred client), r) # h) h')"

text \<open>
  A worker starts only for the client just accepted, after the kernel named an authorized peer, the
  time limits were set and the client counted. A client is counted off by the main thread only when
  its worker could not be started.
\<close>

definition admission :: "user_db \<Rightarrow> int \<Rightarrow> event \<Rightarrow> hist \<Rightarrow> bool" where
  "admission db listener e g =
     (case fst e of
        CEnv (EThread client) \<Rightarrow>
          (\<exists>a b c g1 r g0. g = [(CEnv EEnter, a), (CNet (NSendTimeout client kClientSocketTimeout), b),
              (CNet (NRecvTimeout client kClientSocketTimeout), c)] @ g1 \<and>
            peer_authorized db client ((CNet (NAccept listener), r) # g0) g1 \<and> r_ret r = client)
      | CEnv ELeave \<Rightarrow> (\<exists>client r g0. g = (CEnv (EThread client), r) # g0 \<and> r_ret r < 0)
      | CEnv ENotify \<Rightarrow> (\<exists>r g0. g = (CEnv ELeave, r) # g0)
      | CEnv c \<Rightarrow> c = EEnter \<or> \<not> thread_call (CEnv c)
      | _ \<Rightarrow> True)"

definition calm :: "call \<Rightarrow> bool" where
  "calm c \<longleftrightarrow> lookup_call c \<or> writing c"

lemma calm_admission: "calm (fst e) \<Longrightarrow> admission db l e g"
  by (cases "fst e") (auto simp: calm_def admission_def)

lemma calm_unserved: "emits (\<lambda>e. calm (fst e)) h h' \<Longrightarrow> unserved h' = unserved h"
proof -
  assume "emits (\<lambda>e. calm (fst e)) h h'"
  then obtain es where es: "h' = es @ h" "list_all (\<lambda>e. calm (fst e)) es" by (auto simp: emits_def)
  have "unserved (e # g) = unserved g" if "calm (fst e)" for e g
    using that by (cases e; cases "fst e") (auto simp: calm_def)
  with es(2) have "unserved (es @ h) = unserved h" by (induction es) simp_all
  with es(1) show ?thesis by simp
qed

lemma calm_run:
  assumes "wp m (\<lambda>r h'. Q r \<and> emits (\<lambda>e. calm (fst e)) h h')"
  shows "gwp (admission db l) h m (\<lambda>r h'. Q r \<and> unserved h' = unserved h)"
  unfolding gwp_def
  by (rule wp_mono [OF assms]) (auto intro: emits_guarded calm_admission dest: calm_unserved)

lemma sendError_calm: "gwp (admission db l) h (sendError S fd e h) (\<lambda>_ h'. unserved h' = unserved h)"
proof -
  have "wp (sendError S fd e h) (\<lambda>r h'. True \<and> emits (\<lambda>e. calm (fst e)) h h')"
    by (rule wp_mono [OF emits_gwp [OF sendError_writes]]) (auto simp: calm_def elim: emits_mono)
  from calm_run [OF this] show ?thesis by simp
qed

lemma twp_wp: "twp m Q \<Longrightarrow> wp m Q"
  by (auto simp: twp_def wp_def split: option.splits)

lemma lookups_calm:
  assumes "emits (\<lambda>e. lookup_call (fst e)) g h"
  shows "guarded (admission db l) g h" and "unserved h = unserved g"
proof -
  have "emits (\<lambda>e. calm (fst e)) g h" by (rule emits_mono [OF assms]) (simp add: calm_def)
  then show "unserved h = unserved g" by (rule calm_unserved)
  show "guarded (admission db l) g h"
    by (rule emits_guarded [OF assms]) (simp add: calm_admission calm_def)
qed

lemma authorizeClient_admits:
  assumes db: "answers_users S db"
  shows "gwp (admission db l) h (authorizeClient S client h)
    (\<lambda>r h'. (fst r \<longrightarrow> peer_authorized db client h h') \<and> unserved h' = unserved h)"
proof -
  have name: "CHR 0x00 \<notin> set kAdminGroup" by (simp add: kAdminGroup_def)
  have check: "gwp (admission db l) g (isAuthorizedUser S uid gid kAdminGroup g)
      (\<lambda>r h'. (r = authorized db uid gid kAdminGroup \<and> emits (\<lambda>e. lookup_call (fst e)) g h') \<and> unserved h' = unserved g)"
    for uid gid g
    using authorization_decides [OF db name, of uid gid g, THEN twp_wp]
    unfolding gwp_def
    by (rule wp_mono) (simp add: lookups_calm)
  have answer: "peer_authorized db client h h'"
    if "emits (\<lambda>e. lookup_call (fst e)) ((CNet (NPeerCred client), r) # h) h'" "r_ret r = 0"
      "r_nums r = [pid, uid, gid]" "authorized db uid gid kAdminGroup" for r h' pid uid gid
    using that unfolding peer_authorized_def by blast
  show ?thesis
    unfolding authorizeClient_def
  proof (rule gwp_call, goal_cases)
    case (2 r)
    show ?case
    proof (cases "\<exists>pid uid gid. r_nums r = [pid, uid, gid] \<and> r_ret r = 0")
      case True
      then obtain pid uid gid where r: "r_nums r = [pid, uid, gid]" "r_ret r = 0" by blast
      show ?thesis
        unfolding r prod.case list.case
        by (intro gwp_if gwp_bind [OF check] gwp_pair gwp_ret) (auto intro: answer [OF _ r(2,1)])
    next
      case False
      then show ?thesis by (auto simp: gwp_def wp_Some split: list.splits)
    qed
  qed (simp add: admission_def)
qed

lemma start_worker_admits:
  assumes "peer_authorized db client ((CNet (NAccept l), r) # h) g" and "r_ret r = client"
    and "unserved g = {client}"
  shows "gwp (admission db l) g (start_worker S client g) (\<lambda>_ h'. unserved h' = {})"
  unfolding start_worker_def
  by (intro gwp_intros gwp_bind [OF sendError_calm])
    (use assms in \<open>auto simp: admission_def\<close>)

lemma admit_client_admits:
  assumes db: "answers_users S db" and "unserved h = {}" and client: "r_ret r = client" "0 \<le> client"
  shows "gwp (admission db l) ((CNet (NAccept l), r) # h) (admit_client S client ((CNet (NAccept l), r) # h))
    (\<lambda>_ h'. unserved h' = {})"
  unfolding admit_client_def
  by (intro gwp_intros gwp_bind [OF authorizeClient_admits [OF db]] gwp_bind [OF sendError_calm] start_worker_admits)
    (use assms in \<open>auto simp: admission_def\<close>)

lemma accept_round_admits:
  assumes "answers_users S db" and "unserved h = {}"
  shows "gwp (admission db l) h (accept_round S l h) (\<lambda>_ h'. unserved h' = {})"
  unfolding accept_round_def
  by (intro gwp_intros gwp_bind [OF admit_client_admits])
    (use assms in \<open>auto simp: admission_def\<close>)

lemma accept_rounds_admit:
  assumes "answers_users S db" and "unserved h = {}"
  shows "gwp (admission db l) h (accept_rounds S l n h) (\<lambda>_ h'. unserved h' = {})"
  using assms(2)
proof (induction n arbitrary: h)
  case 0
  then show ?case by (simp add: gwp_ret)
next
  case (Suc n)
  then show ?case
    unfolding accept_rounds.simps
    by (intro gwp_intros Suc.IH gwp_bind [OF accept_round_admits [OF assms(1)]]) (simp_all add: admission_def)
qed

section \<open>Opening the control socket\<close>

text \<open>The sockets created and not closed, and whether the daemon has a socket bound at \<open>path\<close>.\<close>

fun own_sockets :: "hist \<Rightarrow> int set" where
  "own_sockets [] = {}"
| "own_sockets ((c, r) # h) =
     (case c of
        CNet NSocketUnix \<Rightarrow> if r_ret r < 0 then own_sockets h else insert (r_ret r) (own_sockets h)
      | CClose fd \<Rightarrow> own_sockets h - {fd}
      | _ \<Rightarrow> own_sockets h)"

fun bound_at :: "string \<Rightarrow> hist \<Rightarrow> bool" where
  "bound_at path [] = False"
| "bound_at path ((c, r) # h) =
     (case c of
        CNet (NBind fd p) \<Rightarrow> (p = path \<and> r_ret r = 0) \<or> bound_at path h
      | CUnlink p \<Rightarrow> bound_at path h \<and> \<not> (p = path \<and> r_ret r = 0)
      | _ \<Rightarrow> bound_at path h)"

text \<open>
  Listening comes right after the path was given to root and the administrators' group and closed to
  all others; what stands at the path is removed only where it was just seen to be a socket, or was
  bound there by the daemon itself.
\<close>

definition socket_guard :: "string \<Rightarrow> event \<Rightarrow> hist \<Rightarrow> bool" where
  "socket_guard path e g =
     (case fst e of
        CNet (NListen fd n) \<Rightarrow>
          (\<exists>a b u d s g0. g = [(CChmod path 432, a), (CChown path 0 (first_num u), b),
              (CUser (UGetGrNam kAdminGroup), u), (CNet (NBind fd path), d), (CNet NSocketUnix, s)] @ g0 \<and>
            r_ret a = 0 \<and> r_ret b = 0 \<and> r_ret u = 0 \<and> r_ret d = 0 \<and> r_ret s = fd)
      | CUnlink p \<Rightarrow> p = path \<and>
          (bound_at path g \<or> (\<exists>r g0. g = (CLstat path, r) # g0 \<and> r_ret r = 0 \<and> r_kind r = KSock))
      | CRemove p \<Rightarrow> False
      | CRemoveAll p \<Rightarrow> False
      | CRename p q \<Rightarrow> False
      | _ \<Rightarrow> True)"

definition socket_opened :: "string \<Rightarrow> hist \<Rightarrow> int result \<Rightarrow> hist \<Rightarrow> bool" where
  "socket_opened path h r h' =
     (case r of
        Inr fd \<Rightarrow> own_sockets h' = insert fd (own_sockets h) \<and>
          (\<exists>z g. h' = (CNet (NListen fd 8), z) # g \<and> r_ret z = 0)
      | Inl e \<Rightarrow> own_sockets h' \<subseteq> own_sockets h \<and>
          (\<not> bound_at path h' \<or> (\<exists>z g. h' = (CUnlink path, z) # g \<and> r_ret z \<noteq> 0)))"

lemma directory_event_placid:
  "directory_event e \<Longrightarrow>
     own_sockets (e # h) = own_sockets h \<and> bound_at path (e # h) = bound_at path h \<and> socket_guard path e g"
  by (cases e; cases "fst e") (auto simp: directory_event_def socket_guard_def)

lemma directory_events_placid:
  assumes "list_all directory_event es"
  shows "own_sockets (es @ h) = own_sockets h" and "bound_at path (es @ h) = bound_at path h"
  using assms directory_event_placid by (induction es) simp_all

lemma ensureDirectory_placid:
  "gwp (socket_guard path) h (ensureDirectory S p m h)
     (\<lambda>_ h'. own_sockets h' = own_sockets h \<and> bound_at path h' = bound_at path h)"
  unfolding gwp_def
proof (rule wp_mono [OF ensureDirectory_emits], intro conjI)
  fix h' assume e: "emits directory_event h h'"
  show "guarded (socket_guard path) h h'"
    by (rule emits_guarded [OF e]) (use directory_event_placid in blast)
  obtain es where es: "h' = es @ h" "list_all directory_event es" using e by (auto simp: emits_def)
  show "own_sockets h' = own_sockets h" "bound_at path h' = bound_at path h"
    unfolding es(1) by (rule directory_events_placid [OF es(2)])+
qed

lemma secure_socket_secures:
  assumes "g = [(CUser (UGetGrNam kAdminGroup), u), (CNet (NBind fd path), d), (CNet NSocketUnix, s)] @ g0"
    and "r_ret u = 0" "r_ret d = 0" "r_ret s = fd"
  shows "gwp (socket_guard path) g (secure_socket S path fd (first_num u) g)
    (\<lambda>r h'. own_sockets h' = own_sockets g \<and> bound_at path h' \<and>
       (r \<longrightarrow> (\<exists>z g'. h' = (CNet (NListen fd 8), z) # g' \<and> r_ret z = 0)))"
  unfolding secure_socket_def by (intro gwp_intros) (use assms in \<open>auto simp: socket_guard_def\<close>)

lemma open_socket_opens:
  assumes "\<not> bound_at path h"
  shows "gwp (socket_guard path) h (open_socket S path h) (socket_opened path h)"
  unfolding open_socket_def Let_def
  by (intro gwp_intros gwp_bind [OF secure_socket_secures])
    (auto simp: assms socket_guard_def socket_opened_def)

lemma clear_socket_path_clears:
  assumes "\<not> bound_at path h"
  shows "gwp (socket_guard path) h (clear_socket_path S path h)
     (\<lambda>_ h'. own_sockets h' = own_sockets h \<and> \<not> bound_at path h')"
  unfolding clear_socket_path_def
  by (intro gwp_intros) (auto simp: assms socket_guard_def)

lemma createSocket_opens:
  assumes "\<not> bound_at path h"
  shows "gwp (socket_guard path) h (createSocket S path h) (socket_opened path h)"
  unfolding createSocket_def
  by (intro gwp_intros gwp_bind [OF ensureDirectory_placid] gwp_bind [OF clear_socket_path_clears]
      gwp_mono [OF open_socket_opens])
    (use assms in \<open>auto simp: socket_opened_def split: sum.splits\<close>)

section \<open>Properties\<close>

text \<open>C36: Only authorized users reach the daemon. However long the accept loop runs, a worker is started only for
  the client just accepted whose peer, as named by the kernel, is authorized by the user database
  (root, or in the administrators' group), after its time limits were set and it was counted; a
  client is counted off by the loop only when its worker could not start; and after each round every
  accepted client was handed to a worker or closed. The rounds are those of the loop.\<close>

theorem only_authorized_clients_served:
  assumes "answers_users S db" and "unserved h = {}"
  shows "gwp (admission db listener) h (accept_rounds S listener n h) (\<lambda>_ h'. unserved h' = {}) \<and>
     (accept_loop S listener h = Some ((), h') \<longleftrightarrow> (\<exists>n. accept_rounds S listener n h = Some (False, h')))"
  by (intro conjI accept_rounds_admit [OF assms] accept_loop_iff)

text \<open>A user connects; the daemon is asked to stop once a client was accepted and closed or served.\<close>

definition door_answer :: "int \<Rightarrow> hist \<Rightarrow> call \<Rightarrow> resp" where
  "door_answer uid h c =
     (case c of
        CNet (NPollOne fd out t) \<Rightarrow> (done_resp 1 [])\<lparr>r_nums := [1]\<rparr>
      | CNet (NAccept l) \<Rightarrow> done_resp 7 []
      | CNet (NPeerCred fd) \<Rightarrow> (done_resp 0 [])\<lparr>r_nums := [99, uid, uid]\<rparr>
      | CNet NSocketUnix \<Rightarrow> done_resp 5 []
      | CLstat p \<Rightarrow> (done_resp 0 [])\<lparr>r_kind := if p = ''/run/tunproxy/control.sock'' then KSock else KDir\<rparr>
      | CWrite fd d \<Rightarrow> done_resp (int (length d)) []
      | CEnv EStopRequested \<Rightarrow> done_resp (if h = [] then 0 else 1) []
      | _ \<Rightarrow> db_answer sample_db h c)"

definition door_os :: "int \<Rightarrow> os" where
  "door_os uid = count_os\<lparr>answer := door_answer uid\<rparr>"

lemma door_users: "answers_users (door_os uid) sample_db"
  by (auto simp: answers_users_def door_os_def door_answer_def db_answer_def done_resp_def first_num_def
      group_list_answer_def Let_def split: option.splits)

definition calls_of :: "'a run \<Rightarrow> call list" where
  "calls_of m = (case m of None \<Rightarrow> [] | Some (_, h) \<Rightarrow> map fst h)"

lemma door_opens: "CEnv (EThread 7) \<in> set (calls_of (accept_rounds (door_os 1000) 3 2 []))"
  by (simp add: numeral_2_eq_2 accept_round_def admit_client_def authorizeClient_def isAuthorizedUser_def
      start_worker_def sys_def door_os_def door_answer_def db_answer_def sample_db_def kAdminGroup_def
      done_resp_def first_num_def revents_def listed_def fill_groups_def calls_of_def Let_def)

theorem only_authorized_clients_served_witness:
  "gwp (admission sample_db 3) [] (accept_rounds (door_os 1000) 3 2 []) (\<lambda>_ h'. unserved h' = {}) \<and>
   CEnv (EThread 7) \<in> set (calls_of (accept_rounds (door_os 1000) 3 2 []))"
  using only_authorized_clients_served [OF door_users, of "[]" 3 1000 2] door_opens by simp

text \<open>C37: The control socket is safe before it is open. The daemon listens only after the path it just bound was
  given to root and the administrators' group and closed to all others, and removes what stands at
  the path only where that was just seen to be a socket or is its own; where it fails, it has closed
  its socket and left nothing bound, but for a path whose removal, the last thing it did, failed.\<close>

theorem control_socket_secured:
  assumes "\<not> bound_at path h"
  shows "gwp (socket_guard path) h (createSocket S path h) (socket_opened path h)"
  by (rule createSocket_opens [OF assms])

theorem control_socket_secured_witness:
  "gwp (socket_guard ''/run/tunproxy/control.sock'') []
     (createSocket (door_os 0) ''/run/tunproxy/control.sock'' []) (socket_opened ''/run/tunproxy/control.sock'' []) \<and>
   map_option fst (createSocket (door_os 0) ''/run/tunproxy/control.sock'' []) = Some (Inr 5)"
proof -
  have "map_option fst (createSocket (door_os 0) ''/run/tunproxy/control.sock'' []) = Some (Inr 5)" by code_simp
  with control_socket_secured [of "''/run/tunproxy/control.sock''" "[]" "door_os 0"] show ?thesis by simp
qed

end
