(* ===== verification/Protocol.thy ===== *)
theory Protocol
  imports Listener
begin

text \<open>
  Following a protocol: the calls of a thread move an automaton, and a run follows it where every
  call is a move. The rules follow the structure of a program. What the two kinds of threads of
  the daemon have in common is the locale \<open>thread_protocol\<close>: a call that is neither shared with
  other threads nor a change moves nothing, so receiving, sending, logging and looking can be passed
  over.
\<close>

section \<open>Runs that follow an automaton\<close>

fun moves :: "('s \<Rightarrow> event \<Rightarrow> 's option) \<Rightarrow> 's \<Rightarrow> hist \<Rightarrow> 's option" where
  "moves move w [] = Some w"
| "moves move w (e # h) = (case moves move w h of None \<Rightarrow> None | Some v \<Rightarrow> move v e)"

lemma moves_append:
  "moves move w (es @ h) = (case moves move w h of None \<Rightarrow> None | Some v \<Rightarrow> moves move v es)"
  by (induction es) (auto split: option.splits)

definition walks :: "('s \<Rightarrow> event \<Rightarrow> 's option) \<Rightarrow> 's \<Rightarrow> hist \<Rightarrow> hist \<Rightarrow> 's \<Rightarrow> bool" where
  "walks move w h h' w' \<longleftrightarrow> (\<exists>es. h' = es @ h \<and> moves move w es = Some w')"

lemma walks_refl [simp]: "walks move w h h w"
  by (simp add: walks_def)

lemma walks_trans: "walks move w h g v \<Longrightarrow> walks move v g h' w' \<Longrightarrow> walks move w h h' w'"
  unfolding walks_def by (auto simp: moves_append)

lemma walks_Cons: "move w e = Some v \<Longrightarrow> walks move w h (e # h) v"
  unfolding walks_def by (rule exI [of _ "[e]"]) simp

text \<open>Calls that do not move the automaton, whatever is answered.\<close>

definition still :: "('s \<Rightarrow> event \<Rightarrow> 's option) \<Rightarrow> 's \<Rightarrow> call \<Rightarrow> bool" where
  "still move w c \<longleftrightarrow> (\<forall>r. move w (c, r) = Some w)"

lemma still_walks: "guarded (\<lambda>e g. still move w (fst e)) h h' \<Longrightarrow> walks move w h h' w"
proof (induction rule: guarded.induct)
  case (guarded_Cons h' e)
  then have "move w e = Some w" by (cases e) (simp add: still_def)
  with guarded_Cons walks_Cons walks_trans show ?case by metis
qed simp

text \<open>\<open>walk move w h m w'\<close>: the run takes the automaton from \<open>w\<close> to \<open>w'\<close>.\<close>

definition walk :: "('s \<Rightarrow> event \<Rightarrow> 's option) \<Rightarrow> 's \<Rightarrow> hist \<Rightarrow> 'a run \<Rightarrow> 's \<Rightarrow> bool" where
  "walk move w h m w' \<longleftrightarrow> wp m (\<lambda>_ h'. walks move w h h' w')"

lemma walk_ret: "walk move w h (Some (r, h)) w"
  by (simp add: walk_def wp_Some)

lemma walk_bind:
  assumes "walk move w h m v" and "\<And>r h'. walk move v h' (f (r, h')) w'"
  shows "walk move w h (Option.bind m f) w'"
  unfolding walk_def wp_bind
proof (rule wp_mono [OF assms(1) [unfolded walk_def]])
  fix r g assume g: "walks move w h g v"
  show "wp (f (r, g)) (\<lambda>_ h'. walks move w h h' w')"
    by (rule wp_mono [OF assms(2) [unfolded walk_def]]) (rule walks_trans [OF g])
qed

text \<open>Where the automaton goes may depend on the answer.\<close>

lemma walk_answer:
  assumes "\<And>a. move w (c, a) = Some (v a)" and "\<And>a. walk move (v a) ((c, a) # h) (f (a, (c, a) # h)) w'"
  shows "walk move w h (Option.bind (sys S c h) f) w'"
  unfolding walk_def wp_bind wp_sys
  by (rule wp_mono [OF assms(2) [unfolded walk_def]]) (rule walks_trans [OF walks_Cons [of move, OF assms(1)]])

lemma walk_call:
  "(\<And>a. move w (c, a) = Some v) \<Longrightarrow> (\<And>a. walk move v ((c, a) # h) (f (a, (c, a) # h)) w') \<Longrightarrow>
     walk move w h (Option.bind (sys S c h) f) w'"
  by (rule walk_answer)

lemma walk_stay:
  "(\<And>a. move w (c, a) = Some w) \<Longrightarrow> (\<And>a. walk move w ((c, a) # h) (f (a, (c, a) # h)) w') \<Longrightarrow>
     walk move w h (Option.bind (sys S c h) f) w'"
  by (rule walk_call)

lemma walk_pair: "walk move w h (f a b) w' \<Longrightarrow> walk move w h (case (a, b) of (x, y) \<Rightarrow> f x y) w'"
  by simp

lemma walk_split:
  "walk move w h (f (fst x) (snd x) h') w' \<Longrightarrow> walk move w h ((case x of (a, b) \<Rightarrow> f a b) h') w'"
  by (simp add: case_prod_unfold)

lemma walk_if:
  "(b \<Longrightarrow> walk move w h m w') \<Longrightarrow> (\<not> b \<Longrightarrow> walk move w h n w') \<Longrightarrow> walk move w h (if b then m else n) w'"
  by simp

lemma walk_sum:
  "(\<And>e. x = Inl e \<Longrightarrow> walk move w h (f e) w') \<Longrightarrow> (\<And>v. x = Inr v \<Longrightarrow> walk move w h (g v) w') \<Longrightarrow>
     walk move w h (case x of Inl e \<Rightarrow> f e | Inr v \<Rightarrow> g v) w'"
  by (cases x) auto

lemma walk_option:
  "(x = None \<Longrightarrow> walk move w h f w') \<Longrightarrow> (\<And>v. x = Some v \<Longrightarrow> walk move w h (g v) w') \<Longrightarrow>
     walk move w h (case x of None \<Rightarrow> f | Some v \<Rightarrow> g v) w'"
  by (cases x) auto

lemmas walk_intros = walk_ret walk_stay walk_if walk_sum walk_option walk_pair walk_split

lemma stays:
  assumes m: "gwp G h m R" and G: "\<And>e g. G e g \<Longrightarrow> still move w (fst e)"
  shows "walk move w h m w"
  unfolding walk_def
proof (rule wp_mono [OF m [unfolded gwp_def]], elim conjE)
  fix h' assume "guarded G h h'"
  then have "guarded (\<lambda>e g. still move w (fst e)) h h'" by (rule guarded_mono) (rule G)
  then show "walks move w h h' w" by (rule still_walks)
qed

section \<open>What the threads have in common\<close>

fun naming :: "call \<Rightarrow> bool" where
  "naming (CEnv (ESetActive t)) = True"
| "naming _ = False"

definition plain :: "call \<Rightarrow> bool" where
  "plain c \<longleftrightarrow> \<not> thread_call c \<and> \<not> changes c \<and> \<not> naming c"

lemma writing_plain: "writing c \<Longrightarrow> plain c"
  by (cases c rule: writing.cases) (simp_all add: plain_def)

lemma receiving_plain: "receiving c \<Longrightarrow> plain c"
  by (cases c rule: receiving.cases) (simp_all add: plain_def)

lemma lookup_plain: "lookup_call c \<Longrightarrow> plain c"
  by (cases c rule: lookup_call.cases) (simp_all add: plain_def)

lemma looks_plain: "looks c \<Longrightarrow> plain c"
  by (cases c rule: looks.cases) (simp_all add: plain_def)

lemma directory_event_plain: "directory_event e \<Longrightarrow> plain (fst e)"
  by (cases "fst e") (simp_all add: plain_def directory_event_def)

lemma authorization_looks_up:
  "gwp (\<lambda>e g. lookup_call (fst e)) h (isAuthorizedUser S uid gid name h) (\<lambda>_ _. True)"
  unfolding isAuthorizedUser_def by (intro gwp_intros TrueI) simp_all

locale thread_protocol =
  fixes move :: "'s \<Rightarrow> event \<Rightarrow> 's option" and live :: "'s \<Rightarrow> bool"
  assumes plain_stays: "live w \<Longrightarrow> plain c \<Longrightarrow> move w (c, r) = Some w"
begin

lemma passes: "live w \<Longrightarrow> gwp G h m R \<Longrightarrow> (\<And>e g. G e g \<Longrightarrow> plain (fst e)) \<Longrightarrow> walk move w h m w"
  by (erule stays) (simp add: still_def plain_stays)

lemma receive: "live w \<Longrightarrow> walk move w h (receiveIpcFrame S fd h) w"
  by (erule passes [OF _ receiveIpcFrame_receives]) (rule receiving_plain)

lemma send_error: "live w \<Longrightarrow> walk move w h (sendError S fd e h) w"
  by (erule passes [OF _ sendError_writes]) (rule writing_plain)

lemma reply: "live w \<Longrightarrow> walk move w h (send_reply S fd r h) w"
  by (erule passes [OF _ send_reply_writes]) (rule writing_plain)

lemma look: "live w \<Longrightarrow> gwp looking h m R \<Longrightarrow> walk move w h m w"
  by (erule (1) passes) (rule looks_plain)

lemma authorize: "live w \<Longrightarrow> walk move w h (isAuthorizedUser S uid gid name h) w"
  by (erule passes [OF _ authorization_looks_up]) (rule lookup_plain)

lemma make_directory: "live w \<Longrightarrow> walk move w h (ensureDirectory S p m h) w"
  by (rule passes [OF _ gwp_emits [OF ensureDirectory_emits]], assumption, assumption) (rule directory_event_plain)

text \<open>A plain call in a program.\<close>

lemma call: "live w \<Longrightarrow> plain c \<Longrightarrow> (\<And>a. walk move w ((c, a) # h) (f (a, (c, a) # h)) w') \<Longrightarrow>
    walk move w h (Option.bind (sys S c h) f) w'"
  by (rule walk_call) (simp_all add: plain_stays)

lemma peer:
  assumes "live w"
  shows "walk move w h (authorizeClient S client h) w"
proof -
  have check: "walk move w g (do { (allowed, h) \<leftarrow> isAuthorizedUser S uid gid kAdminGroup g; Some ((allowed, uid), h) }) w" for uid gid g
    by (intro walk_bind [OF authorize [OF assms]] walk_pair walk_ret)
  have "walk move w g (case ns of [pid, uid, gid] \<Rightarrow>
       if b then Some ((False, n), g)
       else do { (allowed, h) \<leftarrow> isAuthorizedUser S uid gid kAdminGroup g; Some ((allowed, uid), h) }
     | _ \<Rightarrow> Some ((False, n), g)) w" for b n ns g
    using check by (auto simp: walk_ret split: list.splits)
  then show ?thesis
    unfolding authorizeClient_def by (intro call [OF assms] walk_pair) (simp_all add: plain_def)
qed

end

end
