(* ===== verification/Workers.thy ===== *)
theory Workers
  imports Protocol
begin

text \<open>
  The worker threads of \<^verbatim>\<open>src/daemon_main.cpp\<close>, seen by the others: a worker is an automaton over the
  calls that the threads share, and every run of \<open>client_thread\<close> is shown to follow it.
\<close>

section \<open>What a worker does to the others\<close>

text \<open>
  Where a worker is: before the mutex, with it (and the name of its operation set or cleared), past
  it, refused, counted off but still to notify the main thread, gone.
\<close>

datatype worker = Serving | Holding | Cleared | Served | Refused | Leaving | Gone

definition active :: "worker \<Rightarrow> bool" where
  "active w \<longleftrightarrow> w \<noteq> Leaving \<and> w \<noteq> Gone"

lemma active_simps [simp]:
  "active Serving" "active Holding" "active Cleared" "active Served" "active Refused"
  "\<not> active Leaving" "\<not> active Gone"
  by (simp_all add: active_def)

text \<open>
  The steps that the code of a worker may take; \<open>None\<close> for all others. Files and processes are
  changed only with the mutex; once counted off, a worker only notifies.
\<close>

definition env_move :: "worker \<Rightarrow> env_call \<Rightarrow> resp \<Rightarrow> worker option" where
  "env_move w c r =
     (case c of
        ETryLock \<Rightarrow> if w = Serving then Some (if r_ret r = 0 then Holding else Refused) else None
      | EGetActive \<Rightarrow> if w = Refused then Some Refused else None
      | ESetActive t \<Rightarrow> if w = Holding then Some Holding else None
      | EClearActive \<Rightarrow> if w = Holding then Some Cleared else None
      | EUnlock \<Rightarrow> if w = Cleared then Some Served else None
      | ELeave \<Rightarrow> if w = Serving \<or> w = Served \<or> w = Refused then Some Leaving else None
      | ENotify \<Rightarrow> if w = Leaving then Some Gone else None
      | _ \<Rightarrow> if thread_call (CEnv c) \<or> \<not> active w then None else Some w)"

definition worker_move :: "worker \<Rightarrow> event \<Rightarrow> worker option" where
  "worker_move w e =
     (case fst e of CEnv c \<Rightarrow> env_move w c (snd e)
      | c \<Rightarrow> if \<not> active w \<or> changes c \<and> w \<noteq> Holding then None else Some w)"

interpretation worker: thread_protocol worker_move active
proof
  fix w c r
  assume "active w" and "plain c"
  then show "worker_move w (c, r) = Some w"
    by (cases c) (auto simp: worker_move_def env_move_def plain_def split: env_call.splits)
qed

lemma holding_still: "\<not> thread_call c \<Longrightarrow> still worker_move Holding c"
  by (cases c) (auto simp: still_def worker_move_def env_move_def split: env_call.splits)

abbreviation unshared :: "event \<Rightarrow> hist \<Rightarrow> bool" where
  "unshared \<equiv> \<lambda>e g. \<not> thread_call (fst e)"

lemma proxy_private: "proxy_ok S P M c h \<Longrightarrow> \<not> thread_call c"
  by (cases c) simp_all

lemma still_private: "still_call c \<Longrightarrow> \<not> thread_call c"
  by (cases c) simp_all

lemma setting_update_private: "gwp unshared h (setting_update S P argument h) (\<lambda>_ _. True)"
proof -
  have dir: "gwp unshared g (ensureDirectory S p mode g) (\<lambda>_ _. True)" for p mode g
    by (rule gwp_emits [OF ensureDirectory_emits]) (auto dest: directory_harmless)
  have save: "gwp unshared g (save_config S P u g) (\<lambda>_ _. True)" for u g
    unfolding save_config_def
    by (intro gwp_intros gwp_bind [OF dir] writeFileAtomic_guard TrueI) (auto dest: still_private)
  show ?thesis unfolding setting_update_def by (intro gwp_intros gwp_bind [OF save] TrueI)
qed

lemma execute_private:
  assumes k: "fresh_kernel S" and L: "quiet_logger L"
  shows "gwp unshared h (execute_command S P c argument L h) (\<lambda>_ _. True)"
proof -
  have query: "gwp unshared g m (\<lambda>_ _. True)" if "gwp looking g m (\<lambda>_ _. True)" for g and m :: "string result run"
    by (rule gwp_weaken [OF that]) (simp add: looks_harmless)
  have proxy: "gwp unshared g (proxy_command S P c argument L g) (\<lambda>_ _. True)" for g
    unfolding proxy_command_def
    by (intro gwp_intros gwp_bind [OF gwp_weaken [OF stop_proxy_proxy [OF L]]]
        gwp_bind [OF gwp_weaken [OF start_proxy_proxy [OF k L]]] TrueI) (auto dest: proxy_private)
  have body: "gwp unshared g (if b then setting_update S P argument g else proxy_command S P c argument L g) (\<lambda>_ _. True)" for b g
    by (intro gwp_if setting_update_private proxy)
  have free: "gwp unshared g (release_lock S fd g) (\<lambda>_ _. True)" for fd g
    unfolding release_lock_def by (intro gwp_intros TrueI) simp_all
  show ?thesis
    unfolding execute_command_def
    by (intro gwp_intros query queries_look gwp_bind [OF gwp_weaken [OF acquire_unchanging [OF L]]]
        gwp_bind [OF body] gwp_bind [OF free] TrueI) simp
qed


section \<open>A worker follows the protocol\<close>

lemma execute_walk:
  assumes "fresh_kernel S" and "quiet_logger L" and "if isMutating c then w = Holding else active w"
  shows "walk worker_move w h (execute_command S P c argument L h) w"
proof (cases "isMutating c")
  case True
  with assms(3) stays [OF execute_private [OF assms(1,2)] holding_still] show ?thesis by simp
next
  case False
  then have "gwp looking h (execute_command S P c argument L h) (\<lambda>_ _. True)"
    using queries_look by (cases c) (simp_all add: execute_command_def isMutating_def)
  from worker.look [OF _ this] False assms(3) show ?thesis by simp
qed

lemmas env_moves = worker_move_def env_move_def

lemma run_command_walk:
  assumes k: "fresh_kernel S" and s: "signals_bounded S B"
  shows "isMutating c \<Longrightarrow> walk worker_move Holding h (run_command S P fd c argument True h) Served"
    and "\<not> isMutating c \<Longrightarrow> walk worker_move Serving h (run_command S P fd c argument False h) Serving"
proof -
  note exec = execute_walk [OF k client_logger_quiet [OF s]]
  have reply: "walk worker_move w g (if connected g then send_reply S fd r g else Some ((), g)) w" if "active w" for w r g
    by (intro walk_if walk_ret worker.reply that)
  have set: "walk worker_move Holding g (if True then do { (_, h) \<leftarrow> sys S (CEnv (ESetActive t)) g; Some ((), h) } else Some ((), g)) Holding" for t g
    by (simp add: walk_def wp_bind wp_sys wp_Some walks_Cons env_moves)
  have clear: "walk worker_move Holding g (if True then do { (_, h) \<leftarrow> sys S (CEnv EClearActive) g; Some ((), h) } else Some ((), g)) Cleared" for g
    by (simp add: walk_def wp_bind wp_sys wp_Some walks_Cons env_moves)
  have unlock: "walk worker_move Cleared g (if True then do { (_, h) \<leftarrow> sys S (CEnv EUnlock) g; Some ((), h) } else Some ((), g)) Served" for g
    by (simp add: walk_def wp_bind wp_sys wp_Some walks_Cons env_moves)
  have conn: "walk worker_move w g (Option.bind (sys S (CEnv (ESetConnected b)) g) f) w'"
    if "active w" "\<And>a. walk worker_move w ((CEnv (ESetConnected b), a) # g) (f (a, (CEnv (ESetConnected b), a) # g)) w'"
    for w w' b g and f :: "resp \<times> hist \<Rightarrow> unit run"
    by (rule walk_call [OF _ that(2)]) (use that(1) in \<open>simp add: env_moves\<close>)
  have skip: "walk worker_move w g (if False then m else Some ((), g)) w" for w g m by (simp add: walk_ret)
  show "walk worker_move Holding h (run_command S P fd c argument True h) Served" if "isMutating c"
    unfolding run_command_def
    by (intro walk_bind [OF set] walk_bind [OF exec] walk_bind [OF clear] walk_bind [OF reply] unlock walk_pair conn)
      (simp_all add: that env_moves)
  show "walk worker_move Serving h (run_command S P fd c argument False h) Serving" if "\<not> isMutating c"
    unfolding run_command_def
    by (intro walk_bind [OF skip] walk_bind [OF exec] walk_bind [OF reply] skip walk_pair conn)
      (simp_all add: that env_moves)
qed


text \<open>A worker that is done with its client.\<close>

definition request_served :: "hist \<Rightarrow> hist \<Rightarrow> bool" where
  "request_served h h' \<longleftrightarrow> (\<exists>w. (w = Serving \<or> w = Served \<or> w = Refused) \<and> walks worker_move Serving h h' w)"

lemma request_servedI [intro]:
  "walks worker_move Serving h h' Serving \<Longrightarrow> request_served h h'" "walks worker_move Serving h h' Served \<Longrightarrow> request_served h h'"
  "walks worker_move Serving h h' Refused \<Longrightarrow> request_served h h'"
  unfolding request_served_def by blast+

lemma request_served_trans:
  assumes first: "walks worker_move Serving h g Serving" and rest: "request_served g h'"
  shows "request_served h h'"
proof -
  obtain w where w: "w = Serving \<or> w = Served \<or> w = Refused" "walks worker_move Serving g h' w"
    using rest unfolding request_served_def by (elim exE conjE)
  from walks_trans [OF first w(2)] w(1) show ?thesis unfolding request_served_def by (intro exI conjI)
qed

lemma serveClient_walk:
  assumes "fresh_kernel S" and "signals_bounded S B"
  shows "wp (serveClient S P fd h) (\<lambda>_ h'. request_served h h')"
proof -
  note run = run_command_walk [OF assms]
  have request: "wp (serve_request S P fd c argument g) (\<lambda>_ h'. request_served g h')" for c argument g
  proof (cases "isMutating c")
    case False
    with run(2) [OF False, where P = P and fd = fd and argument = argument and h = g] show ?thesis
      unfolding serve_request_def walk_def by (auto elim!: wp_mono)
  next
    case True
    let ?a = "answer S g (CEnv ETryLock)" and ?g = "(CEnv ETryLock, answer S g (CEnv ETryLock)) # g"
    show ?thesis
    proof (cases "r_ret ?a = 0")
      case True
      then have "walks worker_move Serving g ?g Holding" by (simp add: walks_Cons env_moves)
      note taken = this
      have "wp (run_command S P fd c argument True ?g) (\<lambda>_ h'. request_served g h')"
        by (rule wp_mono [OF run(1) [OF \<open>isMutating c\<close>, unfolded walk_def]]) (rule request_servedI, erule walks_trans [OF taken])
      then show ?thesis using \<open>isMutating c\<close> True by (simp add: serve_request_def wp_bind wp_sys)
    next
      case False
      have moves: "walks worker_move Serving g ((CEnv EGetActive, r) # ?g) Refused" for r
        by (rule walks_trans [of _ _ _ ?g Refused]; rule walks_Cons) (simp_all add: env_moves False)
      have send: "walk worker_move Refused k (sendError S fd e k) Refused" for e k by (rule worker.send_error) simp
      have "wp (sendError S fd e ((CEnv EGetActive, r) # ?g)) (\<lambda>_ h'. request_served g h')" for e r
        by (rule wp_mono [OF send [unfolded walk_def]]) (rule request_servedI, erule walks_trans [OF moves])
      then show ?thesis using \<open>isMutating c\<close> False by (simp add: serve_request_def wp_bind wp_sys)
    qed
  qed
  have sending: "walk worker_move Serving g (sendError S fd e g) Serving" for e g by (rule worker.send_error) simp
  have send: "wp (sendError S fd e g) (\<lambda>_ h'. request_served h h')"
    if "walks worker_move Serving h g Serving" for e g
    by (rule wp_mono [OF sending [unfolded walk_def]]) (rule request_servedI, erule walks_trans [OF that])
  have serve: "wp (serve_request S P fd c argument g) (\<lambda>_ h'. request_served h h')"
    if "walks worker_move Serving h g Serving" for c argument g
    by (rule wp_mono [OF request]) (rule request_served_trans [OF that])
  have receive: "wp (receiveIpcFrame S fd h) (\<lambda>_ h'. walks worker_move Serving h h' Serving)"
    using worker.receive [of Serving] by (simp add: walk_def)
  show ?thesis
    unfolding serveClient_def
    by (auto simp: wp_bind split: sum.splits intro!: wp_mono [OF receive] send serve)
qed

lemma client_thread_walk:
  assumes "fresh_kernel S" and "signals_bounded S B"
  shows "wp (client_thread S P fd h) (\<lambda>_ h'. walks worker_move Serving h h' Gone \<and>
     (\<exists>a b c g. h' = (CEnv ENotify, c) # (CEnv ELeave, a) # (CClose fd, b) # g))"
proof -
  have left: "walks worker_move Serving h ((CEnv ENotify, c) # (CEnv ELeave, a) # (CClose fd, b) # g) Gone"
    if served: "request_served h g" for g a b c
  proof -
    obtain w where w: "w = Serving \<or> w = Served \<or> w = Refused" "walks worker_move Serving h g w"
      using served unfolding request_served_def by (elim exE conjE)
    have "walks worker_move Serving h g w" by (rule w(2))
    also have "walks worker_move w g ((CClose fd, b) # g) w"
      by (rule walks_Cons) (use w(1) in \<open>auto simp: env_moves\<close>)
    also (walks_trans) have "walks worker_move w ((CClose fd, b) # g) ((CEnv ELeave, a) # (CClose fd, b) # g) Leaving"
      by (rule walks_Cons) (use w(1) in \<open>auto simp: env_moves\<close>)
    also (walks_trans) have "walks worker_move Leaving ((CEnv ELeave, a) # (CClose fd, b) # g)
        ((CEnv ENotify, c) # (CEnv ELeave, a) # (CClose fd, b) # g) Gone"
      by (rule walks_Cons) (simp add: env_moves)
    finally (walks_trans) show ?thesis .
  qed
  show ?thesis
    unfolding client_thread_def
    by (auto simp: wp_bind wp_sys wp_Some intro!: wp_mono [OF serveClient_walk [OF assms]] left)
qed

section \<open>A worker always ends\<close>

lemma serveClient_returns:
  assumes "ticking S" and "output_bounded S N" and "signals_bounded S B"
  shows "returns (serveClient S P fd h)"
proof -
  have err: "returns (sendError S fd e g)" for e g
    unfolding sendError_def by (auto simp: returns_bind sendIpcFrame_returns [OF assms(3)] intro!: wpI)
  have reply: "returns (send_reply S fd r g)" for r g
    unfolding send_reply_def by (auto simp: returns_bind sendIpcFrame_returns [OF assms(3)] err intro!: wpI split: sum.splits)
  have exec: "returns (execute_command S P c a (client_logger S fd c) g)" for c a g
    by (rule execute_returns [OF assms(1,2) client_logger_quiet [OF assms(3)] assms(3)])
  have run: "returns (run_command S P fd c a b g)" for c a b g
    unfolding run_command_def by (auto simp: returns_bind exec reply intro!: wpI)
  show ?thesis
    unfolding serveClient_def serve_request_def
    by (auto simp: returns_bind receiveIpcFrame_returns [OF assms(3)] err run intro!: wpI split: sum.splits)
qed

lemma client_thread_returns:
  assumes "ticking S" and "output_bounded S N" and "signals_bounded S B"
  shows "returns (client_thread S P fd h)"
  unfolding client_thread_def by (auto simp: returns_bind serveClient_returns [OF assms] intro!: wpI)

section \<open>Properties\<close>

text \<open>C38: A worker follows the protocol and ends. Whatever its client sends, it returns; it changes things only
  between taking the operation mutex and giving it up, names its operation only while it has the
  mutex, clears the name before it gives the mutex up, asks for another's name only when it was refused the
  mutex, and ends by closing its descriptor, being counted off and notifying the main thread, the
  latter two once.\<close>

theorem worker_follows_protocol:
  assumes "fresh_kernel S" and "ticking S" and "output_bounded S N" and "signals_bounded S B"
  shows "twp (client_thread S P fd h) (\<lambda>_ h'. walks worker_move Serving h h' Gone \<and>
     (\<exists>a b c g. h' = (CEnv ENotify, c) # (CEnv ELeave, a) # (CClose fd, b) # g))"
  by (rule twpI [OF client_thread_returns [OF assms(2-4)] client_thread_walk [OF assms(1,4)]])

theorem worker_follows_protocol_witness:
  "twp (client_thread helper_os default_paths 7 []) (\<lambda>_ h'. walks worker_move Serving [] h' Gone \<and>
     (\<exists>a b c g. h' = (CEnv ENotify, c) # (CEnv ELeave, a) # (CClose 7, b) # g))"
  by (rule worker_follows_protocol [OF helper_os_kernel helper_os_ticking helper_os_output helper_os_signals])

end
