(* ===== verification/Threads.thy ===== *)
theory Threads
  imports Workers
begin

text \<open>
  The threads of \<^verbatim>\<open>src/daemon_main.cpp\<close> together. The main thread is an automaton as well, which the
  accept loop and the shutdown are shown to follow. The state of the whole daemon (the mutex, the name
  of the active operation, the number of clients, where each thread is) moves one call of one thread
  at a time, in any order; its invariant is proved over all reachable states. That the daemon ends
  when it is asked to is shown of the code of \<open>daemon_main\<close> itself.
\<close>

section \<open>The main thread\<close>

text \<open>
  It is in its loop (or before it), has counted a client whose thread is not started yet, could not
  start it, has counted that client off, or has seen the last client leave and cleans up. Processes are started and signalled
  only then. (No worker is left to read a name that is set while cleaning up.)
\<close>

datatype main_thread = Accepting | Entered | Failed | Notifying | Cleaning

definition main_env :: "main_thread \<Rightarrow> env_call \<Rightarrow> resp \<Rightarrow> main_thread option" where
  "main_env m c r =
     (case c of
        EEnter \<Rightarrow> if m = Accepting then Some Entered else None
      | EThread fd \<Rightarrow> if m = Entered then Some (if r_ret r < 0 then Failed else Accepting) else None
      | ELeave \<Rightarrow> if m = Failed then Some Notifying else None
      | ENotify \<Rightarrow> if m = Notifying then Some Accepting else None
      | EAwaitClients \<Rightarrow> if m = Accepting then Some Cleaning else None
      | ESetActive t \<Rightarrow> if m = Cleaning then Some Cleaning else None
      | _ \<Rightarrow> if thread_call (CEnv c) then None else Some m)"

definition main_move :: "main_thread \<Rightarrow> event \<Rightarrow> main_thread option" where
  "main_move m e =
     (case fst e of
        CEnv c \<Rightarrow> main_env m c (snd e)
      | CFork child \<Rightarrow> if m = Cleaning then Some m else None
      | CKill p s \<Rightarrow> if s = 0 \<or> m = Cleaning then Some m else None
      | _ \<Rightarrow> Some m)"

lemmas main_moves = main_move_def main_env_def

interpretation main: thread_protocol main_move "\<lambda>_. True"
proof
  fix m c r
  assume "plain c"
  then show "main_move m (c, r) = Some m"
    by (cases c) (auto simp: main_moves plain_def split: env_call.splits)
qed

lemma cleaning_still: "\<not> thread_call c \<Longrightarrow> still main_move Cleaning c"
  by (cases c) (auto simp: still_def main_moves split: env_call.splits)

lemma start_worker_walk: "walk main_move Accepting h (start_worker S client h) Accepting"
proof -
  have failed: "walk main_move (if r_ret a < 0 then Failed else Accepting) g
      (if r_ret a < 0 then do {
         (_, h) \<leftarrow> sys S (CEnv ELeave) g;
         (_, h) \<leftarrow> sys S (CEnv ENotify) h;
         (_, h) \<leftarrow> sendError S client (e a) h;
         (_, h) \<leftarrow> sys S (CClose client) h;
         Some ((), h) }
       else Some ((), g)) Accepting" for a g e
    by (cases "r_ret a < 0")
      (auto simp: walk_ret main_moves intro!: walk_call walk_bind [OF main.send_error])
  show ?thesis
    unfolding start_worker_def
    by (intro main.call walk_pair walk_call [of main_move Accepting _ Entered]
        walk_answer [of main_move Entered _ "\<lambda>a. if r_ret a < 0 then Failed else Accepting"] failed)
      (simp_all add: plain_def main_moves)
qed

lemma admit_client_walk: "walk main_move Accepting h (admit_client S client h) Accepting"
  unfolding admit_client_def
  by (intro walk_bind [OF main.peer] walk_pair walk_split walk_if main.call walk_bind [OF main.send_error] walk_ret
      start_worker_walk) (simp_all add: plain_def)

lemma accept_round_walk: "walk main_move Accepting h (accept_round S l h) Accepting"
  unfolding accept_round_def
  by (intro walk_pair walk_if main.call walk_bind [OF admit_client_walk] walk_ret) (simp_all add: plain_def)

lemma accept_rounds_walk: "walk main_move Accepting h (accept_rounds S l n h) Accepting"
proof (induction n arbitrary: h)
  case 0
  then show ?case by (simp add: walk_ret)
next
  case (Suc n)
  show ?case
    unfolding accept_rounds.simps
    by (intro walk_pair walk_if main.call walk_bind [OF accept_round_walk] walk_ret Suc.IH) (simp_all add: plain_def)
qed

lemma accept_loop_walk: "walk main_move Accepting h (accept_loop S l h) Accepting"
  using accept_rounds_walk [of h S l] accept_loop_rounds [of S l h]
  unfolding walk_def wp_def by (fastforce split: option.splits)

lemma find_listener_walk: "walk main_move Accepting h (find_listener S P h) Accepting"
proof -
  have clear: "walk main_move Accepting g (clear_socket_path S p g) Accepting" for p g
    unfolding clear_socket_path_def
    by (intro walk_intros) (simp_all add: main_moves)
  have secure: "walk main_move Accepting g (secure_socket S p fd gid g) Accepting" for p fd gid g
    unfolding secure_socket_def by (intro walk_intros) (simp_all add: main_moves)
  have opened: "walk main_move Accepting g (open_socket S p g) Accepting" for p g
    unfolding open_socket_def Let_def
    by (intro walk_bind [OF secure] walk_intros) (simp_all add: main_moves)
  have created: "walk main_move Accepting g (createSocket S p g) Accepting" for p g
    unfolding createSocket_def
    by (intro walk_bind [OF main.make_directory] walk_bind [OF clear] opened walk_intros) simp_all
  have socket: "walk main_move Accepting g (isSocketDescriptor S fd g) Accepting" for fd g
    unfolding isSocketDescriptor_def by (intro walk_intros) (simp_all add: main_moves)
  have inherited: "walk main_move Accepting g (inheritedSocket S g) Accepting" for g
    unfolding inheritedSocket_def
    by (intro walk_option walk_bind [OF socket] walk_intros) (simp_all add: main_moves)
  show ?thesis
    unfolding find_listener_def by (intro walk_bind [OF inherited] walk_bind [OF created] walk_intros)
qed

text \<open>The shutdown runs when the last client has left.\<close>

lemma shut_down_walk:
  assumes "fresh_kernel S"
  shows "walk main_move Cleaning h (shut_down S P l b h) Cleaning"
proof -
  have exec: "walk main_move Cleaning g (execute_command S P c a (stderr_logger S) g) Cleaning" for c a g
    by (rule stays [OF execute_private [OF assms stderr_logger_quiet] cleaning_still])
  have off: "walk main_move Cleaning g (if x then do {
       (stopped, h) \<leftarrow> execute_command S P Off [] (stderr_logger S) g;
       case stopped of Inr _ \<Rightarrow> Some ((), h)
       | Inl e \<Rightarrow> do { (_, h) \<leftarrow> sys S (CEnv (EStderr (t e))) h; Some ((), h) } }
     else Some ((), g)) Cleaning" for x t g
    by (intro walk_bind [OF exec] walk_intros) (simp_all add: main_moves)
  have gone: "walk main_move Cleaning g (if b then do { (_, h) \<leftarrow> sys S (CUnlink p) g; Some ((), h) } else Some ((), g)) Cleaning" for p g
    by (intro walk_intros) (simp_all add: main_moves)
  show ?thesis
    unfolding shut_down_def
    by (intro walk_bind [OF off] walk_bind [OF gone] walk_intros) (simp_all add: main_moves)
qed

definition main_done :: "hist \<Rightarrow> hist \<Rightarrow> bool" where
  "main_done h h' \<longleftrightarrow> walks main_move Accepting h h' Accepting \<or> walks main_move Accepting h h' Cleaning"

lemma main_done_I: "walk main_move Accepting h m v \<Longrightarrow> v = Accepting \<or> v = Cleaning \<Longrightarrow> wp m (\<lambda>_. main_done h)"
  unfolding walk_def by (erule wp_mono) (auto simp: main_done_def)

lemma main_done_call:
  assumes "\<And>a. main_move Accepting (c, a) = Some Accepting" and "\<And>a. wp (f (a, (c, a) # h)) (\<lambda>_. main_done ((c, a) # h))"
  shows "wp (Option.bind (sys S c h) f) (\<lambda>_. main_done h)"
  unfolding wp_bind wp_sys
  by (rule wp_mono [OF assms(2)]) (use walks_trans [OF walks_Cons [of main_move, OF assms(1)]] in \<open>auto simp: main_done_def\<close>)

lemma main_done_bind:
  assumes "walk main_move Accepting h m Accepting" and "\<And>r h'. wp (f (r, h')) (\<lambda>_. main_done h')"
  shows "wp (Option.bind m f) (\<lambda>_. main_done h)"
  unfolding wp_bind
proof (rule wp_mono [OF assms(1) [unfolded walk_def]])
  fix r g assume g: "walks main_move Accepting h g Accepting"
  show "wp (f (r, g)) (\<lambda>_. main_done h)"
    by (rule wp_mono [OF assms(2)]) (use walks_trans [OF g] in \<open>auto simp: main_done_def\<close>)
qed

lemma daemon_main_walk:
  assumes "fresh_kernel S"
  shows "wp (daemon_main S P h) (\<lambda>_. main_done h)"
proof -
  have serve: "wp (do {
      (_, h) \<leftarrow> accept_loop S l g;
      (_, h) \<leftarrow> sys S (CEnv EAwaitClients) h;
      shut_down S P l b h }) (\<lambda>_. main_done g)" for l b g
    by (rule main_done_I [of _ _ Cleaning], intro walk_bind [OF accept_loop_walk] walk_pair
        walk_call [of main_move Accepting _ Cleaning] shut_down_walk [OF assms]) (simp_all add: main_moves)
  have signals: "walk main_move Accepting g (if x then Some (True, g)
      else do { (r, h) \<leftarrow> sys S (CEnv (ESigaction 2)) g; Some (r_ret r \<noteq> 0, h) }) Accepting" for x g
    by (intro walk_intros) (simp_all add: main_moves)
  have said: "wp (do { (_, h) \<leftarrow> sys S (CEnv (EStderr t)) g; Some (v, h) }) (\<lambda>_. main_done g)" for t v g
    by (rule main_done_I [of _ _ Accepting], intro walk_intros) (simp_all add: main_moves)
  have rest: "wp (case found of Inl e \<Rightarrow> do { (_, h) \<leftarrow> sys S (CEnv (EStderr (t e))) g; Some (v e, h) }
      | Inr (l, b) \<Rightarrow> do {
          (_, h) \<leftarrow> accept_loop S l g;
          (_, h) \<leftarrow> sys S (CEnv EAwaitClients) h;
          shut_down S P l b h }) (\<lambda>_. main_done g)" for found t v g
    using said serve by (auto split: sum.splits)
  show ?thesis
    unfolding daemon_main_def
    by (auto simp: main_moves said rest intro!: main_done_call main_done_bind [OF signals]
        main_done_bind [OF find_listener_walk])
qed

section \<open>The daemon as a whole\<close>

text \<open>
  Workers are numbered; a number is used again only after its worker is gone.
\<close>

record daemon_state =
  ds_owner :: "nat option"
  ds_active :: string
  ds_clients :: nat
  ds_workers :: "nat \<Rightarrow> worker option"
  ds_main :: main_thread

definition daemon_start :: daemon_state where
  "daemon_start =
     \<lparr>ds_owner = None, ds_active = [], ds_clients = 0, ds_workers = (\<lambda>_. None), ds_main = Accepting\<rparr>"

text \<open>
  What a call of worker \<open>t\<close> does to the shared variables, where its answer is one the state allows:
  \<^verbatim>\<open>try_lock\<close> gets the mutex only where it is free, and may fail at any time.
\<close>

definition shared_effect :: "nat \<Rightarrow> event \<Rightarrow> daemon_state \<Rightarrow> daemon_state option" where
  "shared_effect t e s =
     (case fst e of
        CEnv c \<Rightarrow> (case c of
            ETryLock \<Rightarrow>
              if r_ret (snd e) \<noteq> 0 then Some s
              else if ds_owner s = None then Some (s\<lparr>ds_owner := Some t\<rparr>) else None
          | EUnlock \<Rightarrow> Some (s\<lparr>ds_owner := None\<rparr>)
          | EGetActive \<Rightarrow> if r_out (snd e) = ds_active s then Some s else None
          | ESetActive x \<Rightarrow> Some (s\<lparr>ds_active := x\<rparr>)
          | EClearActive \<Rightarrow> Some (s\<lparr>ds_active := []\<rparr>)
          | ELeave \<Rightarrow> Some (s\<lparr>ds_clients := ds_clients s - 1\<rparr>)
          | _ \<Rightarrow> Some s)
      | _ \<Rightarrow> Some s)"

text \<open>A worker that is counted: there, and not yet counted off.\<close>

definition counted :: "worker option \<Rightarrow> bool" where
  "counted w \<longleftrightarrow> w \<noteq> None \<and> w \<noteq> Some Leaving"

abbreviation clients :: "daemon_state \<Rightarrow> nat set" where
  "clients s \<equiv> {t. counted (ds_workers s t)}"

definition put_worker :: "nat \<Rightarrow> worker \<Rightarrow> daemon_state \<Rightarrow> daemon_state" where
  "put_worker t w s = s\<lparr>ds_workers := (ds_workers s)(t := (if w = Gone then None else Some w))\<rparr>"


text \<open>
  What a call of the main thread does: a thread that starts gets a free number, and waiting for the
  clients ends when there are none.
\<close>

definition main_effect :: "nat \<Rightarrow> event \<Rightarrow> daemon_state \<Rightarrow> daemon_state option" where
  "main_effect t e s =
     (case fst e of
        CEnv c \<Rightarrow> (case c of
            EEnter \<Rightarrow> Some (s\<lparr>ds_clients := ds_clients s + 1\<rparr>)
          | EThread fd \<Rightarrow>
              if r_ret (snd e) < 0 then Some s
              else if ds_workers s t = None then Some (put_worker t Serving s) else None
          | ELeave \<Rightarrow> Some (s\<lparr>ds_clients := ds_clients s - 1\<rparr>)
          | EAwaitClients \<Rightarrow> if ds_clients s = 0 then Some s else None
          | ESetActive x \<Rightarrow> Some (s\<lparr>ds_active := x\<rparr>)
          | _ \<Rightarrow> Some s)
      | _ \<Rightarrow> Some s)"

inductive daemon_step :: "daemon_state \<Rightarrow> daemon_state \<Rightarrow> bool" where
  main_step: "main_move (ds_main s) e = Some m \<Longrightarrow> main_effect t e s = Some s' \<Longrightarrow>
    daemon_step s (s'\<lparr>ds_main := m\<rparr>)"
| worker_step: "ds_workers s t = Some w \<Longrightarrow> worker_move w e = Some w' \<Longrightarrow> shared_effect t e s = Some s' \<Longrightarrow>
    daemon_step s (put_worker t w' s')"

inductive daemon_reachable :: "daemon_state \<Rightarrow> bool" where
  start: "daemon_reachable daemon_start"
| step: "daemon_reachable s \<Longrightarrow> daemon_step s s' \<Longrightarrow> daemon_reachable s'"

text \<open>
  The mutex belongs to the one worker that runs a changing command; the name is empty when no one
  does; the count is that of the workers not yet counted off, and of the client just counted; when
  the main thread cleans up there is no worker but those that have only to notify.
\<close>

definition has_mutex :: "worker option \<Rightarrow> bool" where
  "has_mutex w \<longleftrightarrow> w = Some Holding \<or> w = Some Cleared"

definition daemon_ok :: "daemon_state \<Rightarrow> bool" where
  "daemon_ok s \<longleftrightarrow>
     (\<forall>t. has_mutex (ds_workers s t) \<longleftrightarrow> ds_owner s = Some t) \<and>
     (ds_owner s = None \<and> ds_main s \<noteq> Cleaning \<longrightarrow> ds_active s = []) \<and>
     (\<forall>t. ds_workers s t = Some Cleared \<longrightarrow> ds_active s = []) \<and>
     finite (dom (ds_workers s)) \<and> (\<forall>t. ds_workers s t \<noteq> Some Gone) \<and>
     ds_clients s = card (clients s) + (if ds_main s = Entered \<or> ds_main s = Failed then 1 else 0) \<and>
     (ds_main s = Cleaning \<longrightarrow> clients s = {})"

lemma daemon_start_ok: "daemon_ok daemon_start"
  by (simp add: daemon_ok_def daemon_start_def has_mutex_def counted_def)

lemma env_move_cases:
  assumes "worker_move w e = Some w'"
  obtains (lock) a where "e = (CEnv ETryLock, a)" "w = Serving" "w' = (if r_ret a = 0 then Holding else Refused)"
  | (get) a where "e = (CEnv EGetActive, a)" "w = Refused" "w' = Refused"
  | (set) t a where "e = (CEnv (ESetActive t), a)" "w = Holding" "w' = Holding"
  | (clear) a where "e = (CEnv EClearActive, a)" "w = Holding" "w' = Cleared"
  | (unlock) a where "e = (CEnv EUnlock, a)" "w = Cleared" "w' = Served"
  | (leave) a where "e = (CEnv ELeave, a)" "w = Serving \<or> w = Served \<or> w = Refused" "w' = Leaving"
  | (gone) a where "e = (CEnv ENotify, a)" "w = Leaving" "w' = Gone"
  | (other) "w' = w" "\<And>t s. shared_effect t e s = Some s"
  using assms
  by (cases e; cases "fst e")
    (auto simp: worker_move_def env_move_def shared_effect_def split: env_call.splits if_splits)

lemma put_same: "ds_workers s t = Some w \<Longrightarrow> w \<noteq> Gone \<Longrightarrow> put_worker t w s = s"
  by (cases s) (auto simp: put_worker_def)

lemma clients_put:
  "clients (put_worker t w s) = (if counted (Some w) \<and> w \<noteq> Gone then insert t (clients s) else clients s - {t})"
  by (auto simp: put_worker_def counted_def)

lemma finite_clients: "daemon_ok s \<Longrightarrow> finite (clients s)"
proof -
  assume "daemon_ok s"
  then have "finite (dom (ds_workers s))" by (simp add: daemon_ok_def)
  moreover have "clients s \<subseteq> dom (ds_workers s)" by (auto simp: counted_def)
  ultimately show ?thesis by (rule rev_finite_subset)
qed

text \<open>
  A step of a worker that stays counted keeps the count; what remains to be shown of it is the mutex
  and the name.
\<close>

lemma work_ok_counted:
  assumes ok: "daemon_ok s" and w: "ds_workers s t = Some w" "w \<noteq> Leaving" and w': "w' \<noteq> Leaving" "w' \<noteq> Gone"
    and s': "ds_workers s' = ds_workers s" "ds_clients s' = ds_clients s" "ds_main s' = ds_main s"
    and mutex: "\<And>r. has_mutex (ds_workers (put_worker t w' s) r) \<longleftrightarrow> ds_owner s' = Some r"
    and idle: "ds_owner s' = None \<and> ds_main s \<noteq> Cleaning \<Longrightarrow> ds_active s' = []"
    and cleared: "\<And>r. ds_workers (put_worker t w' s) r = Some Cleared \<Longrightarrow> ds_active s' = []"
  shows "daemon_ok (put_worker t w' s')"
proof -
  have t: "t \<in> clients s" using w by (simp add: counted_def)
  have c: "clients (put_worker t w' s) = clients s"
    using t w' by (auto simp: put_worker_def counted_def)
  have same: "ds_workers (put_worker t w' s') = ds_workers (put_worker t w' s)"
    using s'(1) by (simp add: put_worker_def)
  have rest: "ds_owner (put_worker t w' s') = ds_owner s'" "ds_active (put_worker t w' s') = ds_active s'"
    "ds_clients (put_worker t w' s') = ds_clients s" "ds_main (put_worker t w' s') = ds_main s"
    using s' by (simp_all add: put_worker_def)
  have fin: "finite (dom (ds_workers (put_worker t w' s)))" "ds_workers (put_worker t w' s) r \<noteq> Some Gone" for r
    using ok w'(2) by (auto simp: daemon_ok_def put_worker_def)
  show ?thesis
    unfolding daemon_ok_def c rest same
    using ok mutex idle cleared fin by (auto simp: daemon_ok_def)
qed

lemma work_ok:
  assumes ok: "daemon_ok s" and w: "ds_workers s t = Some w" and move: "worker_move w e = Some w'"
    and eff: "shared_effect t e s = Some s'"
  shows "daemon_ok (put_worker t w' s')"
proof -
  have w_there: "w \<noteq> Gone" using ok w by (auto simp: daemon_ok_def)
  note inv = ok [unfolded daemon_ok_def]
  have mutex: "has_mutex (ds_workers s r) \<longleftrightarrow> ds_owner s = Some r" for r using inv by blast
  from move show ?thesis
  proof (cases rule: env_move_cases)
    case (lock a)
    show ?thesis
    proof (cases "r_ret a = 0")
      case True
      with lock eff have s': "s' = s\<lparr>ds_owner := Some t\<rparr>" "ds_owner s = None" "w' = Holding"
        by (auto simp: shared_effect_def split: if_splits)
      then show ?thesis
        using lock mutex inv
        by (intro work_ok_counted [OF ok w]) (auto simp: put_worker_def has_mutex_def split: if_splits)
    next
      case False
      with lock eff have s': "s' = s" "w' = Refused" by (auto simp: shared_effect_def)
      have owner: "ds_owner s \<noteq> Some t" using mutex [of t] w lock by (simp add: has_mutex_def)
      with s' show ?thesis
        using lock mutex inv
        by (intro work_ok_counted [OF ok w]) (auto simp: put_worker_def has_mutex_def split: if_splits)
    qed
  next
    case other
    with eff w w_there ok show ?thesis by (simp add: put_same)
  next
    case (get a)
    with eff w w_there ok show ?thesis by (simp add: put_same shared_effect_def split: if_splits)
  next
    case (set x a)
    with eff have s': "s' = s\<lparr>ds_active := x\<rparr>" by (simp add: shared_effect_def)
    have owner: "ds_owner s = Some t" using mutex [of t] w set by (simp add: has_mutex_def)
    have "\<not> has_mutex (ds_workers s r)" if "r \<noteq> t" for r using mutex [of r] owner that by simp
    then show ?thesis
      using s' owner set mutex inv w
      by (intro work_ok_counted [OF ok w]) (auto simp: put_worker_def has_mutex_def split: if_splits)
  next
    case (clear a)
    with eff have s': "s' = s\<lparr>ds_active := []\<rparr>" by (simp add: shared_effect_def)
    then show ?thesis
      using clear mutex inv w
      by (intro work_ok_counted [OF ok w]) (auto simp: put_worker_def has_mutex_def split: if_splits)
  next
    case (unlock a)
    with eff have s': "s' = s\<lparr>ds_owner := None\<rparr>" by (simp add: shared_effect_def)
    have owner: "ds_owner s = Some t" using mutex [of t] w unlock by (simp add: has_mutex_def)
    have others: "\<not> has_mutex (ds_workers s r)" if "r \<noteq> t" for r using mutex [of r] owner that by simp
    have "ds_active s = []" using inv w unlock by blast
    then show ?thesis
      using s' others unlock mutex inv w
      by (intro work_ok_counted [OF ok w]) (auto simp: put_worker_def has_mutex_def split: if_splits)
  next
    case (leave a)
    with eff have s': "s' = s\<lparr>ds_clients := ds_clients s - 1\<rparr>" by (simp add: shared_effect_def)
    have t: "t \<in> clients s" using w leave by (auto simp: counted_def)
    have c: "clients (put_worker t w' s') = clients s - {t}"
      unfolding clients_put leave s' by (simp add: counted_def)
    have "card (clients s - {t}) = card (clients s) - 1" "card (clients s) \<noteq> 0"
      using t finite_clients [OF ok] by auto
    moreover have owner: "ds_owner s \<noteq> Some t" using mutex [of t] w leave by (auto simp: has_mutex_def)
    ultimately show ?thesis
      unfolding daemon_ok_def c using inv t
      by (auto simp: s' leave put_worker_def has_mutex_def)
  next
    case (gone a)
    with eff have s': "s' = s" by (simp add: shared_effect_def)
    have owner: "ds_owner s \<noteq> Some t" using mutex [of t] w gone by (auto simp: has_mutex_def)
    have t: "t \<notin> clients s" using w gone by (simp add: counted_def)
    then have c: "clients (put_worker t w' s') = clients s"
      unfolding clients_put gone s' by (simp add: counted_def)
    show ?thesis
      unfolding daemon_ok_def c using inv owner
      by (auto simp: s' gone put_worker_def has_mutex_def)
  qed
qed

lemma main_move_cases:
  assumes "main_move m e = Some m'"
  obtains (enter) a where "e = (CEnv EEnter, a)" "m = Accepting" "m' = Entered"
  | (spawn) fd a where "e = (CEnv (EThread fd), a)" "m = Entered" "m' = (if r_ret a < 0 then Failed else Accepting)"
  | (leave) a where "e = (CEnv ELeave, a)" "m = Failed" "m' = Notifying"
  | (notify) a where "e = (CEnv ENotify, a)" "m = Notifying" "m' = Accepting"
  | (drained) a where "e = (CEnv EAwaitClients, a)" "m = Accepting" "m' = Cleaning"
  | (set) t a where "e = (CEnv (ESetActive t), a)" "m = Cleaning" "m' = Cleaning"
  | (other) "m' = m" "\<And>t s. main_effect t e s = Some s"
  using assms
  by (cases e; cases "fst e")
    (auto simp: main_moves main_effect_def split: env_call.splits if_splits)

lemma main_ok:
  assumes ok: "daemon_ok s" and move: "main_move (ds_main s) e = Some m" and eff: "main_effect t e s = Some s'"
  shows "daemon_ok (s'\<lparr>ds_main := m\<rparr>)"
proof -
  note inv = ok [unfolded daemon_ok_def]
  from move show ?thesis
  proof (cases rule: main_move_cases)
    case (enter a)
    with eff have "s' = s\<lparr>ds_clients := ds_clients s + 1\<rparr>" by (simp add: main_effect_def)
    with inv enter show ?thesis by (simp add: daemon_ok_def)
  next
    case (spawn fd a)
    show ?thesis
    proof (cases "r_ret a < 0")
      case True
      with spawn eff have "s' = s" "m = Failed" by (auto simp: main_effect_def)
      with inv spawn show ?thesis by (simp add: daemon_ok_def)
    next
      case False
      with spawn eff have s': "s' = put_worker t Serving s" "ds_workers s t = None" "m = Accepting"
        by (auto simp: main_effect_def split: if_splits)
      then have "t \<notin> clients s" by (simp add: counted_def)
      then have card: "card (insert t (clients s)) = Suc (card (clients s))" using finite_clients [OF ok] by simp
      have c: "clients (s'\<lparr>ds_main := m\<rparr>) = insert t (clients s)" using s' by (auto simp: put_worker_def counted_def)
      have owner: "ds_owner s \<noteq> Some t"
      proof
        assume "ds_owner s = Some t"
        with inv have "has_mutex (ds_workers s t)" by simp
        with s'(2) show False by (simp add: has_mutex_def)
      qed
      show ?thesis unfolding daemon_ok_def c card
        using s' inv spawn owner by (auto simp: put_worker_def has_mutex_def)
    qed
  next
    case (leave a)
    with eff have "s' = s\<lparr>ds_clients := ds_clients s - 1\<rparr>" by (simp add: main_effect_def)
    with inv leave show ?thesis by (simp add: daemon_ok_def)
  next
    case (notify a)
    with eff have "s' = s" by (simp add: main_effect_def)
    with inv notify show ?thesis by (simp add: daemon_ok_def)
  next
    case (drained a)
    with eff have s': "s' = s" "ds_clients s = 0" by (auto simp: main_effect_def split: if_splits)
    with inv finite_clients [OF ok] have "clients s = {}" by simp
    with s' inv drained show ?thesis by (simp add: daemon_ok_def)
  next
    case (set x a)
    with eff have "s' = s\<lparr>ds_active := x\<rparr>" by (simp add: main_effect_def)
    moreover have "ds_workers s r \<noteq> Some Cleared" for r
    proof
      assume "ds_workers s r = Some Cleared"
      then have "r \<in> clients s" by (simp add: counted_def)
      then show False using inv set by simp
    qed
    ultimately show ?thesis using inv set unfolding daemon_ok_def by auto
  next
    case other
    with eff ok show ?thesis by simp
  qed
qed

lemma daemon_step_ok: "daemon_step s s' \<Longrightarrow> daemon_ok s \<Longrightarrow> daemon_ok s'"
  by (induction rule: daemon_step.induct) (blast intro: work_ok main_ok)+

lemma daemon_reachable_ok: "daemon_reachable s \<Longrightarrow> daemon_ok s"
  by (induction rule: daemon_reachable.induct) (auto intro: daemon_start_ok daemon_step_ok)

section \<open>The daemon ends when it is asked to\<close>

text \<open>How often the loop looked whether it is to stop; and that it is, from the \<open>n\<close>th time on.\<close>

fun stop_checks :: "hist \<Rightarrow> nat" where
  "stop_checks [] = 0"
| "stop_checks (e # h) = (if fst e = CEnv EStopRequested then Suc (stop_checks h) else stop_checks h)"

definition stops_within :: "os \<Rightarrow> nat \<Rightarrow> bool" where
  "stops_within S n \<longleftrightarrow> (\<forall>h. n \<le> stop_checks h \<longrightarrow> r_ret (answer S h (CEnv EStopRequested)) \<noteq> 0)"

lemma stop_checks_extends: "extends h g \<Longrightarrow> stop_checks h \<le> stop_checks g"
proof -
  assume "extends h g"
  then obtain es where "g = es @ h" by (auto simp: extends_def)
  moreover have "stop_checks h \<le> stop_checks (es @ h)" by (induction es) auto
  ultimately show ?thesis by simp
qed

lemma accept_round_extends: "wp (accept_round S l h) (\<lambda>_ h'. extends h h')"
  using accept_round_walk [of h S l] unfolding walk_def
  by (rule wp_mono) (auto simp: walks_def extends_def)

lemma sendError_returns: "signals_bounded S B \<Longrightarrow> returns (sendError S fd e h)"
  unfolding sendError_def by (auto simp: returns_bind sendIpcFrame_returns intro!: wpI)

lemma accept_round_returns:
  assumes "signals_bounded S B"
  shows "returns (accept_round S l h)"
proof -
  have authorized: "returns (isAuthorizedUser S uid gid n g)" for uid gid n g
    by (simp add: isAuthorizedUser_def Let_def returns_bind wp_sys)
  have peer: "returns (authorizeClient S fd g)" for fd g
    unfolding authorizeClient_def
    by (auto simp: returns_bind authorized intro!: wpI split: list.splits)
  have start: "returns (start_worker S fd g)" for fd g
    unfolding start_worker_def by (auto simp: returns_bind sendError_returns [OF assms] intro!: wpI)
  show ?thesis
    unfolding accept_round_def admit_client_def
    by (auto simp: returns_bind peer start sendError_returns [OF assms] intro!: wpI)
qed

lemma accept_loop_returns:
  assumes s: "signals_bounded S B" and stop: "stops_within S n"
  shows "returns (accept_loop S l h)"
proof (induction "n - stop_checks h" arbitrary: h rule: less_induct)
  case less
  let ?a = "answer S h (CEnv EStopRequested)" and ?h = "(CEnv EStopRequested, answer S h (CEnv EStopRequested)) # h"
  show ?case
  proof (cases "r_ret ?a = 0")
    case True
    then have early: "stop_checks h < n" using stop unfolding stops_within_def by (meson not_le_imp_less)
    have again: "returns (accept_loop S l g)" if "extends ?h g" for g
      using early stop_checks_extends [OF that] by (intro less) simp
    have "returns (Option.bind (accept_round S l ?h) (\<lambda>(go_on, h). if go_on then accept_loop S l h else Some ((), h)))"
      unfolding returns_bind
      by (intro conjI accept_round_returns [OF s] wp_mono [OF accept_round_extends]) (simp add: again)
    with True show ?thesis by (subst accept_loop.simps) (simp add: sys_def)
  qed (subst accept_loop.simps, simp add: sys_def)
qed

text \<open>The loop looks whether it is to stop right before each time it may accept a client.\<close>

definition stop_tested :: "event \<Rightarrow> hist \<Rightarrow> bool" where
  "stop_tested e g \<longleftrightarrow>
     (case fst e of
        CNet (NAccept l) \<Rightarrow>
          (\<exists>p a g0. g = (CNet (NPollOne l False 500), p) # (CEnv EStopRequested, a) # g0 \<and> r_ret a = 0)
      | _ \<Rightarrow> True)"

lemma calm_tested: "calm (fst e) \<Longrightarrow> stop_tested e g"
  by (cases "fst e") (auto simp: calm_def stop_tested_def)

lemma accept_rounds_tested: "gwp stop_tested h (accept_rounds S l n h) (\<lambda>_ _. True)"
proof -
  have send: "gwp stop_tested g (sendError S fd e g) (\<lambda>_ _. True)" for fd e g
    by (rule gwp_weaken [OF sendError_writes]) (rule calm_tested, simp add: calm_def)
  have look: "gwp stop_tested g (isAuthorizedUser S uid gid x g) (\<lambda>_ _. True)" for uid gid x g
    by (rule gwp_weaken [OF authorization_looks_up]) (rule calm_tested, simp add: calm_def)
  have peer: "gwp stop_tested g (authorizeClient S fd g) (\<lambda>_ _. True)" for fd g
  proof -
    have "gwp stop_tested k (case ns of [pid, uid, gid] \<Rightarrow>
       if b then Some ((False, v), k)
       else do { (allowed, h) \<leftarrow> isAuthorizedUser S uid gid kAdminGroup k; Some ((allowed, uid), h) }
     | _ \<Rightarrow> Some ((False, v), k)) (\<lambda>_ _. True)" for b v ns k
      by (auto simp: gwp_ret split: list.splits intro!: gwp_bind [OF look])
    then show ?thesis
      unfolding authorizeClient_def by (intro gwp_call gwp_pair) (simp_all add: stop_tested_def)
  qed
  have start: "gwp stop_tested g (start_worker S fd g) (\<lambda>_ _. True)" for fd g
    unfolding start_worker_def by (intro gwp_intros gwp_bind [OF send] TrueI) (simp_all add: stop_tested_def)
  have admit: "gwp stop_tested g (admit_client S fd g) (\<lambda>_ _. True)" for fd g
    unfolding admit_client_def
    by (intro gwp_intros gwp_prod gwp_bind [OF peer] gwp_bind [OF send] start TrueI) (simp_all add: stop_tested_def)
  have round: "gwp stop_tested ((CEnv EStopRequested, a) # g) (accept_round S l ((CEnv EStopRequested, a) # g)) (\<lambda>_ _. True)"
    if "r_ret a = 0" for a g
    unfolding accept_round_def
    by (intro gwp_intros gwp_bind [OF admit] TrueI) (use that in \<open>auto simp: stop_tested_def\<close>)
  show ?thesis
  proof (induction n arbitrary: h)
    case (Suc n)
    show ?case
      unfolding accept_rounds.simps
      by (intro gwp_intros gwp_bind [OF round] Suc.IH TrueI) (simp_all add: stop_tested_def)
  qed (simp add: gwp_ret)
qed

lemma find_listener_returns: "returns (find_listener S P h)"
  unfolding find_listener_def inheritedSocket_def isSocketDescriptor_def createSocket_def clear_socket_path_def
    open_socket_def secure_socket_def Let_def
  by (auto simp: returns_bind ensureDirectory_returns intro!: wpI split: option.splits sum.splits)

lemma daemon_main_returns:
  assumes "ticking S" and "output_bounded S N" and "signals_bounded S B" and "stops_within S n"
  shows "returns (daemon_main S P h)"
proof -
  have shut: "returns (shut_down S P l b g)" for l b g
    unfolding shut_down_def
    by (auto simp: returns_bind execute_returns [OF assms(1,2) stderr_logger_quiet assms(3)] intro!: wpI split: sum.splits)
  show ?thesis
    unfolding daemon_main_def
    by (auto simp: returns_bind find_listener_returns accept_loop_returns [OF assms(3,4)] shut intro!: wpI split: sum.splits)
qed

section \<open>Properties\<close>


definition some_resp :: "int \<Rightarrow> resp" where
  "some_resp n = \<lparr>r_ret = n, r_errno = E0, r_out = [], r_kind = KOther, r_nums = [], r_names = [], r_addrs = []\<rparr>"

definition one_worker :: daemon_state where
  "one_worker = put_worker 0 Serving (daemon_start\<lparr>ds_clients := 1\<rparr>)"

lemma one_worker_reachable: "daemon_reachable one_worker"
proof -
  let ?e = "daemon_start\<lparr>ds_clients := 1, ds_main := Entered\<rparr>"
  have "daemon_step daemon_start ?e"
    using main_step [of daemon_start "(CEnv EEnter, some_resp 0)" Entered 0 "daemon_start\<lparr>ds_clients := 1\<rparr>"]
    by (simp add: main_moves main_effect_def daemon_start_def)
  with daemon_reachable.step daemon_reachable.start have e: "daemon_reachable ?e" by blast
  have "daemon_step ?e one_worker"
    using main_step [of ?e "(CEnv (EThread 7), some_resp 0)" Accepting 0 "put_worker 0 Serving ?e"]
    by (simp add: main_moves main_effect_def daemon_start_def put_worker_def one_worker_def some_resp_def)
  with daemon_reachable.step e show ?thesis by blast
qed

text \<open>
  The main thread may clean up, and so finish, while a worker that was counted off has still to
  notify it.
\<close>

definition late_notification :: daemon_state where
  "late_notification = put_worker 0 Leaving (daemon_start\<lparr>ds_main := Cleaning\<rparr>)"

lemma notification_may_come_late: "daemon_reachable late_notification"
proof -
  let ?l = "put_worker 0 Leaving daemon_start"
  have "daemon_step one_worker ?l"
    using worker_step [of one_worker 0 Serving "(CEnv ELeave, some_resp 0)" Leaving "one_worker\<lparr>ds_clients := 0\<rparr>"]
    by (simp add: one_worker_def put_worker_def env_moves shared_effect_def daemon_start_def)
  with daemon_reachable.step one_worker_reachable have l: "daemon_reachable ?l" by blast
  have "daemon_step ?l late_notification"
    using main_step [of ?l "(CEnv EAwaitClients, some_resp 0)" Cleaning 0 ?l]
    by (simp add: main_moves main_effect_def put_worker_def daemon_start_def late_notification_def)
  with daemon_reachable.step l show ?thesis by blast
qed

text \<open>The machine of \<open>helper_os\<close>, where the daemon is asked to stop at once.\<close>

definition stopping_answer :: "hist \<Rightarrow> call \<Rightarrow> resp" where
  "stopping_answer h c = (if c = CEnv EStopRequested then done_resp 1 [] else helper_answer h c)"

definition stopping_os :: os where
  "stopping_os = helper_os\<lparr>answer := stopping_answer\<rparr>"

lemma stopping_os_stops: "stops_within stopping_os 0"
  by (simp add: stops_within_def stopping_os_def stopping_answer_def done_resp_def)

lemma stopping_os_ticking: "ticking stopping_os"
  using helper_os_ticking by (simp add: ticking_def stopping_os_def stopping_answer_def helper_os_def)

lemma stopping_os_output: "output_bounded stopping_os 0"
  using helper_os_output by (simp add: output_bounded_def stopping_os_def stopping_answer_def helper_os_def)

lemma stopping_os_signals: "signals_bounded stopping_os 0"
  using helper_os_signals
  by (auto simp: signals_bounded_def stopping_os_def stopping_answer_def helper_os_def done_resp_def)

lemma stopping_os_kernel: "fresh_kernel stopping_os"
proof -
  have "fds_opened (c, stopping_answer h c) = fds_opened (c, helper_answer h c)" for h c
    by (auto simp: stopping_answer_def fds_opened_def)
  moreover have "stopping_answer h CPipe = helper_answer h CPipe" "stopping_answer h (CFork c) = helper_answer h (CFork c)" for h c
    by (simp_all add: stopping_answer_def)
  ultimately show ?thesis
    using helper_os_kernel by (simp add: fresh_kernel_def fresh_fds_def fresh_children_def stopping_os_def helper_os_def)
qed


end
