(* ===== verification/Client.thy ===== *)
theory Client
  imports Daemon
begin

text \<open>
  \<^verbatim>\<open>src/main.cpp\<close>: the command line program. It asks the daemon over the control socket, or runs
  the command itself with \<^verbatim>\<open>--direct\<close>, prints the log on the standard error output and the
  result on the standard output. The lemmas show that the bytes the daemon's worker sends give the
  client exactly the result and the log of the command.
\<close>

section \<open>Printing\<close>

definition printError :: "os \<Rightarrow> error \<Rightarrow> hist \<Rightarrow> nat run" where
  "printError S e h = do {
     (_, h) \<leftarrow> sys S (CEnv (EStderr (''error: '' @ err_message e @ [nl]))) h;
     Some (error_num (err_code e), h)
   }"

definition printUsage :: "os \<Rightarrow> hist \<Rightarrow> unit run" where
  "printUsage S h = do {
     (_, h) \<leftarrow> sys S (CEnv (EStderr
       (''Usage: tunproxy [--direct] <on|off|status|bypass|setting> [socks5://host:port]'' @ [nl]))) h;
     Some ((), h)
   }"

definition printLog :: "os \<Rightarrow> log_level \<Rightarrow> string \<Rightarrow> hist \<Rightarrow> unit run" where
  "printLog S level message h =
     (if level = Progress then do {
        (_, h) \<leftarrow> sys S (CEnv (EStderr message)) h;
        Some ((), h)
      }
      else do {
        (_, h) \<leftarrow> (if level = Warning then do {
            (_, h) \<leftarrow> sys S (CEnv (EStderr ''warning: '')) h; Some ((), h) }
          else Some ((), h));
        (_, h) \<leftarrow> sys S (CEnv (EStderr (message @ [nl]))) h;
        Some ((), h)
      })"

section \<open>Asking the daemon\<close>

definition log_level_of :: "u32 \<Rightarrow> log_level" where
  "log_level_of code = (if code = 0 then Info else if code = 1 then Warning else Progress)"

definition error_code_of :: "u32 \<Rightarrow> error_code" where
  "error_code_of code =
     (if code = 1 then Generic else if code = 2 then InvalidArguments
      else if code = 3 then InsufficientPrivileges else if code = 4 then InvalidConfiguration
      else if code = 5 then UpstreamUnreachable else if code = 6 then CoreVerificationFailure
      else if code = 7 then CoreDownloadFailure else if code = 8 then CoreStartFailure else StateError)"

text \<open>What an answer that is no log entry means.\<close>

definition remote_outcome :: "ipc_frame \<Rightarrow> string result" where
  "remote_outcome f =
     (if frame_type f = FrameResult then success (frame_payload f)
      else if frame_type f = FrameError \<and> word_of_nat (error_num Generic) \<le> frame_code f \<and>
          frame_code f \<le> word_of_nat (error_num StateError)
        then failure (error_code_of (frame_code f)) (frame_payload f)
      else failure StateError ''tunproxyd returned an invalid response'')"

partial_function (option) remote_loop :: "os \<Rightarrow> int \<Rightarrow> hist \<Rightarrow> string result run" where
  "remote_loop S descriptor h = do {
     (received, h) \<leftarrow> receiveIpcFrame S descriptor h;
     case received of
       Inl e \<Rightarrow> do { (_, h) \<leftarrow> sys S (CClose descriptor) h; Some (Inl e, h) }
     | Inr f \<Rightarrow>
         if frame_type f = FrameLog then
           (if word_of_nat (log_num Progress) < frame_code f then do {
              (_, h) \<leftarrow> sys S (CClose descriptor) h;
              Some (failure StateError ''tunproxyd returned an invalid log level'', h)
            }
            else do {
              (_, h) \<leftarrow> printLog S (log_level_of (frame_code f)) (frame_payload f) h;
              remote_loop S descriptor h
            })
         else do {
           (_, h) \<leftarrow> sys S (CClose descriptor) h;
           Some (remote_outcome f, h)
         }
   }"

definition executeRemote :: "os \<Rightarrow> app_paths \<Rightarrow> command \<Rightarrow> string \<Rightarrow> hist \<Rightarrow> string result run" where
  "executeRemote S P command argument h = do {
     (connection, h) \<leftarrow> connectControlSocket S (control_socket P) h;
     case connection of Inl e \<Rightarrow> Some (Inl e, h)
     | Inr descriptor \<Rightarrow> do {
         (sent, h) \<leftarrow> sendIpcFrame S descriptor
           \<lparr>frame_type = FrameRequest, frame_code = encodeCommand command, frame_payload = argument\<rparr> h;
         case sent of
           Inl e \<Rightarrow> do { (_, h) \<leftarrow> sys S (CClose descriptor) h; Some (Inl e, h) }
         | Inr _ \<Rightarrow> remote_loop S descriptor h
       }
   }"

definition execute_client ::
  "os \<Rightarrow> app_paths \<Rightarrow> bool \<Rightarrow> command \<Rightarrow> string \<Rightarrow> hist \<Rightarrow> string result run" where
  "execute_client S P direct command argument h =
     (if \<not> direct then executeRemote S P command argument h
      else do {
        (uid, h) \<leftarrow> sys S CGeteuid h;
        if r_ret uid \<noteq> 0 then
          Some (failure InsufficientPrivileges ''--direct requires root privileges'', h)
        else execute_command S P command argument (Some (printLog S)) h
      })"

section \<open>The command line\<close>

text \<open>
  \<^verbatim>\<open>std::getline(std::cin, input)\<close>. The answer is the line; its number is 0 where a newline ended
  it, and another where the input ended. After that the stream is not good, and \<^verbatim>\<open>getline\<close> leaves
  the string as it is.
\<close>

fun input_ended :: "hist \<Rightarrow> bool" where
  "input_ended [] = False"
| "input_ended ((c, r) # h) =
     (case c of CEnv EGetLine \<Rightarrow> r_ret r \<noteq> 0 \<or> input_ended h | _ \<Rightarrow> input_ended h)"

definition read_line :: "os \<Rightarrow> string \<Rightarrow> hist \<Rightarrow> string run" where
  "read_line S input h =
     (if input_ended h then Some (input, h)
      else do { (line, h) \<leftarrow> sys S (CEnv EGetLine) h; Some (r_out line, h) })"

definition ask :: "os \<Rightarrow> string \<Rightarrow> string \<Rightarrow> hist \<Rightarrow> string run" where
  "ask S prompt input h = do {
     (_, h) \<leftarrow> sys S (CEnv (EStdout prompt)) h;
     read_line S input h
   }"

text \<open>The port typed in, checked by parsing a URI made with it; nothing typed keeps the port.\<close>

definition with_port :: "upstream \<Rightarrow> string \<Rightarrow> upstream result" where
  "with_port updated input =
     (if input = [] then Inr updated
      else case parseUpstreamUri (''socks5://'' @
          (if CHR '':'' \<notin> set (host updated) then host updated else ''['' @ host updated @ '']'') @
          '':'' @ input) of
        Inl e \<Rightarrow> Inl e
      | Inr u \<Rightarrow> Inr (updated\<lparr>port := port u\<rparr>))"

definition save_setting :: "os \<Rightarrow> app_paths \<Rightarrow> bool \<Rightarrow> upstream \<Rightarrow> hist \<Rightarrow> nat run" where
  "save_setting S P direct updated h = do {
     (saved, h) \<leftarrow> execute_client S P direct SetSetting (formatUpstreamUri updated) h;
     case saved of Inl e \<Rightarrow> printError S e h
     | Inr t \<Rightarrow> do { (_, h) \<leftarrow> sys S (CEnv (EStdout t)) h; Some (0, h) }
   }"

definition interactiveSetting :: "os \<Rightarrow> app_paths \<Rightarrow> bool \<Rightarrow> hist \<Rightarrow> nat run" where
  "interactiveSetting S P direct h = do {
     (current_result, h) \<leftarrow> execute_client S P direct GetSetting [] h;
     case current_result of Inl e \<Rightarrow> printError S e h
     | Inr t \<Rightarrow> (case parseUpstreamUri t of Inl e \<Rightarrow> printError S e h
       | Inr updated \<Rightarrow> do {
           (input, h) \<leftarrow> ask S (''Host ['' @ host updated @ '']: '') [] h;
           let updated = (if input = [] then updated else updated\<lparr>host := input\<rparr>);
           (input, h) \<leftarrow> ask S (''Port ['' @ show_nat (unat (port updated)) @ '']: '') input h;
           case with_port updated input of Inl e \<Rightarrow> printError S e h
           | Inr updated \<Rightarrow> save_setting S P direct updated h
         })
   }"

text \<open>The commands of the command line; \<open>None\<close> stands for the setting, which is asked for.\<close>

definition named_command :: "string \<Rightarrow> bool \<Rightarrow> command option option" where
  "named_command name with_argument =
     (if name = ''on'' then Some (Some On)
      else if name = ''off'' then Some (Some Off)
      else if name = ''status'' then Some (Some Status)
      else if name = ''bypass'' then Some (Some Bypass)
      else if name = ''setting'' then
        (if with_argument then Some (Some SetSetting) else Some None)
      else None)"

text \<open>\<open>version\<close> is the text the build puts into \<^verbatim>\<open>version.hpp\<close>.\<close>

definition client_main :: "string \<Rightarrow> os \<Rightarrow> string list \<Rightarrow> hist \<Rightarrow> nat run" where
  "client_main version S argv h = do {
     (_, h) \<leftarrow> sys S (CEnv EIgnorePipe) h;
     if length argv = 2 \<and> (argv ! 1 = ''--version'' \<or> argv ! 1 = ''version'') then do {
       (_, h) \<leftarrow> sys S (CEnv (EStdout (''TunProxy '' @ version @ [nl] @
         ''Managed core: sing-box '' @ cm_version kSingBoxRelease @ [nl]))) h;
       Some (0, h)
     }
     else do {
       let direct = (1 < length argv \<and> argv ! 1 = ''--direct'');
       let command_index = (if direct then 2 else 1);
       let remaining = int (length argv) - int command_index;
       if remaining < 1 \<or> 2 < remaining then do {
         (_, h) \<leftarrow> printUsage S h;
         Some (error_num InvalidArguments, h)
       }
       else (case named_command (argv ! command_index) (remaining \<noteq> 1) of
           None \<Rightarrow> do { (_, h) \<leftarrow> printUsage S h; Some (error_num InvalidArguments, h) }
         | Some None \<Rightarrow> interactiveSetting S default_paths direct h
         | Some (Some c) \<Rightarrow> do {
             (result, h) \<leftarrow> execute_client S default_paths direct c
               (if remaining = 2 then argv ! (command_index + 1) else []) h;
             case result of Inl e \<Rightarrow> printError S e h
             | Inr t \<Rightarrow> do { (_, h) \<leftarrow> sys S (CEnv (EStdout t)) h; Some (0, h) }
           })
     }
   }"

section \<open>The conversation of one command\<close>

text \<open>A log message travels in pieces of at most 64 KiB, an empty one not at all.\<close>

function pieces :: "string \<Rightarrow> string list" where
  "pieces m = (if m = [] then [] else take kIpcMaximumPayload m # pieces (drop kIpcMaximumPayload m))"
  by pat_completeness auto

termination
  by (relation "measure length") (simp_all add: kIpcMaximumPayload_def)

declare pieces.simps [simp del]

lemma pieces_join: "concat (pieces m) = m"
  by (induction m rule: pieces.induct) (subst pieces.simps, simp)

lemma pieces_size: "p \<in> set (pieces m) \<Longrightarrow> p \<noteq> [] \<and> length p \<le> kIpcMaximumPayload"
proof (induction m rule: pieces.induct)
  case (1 m)
  then show ?case
    by (subst (asm) (2) pieces.simps) (auto simp: kIpcMaximumPayload_def split: if_splits)
qed

lemma pieces_short: "m \<noteq> [] \<Longrightarrow> length m \<le> kIpcMaximumPayload \<Longrightarrow> pieces m = [m]"
  by (subst pieces.simps, subst pieces.simps) simp

definition log_frames :: "log_level \<Rightarrow> string \<Rightarrow> ipc_frame list" where
  "log_frames l m = map (log_frame l) (pieces m)"

definition reply_frame :: "string result \<Rightarrow> ipc_frame" where
  "reply_frame r = (case r of Inl e \<Rightarrow> error_frame e
     | Inr t \<Rightarrow> \<lparr>frame_type = FrameResult, frame_code = 0, frame_payload = t\<rparr>)"

definition wire :: "ipc_frame list \<Rightarrow> string" where
  "wire fs = concat (map frame_bytes fs)"

text \<open>All the worker sends: the log of the command, and its result.\<close>

definition conversation :: "(log_level \<times> string) list \<Rightarrow> string result \<Rightarrow> ipc_frame list" where
  "conversation ms r = concat (map (\<lambda>(l, m). log_frames l m) ms) @ [reply_frame r]"

section \<open>What the worker sends\<close>

definition sends_some :: "int \<Rightarrow> string \<Rightarrow> hist \<Rightarrow> hist \<Rightarrow> bool" where
  "sends_some fd d h h' \<longleftrightarrow> (\<exists>k. sent fd h' = sent fd h @ take k d)"

definition sends_all :: "int \<Rightarrow> string \<Rightarrow> hist \<Rightarrow> hist \<Rightarrow> bool" where
  "sends_all fd d h h' \<longleftrightarrow> sent fd h' = sent fd h @ d"

text \<open>A write on the descriptor failed, other than by an interruption.\<close>

definition write_failed :: "int \<Rightarrow> hist \<Rightarrow> hist \<Rightarrow> bool" where
  "write_failed fd h h' \<longleftrightarrow>
     (\<exists>es d a. h' = es @ h \<and> (CWrite fd d, a) \<in> set es \<and> r_ret a \<le> 0 \<and>
        \<not> (r_ret a < 0 \<and> r_errno a = EINTR))"

text \<open>All bytes were sent, or some and then a write failed.\<close>

definition delivered :: "int \<Rightarrow> string \<Rightarrow> hist \<Rightarrow> hist \<Rightarrow> bool" where
  "delivered fd d h h' \<longleftrightarrow> sends_all fd d h h' \<or> (sends_some fd d h h' \<and> write_failed fd h h')"

lemma write_failed_extends:
  "write_failed fd h g \<Longrightarrow> extends g h' \<Longrightarrow> write_failed fd h h'"
  "extends h g \<Longrightarrow> write_failed fd g h' \<Longrightarrow> write_failed fd h h'"
  unfolding write_failed_def extends_def by force+

lemma sendAll_fails:
  "wp (sendAll S fd data h) (\<lambda>r h'. extends h h' \<and> (if ok r then True else write_failed fd h h'))"
proof (rule wpI)
  fix r h' assume ret: "sendAll S fd data h = Some (r, h')"
  let ?post = "\<lambda>fd h res. extends h (snd res) \<and> (if ok (fst res) then True else write_failed fd h (snd res))"
  have "?post fd h (r, h')"
  proof (rule sendAll.raw_induct [where P = "\<lambda>S fd data h res. ?post fd h res", OF _ ret], goal_cases)
    case (1 f S fd data h res)
    let ?a = "answer S h (CWrite fd data)"
    let ?h = "(CWrite fd data, ?a) # h"
    have longer: "extends h ?h" by simp
    have step: "?post fd h res" if "f S fd x ?h = Some res" for x
      using 1(1) [OF that] extends_trans [OF longer] write_failed_extends(2) [OF longer] by (auto split: if_splits)
    have fail: "write_failed fd h ?h" if "\<not> 0 < r_ret ?a" "\<not> (r_ret ?a < 0 \<and> r_errno ?a = EINTR)"
      unfolding write_failed_def using that by (intro exI [of _ "[(CWrite fd data, ?a)]"]) auto
    show ?case using 1(2) step fail by (auto simp: sys_def split: if_splits)
  qed
  then show "extends h h' \<and> (if ok r then True else write_failed fd h h')" by auto
qed

lemma sendIpcFrame_fails:
  assumes "wf_frame f"
  shows "wp (sendIpcFrame S fd f h) (\<lambda>r h'. extends h h' \<and> (if ok r then True else write_failed fd h h'))"
proof -
  have then_send: "wp (sendAll S fd x g) (\<lambda>r h'. extends h h' \<and> (if ok r then True else write_failed fd h h'))"
    if "extends h g" for x g
    by (rule wp_mono [OF sendAll_fails]) (use that extends_trans write_failed_extends(2) in \<open>auto split: if_splits\<close>)
  have small: "\<not> kIpcMaximumPayload < length (frame_payload f)"
    "\<not> 2 ^ 32 - 1 < kFrameMetadataSize + length (frame_payload f)"
    using assms by (simp_all add: wf_frame_def kIpcMaximumPayload_def kFrameMetadataSize_def)
  show ?thesis
    unfolding sendIpcFrame_def Let_def if_not_P [OF small(1)] if_not_P [OF small(2)]
    by (auto simp: wp_bind wp_Some split: if_splits intro!: wp_mono [OF then_send])
qed

lemma sends_all_some: "sends_all fd d h h' \<Longrightarrow> sends_some fd (d @ d') h h'"
  unfolding sends_all_def sends_some_def by (intro exI [of _ "length d"]) simp

lemma sends_some_after: "sends_all fd d h g \<Longrightarrow> sends_some fd d' g h' \<Longrightarrow> sends_some fd (d @ d') h h'"
  unfolding sends_all_def sends_some_def
proof (elim exE)
  fix k assume "sent fd g = sent fd h @ d" "sent fd h' = sent fd g @ take k d'"
  then show "\<exists>k. sent fd h' = sent fd h @ take k (d @ d')" by (intro exI [of _ "length d + k"]) simp
qed

lemma sends_some_more: "sends_some fd d h h' \<Longrightarrow> sends_some fd (d @ d') h h'"
  unfolding sends_some_def
proof (elim exE)
  fix k assume "sent fd h' = sent fd h @ take k d"
  then show "\<exists>k. sent fd h' = sent fd h @ take k (d @ d')"
    by (intro exI [of _ "min k (length d)"]) (simp add: min_def)
qed

lemma sends_some_Cons: "sends_some fd d h ((CEnv c, a) # g) \<longleftrightarrow> sends_some fd d h g"
  by (simp add: sends_some_def)

lemma sends_all_after: "sends_all fd d h g \<Longrightarrow> sends_all fd d' g h' \<Longrightarrow> sends_all fd (d @ d') h h'"
  by (simp add: sends_all_def)

lemma sendIpcFrame_sends:
  assumes "wf_frame f"
  shows "wp (sendIpcFrame S fd f h) (\<lambda>r h'.
    if ok r then sends_all fd (frame_bytes f) h h' else sends_some fd (frame_bytes f) h h')"
proof (rule wp_mono [OF sendIpcFrame_wp])
  fix r h' assume "if wf_frame f then sends_prefix fd (frame_bytes f) h r h'
     else h' = h \<and> (\<exists>m. r = failure InvalidArguments m)"
  with assms have "sends_prefix fd (frame_bytes f) h r h'" by simp
  then show "if ok r then sends_all fd (frame_bytes f) h h' else sends_some fd (frame_bytes f) h h'"
    by (cases r) (auto simp: sends_prefix_def sends_all_def sends_some_def)
qed

lemma send_log_sends:
  assumes "connected h"
  shows "wp (send_log S fd l m h) (\<lambda>_ h'.
     if connected h' then sends_all fd (wire (log_frames l m)) h h'
     else sends_some fd (wire (log_frames l m)) h h' \<and> write_failed fd h h')"
  using assms
proof (induction "length m" arbitrary: m h rule: less_induct)
  case less
  show ?case
  proof (cases "m = []")
    case True
    with less(2) show ?thesis
      by (subst send_log.simps) (simp add: wp_Some sends_all_def log_frames_def pieces.simps wire_def)
  next
    case False
    let ?f = "log_frame l (take kIpcMaximumPayload m)" and ?m = "drop kIpcMaximumPayload m"
    have fit: "wf_frame ?f" by (simp add: wf_frame_def log_frame_def)
    have split: "wire (log_frames l m) = frame_bytes ?f @ wire (log_frames l ?m)"
      using False by (simp add: log_frames_def pieces.simps [of m] wire_def)
    have short: "length ?m < length m" using False by (simp add: kIpcMaximumPayload_def)
    have step: "wp (send_log S fd l ?m ((CEnv (ESetConnected (ok r)), a) # g)) (\<lambda>_ h'.
        if connected h' then sends_all fd (wire (log_frames l m)) h h'
        else sends_some fd (wire (log_frames l m)) h h' \<and> write_failed fd h h')"
      if s: "if ok r then sends_all fd (frame_bytes ?f) h g else sends_some fd (frame_bytes ?f) h g"
        and w: "extends h g \<and> (if ok r then True else write_failed fd h g)" for r a g
    proof (cases "ok r")
      case True
      let ?g = "(CEnv (ESetConnected (ok r)), a) # g"
      have s': "sends_all fd (frame_bytes ?f) h ?g" using s True by (simp add: sends_all_def)
      have on: "connected ?g" using True by simp
      have longer: "extends h ?g" using w by simp
      show ?thesis unfolding split
      proof (rule wp_mono [OF less(1) [OF short on]], goal_cases)
        case (1 u k)
        with sends_some_after [OF s'] sends_all_after [OF s'] write_failed_extends(2) [OF longer]
        show ?case by (simp split: if_splits)
      qed
    next
      case False
      have "sends_some fd (wire (log_frames l m)) h ((CEnv (ESetConnected False), a) # g)"
        using s False sends_some_more unfolding split by (simp add: sends_some_Cons)
      moreover have "write_failed fd h ((CEnv (ESetConnected False), a) # g)"
        using w False write_failed_extends(1) [of fd h g] by simp
      ultimately show ?thesis using False by (subst send_log.simps) (simp add: wp_Some)
    qed
    have unfold: "send_log S fd l m h = do {
        (sent, h) \<leftarrow> sendIpcFrame S fd ?f h;
        (_, h) \<leftarrow> sys S (CEnv (ESetConnected (ok sent))) h;
        send_log S fd l ?m h }"
      using False less(2) by (subst send_log.simps) simp
    show ?thesis unfolding unfold wp_bind prod.case wp_sys
      by (rule wp_mono [OF wp_conj [OF sendIpcFrame_sends [OF fit] sendIpcFrame_fails [OF fit]]], rule step) blast+
  qed
qed

text \<open>What is on the connection after the reply: all of its frame unless a write failed; of a result above
  64 KiB nothing.\<close>

definition replied :: "int \<Rightarrow> string result \<Rightarrow> hist \<Rightarrow> hist \<Rightarrow> bool" where
  "replied fd r h h' \<longleftrightarrow>
     (if wf_frame (reply_frame r) then delivered fd (wire [reply_frame r]) h h' else sends_all fd [] h h')"

lemma sendIpcFrame_delivers:
  "wp (sendIpcFrame S fd f h) (\<lambda>_ h'. if wf_frame f then delivered fd (frame_bytes f) h h' else h' = h)"
proof (cases "wf_frame f")
  case True
  show ?thesis
    by (rule wp_mono [OF wp_conj [OF sendIpcFrame_sends [OF True] sendIpcFrame_fails [OF True]]])
      (auto simp: delivered_def True split: if_splits)
next
  case False
  show ?thesis by (rule wp_mono [OF sendIpcFrame_wp]) (use False in simp)
qed

lemma send_reply_replies: "wp (send_reply S fd r h) (\<lambda>_ h'. replied fd r h h')"
proof -
  have one: "wp (sendIpcFrame S fd (reply_frame r) h) (\<lambda>_ h'. replied fd r h h')"
    by (rule wp_mono [OF sendIpcFrame_delivers]) (auto simp: replied_def wire_def sends_all_def split: if_splits)
  show ?thesis
    using one unfolding send_reply_def sendError_def
    by (cases r) (simp_all add: reply_frame_def wp_bind wp_Some)
qed

lemma looks_sends_nothing:
  assumes "emits (\<lambda>e. looks (fst e)) h h'"
  shows "sent fd h' = sent fd h" and "connected h' = connected h"
proof -
  have "sent fd (e # g) = sent fd g" "connected (e # g) = connected g" if "looks (fst e)" for e g
    using that by (cases e; cases "fst e" rule: looks.cases; simp)+
  moreover obtain es where "h' = es @ h" "list_all (\<lambda>e. looks (fst e)) es" using assms by (auto simp: emits_def)
  ultimately have "sent fd (es @ h) = sent fd h \<and> connected (es @ h) = connected h"
    by (induction es arbitrary: h') simp_all
  with \<open>h' = es @ h\<close> show "sent fd h' = sent fd h" "connected h' = connected h" by simp_all
qed

text \<open>
  The worker runs the command as \<open>execute_command\<close> does, and replies with what it returned: \<open>g\<close> is the
  instant the command starts, \<open>g'\<close> the one it returns at. Before, only the name of the command and
  \<^verbatim>\<open>connected\<close> are set.
\<close>

definition prepared :: "command \<Rightarrow> hist \<Rightarrow> hist \<Rightarrow> bool" where
  "prepared c h g \<longleftrightarrow>
     (\<exists>a k. g = (CEnv (ESetConnected True), a) # k \<and>
        (k = h \<or> (\<exists>b. k = (CEnv (ESetActive (commandName c)), b) # h)))"

definition ran :: "os \<Rightarrow> app_paths \<Rightarrow> int \<Rightarrow> command \<Rightarrow> string \<Rightarrow> hist \<Rightarrow> hist \<Rightarrow> bool" where
  "ran D P fd c argument h h' \<longleftrightarrow>
     (\<exists>r g g'. prepared c h g \<and>
        execute_command D P c argument (client_logger D fd c) g = Some (r, g') \<and>
        (if connected g' then replied fd r g' h' else sends_all fd [] g' h'))"

lemma sends_env [simp]:
  "sends_all fd d h ((CEnv c, a) # g) = sends_all fd d h g" "sends_all fd d ((CEnv c, a) # h) g = sends_all fd d h g"
  "sends_some fd d h ((CEnv c, a) # g) = sends_some fd d h g" "sends_some fd d ((CEnv c, a) # h) g = sends_some fd d h g"
  by (simp_all add: sends_all_def sends_some_def)

lemma replied_env:
  "replied fd r h g \<Longrightarrow> replied fd r h ((CEnv c, a) # g)" "replied fd r ((CEnv c, a) # h) g \<Longrightarrow> replied fd r h g"
  using write_failed_extends(1) [of fd h g "(CEnv c, a) # g"] write_failed_extends(2) [of h "(CEnv c, a) # h" fd g]
  by (auto simp: replied_def delivered_def split: if_splits)

lemma ran_env: "ran D P fd c argument h g \<Longrightarrow> ran D P fd c argument h ((CEnv e, a) # g)"
  unfolding ran_def by (fastforce simp: replied_env(1) split: if_splits)

lemma ran_reply:
  assumes "execute_command D P c argument (client_logger D fd c) k = Some (r, g')"
    and "prepared c h k" and "g = g' \<or> (\<exists>a. g = (CEnv EClearActive, a) # g')"
  shows "wp (if connected g then send_reply D fd r g else Some ((), g)) (\<lambda>_ h'. ran D P fd c argument h h')"
proof -
  have same: "connected g = connected g'" using assms(3) by auto
  have "ran D P fd c argument h h'" if "connected g'" "replied fd r g h'" for h'
    using assms that replied_env(2) unfolding ran_def by (auto 4 4)
  moreover have "ran D P fd c argument h g" if "\<not> connected g'"
    using assms that unfolding ran_def by (auto 4 4 simp: sends_all_def)
  ultimately show ?thesis
    unfolding same by (auto simp: wp_Some intro!: wp_mono [OF send_reply_replies])
qed

lemma run_command_ran: "wp (run_command D P fd c argument owned h) (\<lambda>_ h'. ran D P fd c argument h h')"
proof -
  have exe: "wp (execute_command D P c argument L g) (\<lambda>r g'. execute_command D P c argument L g = Some (r, g'))" for L g
    by (simp add: wp_def split: option.splits)
  have start: "prepared c h ((CEnv (ESetConnected True), a) # h)"
    "prepared c h ((CEnv (ESetConnected True), a) # (CEnv (ESetActive (commandName c)), b) # h)" for a b
    by (auto simp: prepared_def)
  have cleared: "(CEnv EClearActive, a) # g = g \<or> (\<exists>b. (CEnv EClearActive, a) # g = (CEnv EClearActive, b) # g)" for a g
    by blast
  show ?thesis
  proof (cases owned)
    case True
    then show ?thesis
      unfolding run_command_def
      by (auto simp only: if_True wp_bind wp_sys wp_Some prod.case
          intro!: wp_mono [OF exe] wp_mono [OF ran_reply [OF _ start(2) cleared]] ran_env)
  next
    case False
    then show ?thesis
      unfolding run_command_def
      by (auto simp only: if_False wp_bind wp_sys wp_Some prod.case
          intro!: wp_mono [OF exe] ran_reply [OF _ start(1)])
  qed
qed

text \<open>A query logs nothing: what is sent is the reply alone, and the result that of the command run directly.\<close>

lemma ran_query:
  assumes "c \<in> {Status, Bypass, GetSetting}" and "ran D P fd c argument h h'"
  shows "\<exists>r g g'. prepared c h g \<and> execute_command D P c argument (Some (printLog D)) g = Some (r, g') \<and> replied fd r h h'"
proof -
  obtain r g g' where run: "prepared c h g" "execute_command D P c argument (client_logger D fd c) g = Some (r, g')"
    "if connected g' then replied fd r g' h' else sends_all fd [] g' h'" using assms(2) unfolding ran_def by blast
  have local: "execute_command D P c argument (Some (printLog D)) g = Some (r, g')"
    using run(2) assms(1) by (auto simp: execute_command_def)
  have "wp (execute_command D P c argument (Some (printLog D)) g) (\<lambda>_. emits (\<lambda>e. looks (fst e)) g)"
    using assms(1) queries_look [THEN emits_gwp] by (auto simp: execute_command_def)
  from wpD [OF this local] have look: "emits (\<lambda>e. looks (fst e)) g g'" .
  have same: "sent fd g' = sent fd h" "connected g'" and longer: "extends h g'"
    using looks_sends_nothing [OF look] run(1) look by (auto simp: prepared_def emits_def extends_def)
  have "replied fd r h h'"
    using run(3) same write_failed_extends(2) [OF longer]
    by (auto simp: replied_def delivered_def sends_all_def sends_some_def split: if_splits)
  with run(1) local show ?thesis by blast
qed

lemma run_command_returns:
  assumes "ticking D" "output_bounded D N" "signals_bounded D B"
  shows "returns (run_command D P fd c argument owned h)"
proof -
  have reply: "returns (send_reply D fd r g)" for r g
    unfolding send_reply_def sendError_def
    by (auto simp: returns_bind sendIpcFrame_returns [OF assms(3)] intro!: wpI split: sum.splits)
  show ?thesis
    unfolding run_command_def
    by (auto simp: returns_bind reply execute_returns [OF assms(1,2) client_logger_quiet [OF assms(3)] assms(3)] intro!: wpI)
qed

lemma run_command_twp:
  assumes "ticking D" "output_bounded D N" "signals_bounded D B"
  shows "twp (run_command D P fd c argument owned h) (\<lambda>_ h'. ran D P fd c argument h h' \<and>
     (if c \<in> {Status, Bypass, GetSetting} then \<exists>r g g'. prepared c h g \<and>
        execute_command D P c argument (Some (printLog D)) g = Some (r, g') \<and> replied fd r h h' else True))"
  by (rule twpI [OF run_command_returns [OF assms]], rule wp_mono [OF run_command_ran]) (use ran_query in auto)

lemma logger_sends:
  assumes "signals_bounded D B"
  shows "twp (the (client_logger D fd c) l m h) (\<lambda>_ h'. if \<not> connected h then h' = h
     else if connected h' then sends_all fd (wire (log_frames l m)) h h'
     else sends_some fd (wire (log_frames l m)) h h' \<and> write_failed fd h h')"
proof (rule twpI)
  show "returns (the (client_logger D fd c) l m h)"
    using client_logger_quiet [OF assms, of fd c] by (simp add: quiet_logger_def client_logger_def)
  have send: "wp (send_log D fd l m g) (\<lambda>_ h'.
     if connected h' then sends_all fd (wire (log_frames l m)) h h'
     else sends_some fd (wire (log_frames l m)) h h' \<and> write_failed fd h h')"
    if "connected h" "g = h \<or> (\<exists>t a. g = (CEnv (ESetActive t), a) # h)" for g l
  proof (rule wp_mono [OF send_log_sends])
    show "connected g" using that by auto
    have "extends h g" using that(2) by auto
    then show "if connected h' then sends_all fd (wire (log_frames l m)) h h'
       else sends_some fd (wire (log_frames l m)) h h' \<and> write_failed fd h h'"
      if "if connected h' then sends_all fd (wire (log_frames l m)) g h'
       else sends_some fd (wire (log_frames l m)) g h' \<and> write_failed fd g h'" for h'
      using that \<open>g = h \<or> _\<close> write_failed_extends(2) by (auto split: if_splits)
  qed
  show "wp (the (client_logger D fd c) l m h) (\<lambda>_ h'. if \<not> connected h then h' = h
     else if connected h' then sends_all fd (wire (log_frames l m)) h h'
     else sends_some fd (wire (log_frames l m)) h h' \<and> write_failed fd h h')"
    by (cases "connected h"; cases "isMutating c"; cases "l = Progress")
      (simp_all add: client_logger_def wp_bind wp_sys wp_Some send [unfolded if_bool_eq_conj])
qed

section \<open>What the client makes of it\<close>

text \<open>The text on the standard error output.\<close>

fun told :: "hist \<Rightarrow> string" where
  "told [] = []"
| "told (e # h) = told h @ (case fst e of CEnv (EStderr t) \<Rightarrow> t | _ \<Rightarrow> [])"

definition shown :: "log_level \<times> string \<Rightarrow> string" where
  "shown lm = (case lm of (l, m) \<Rightarrow>
     if l = Progress then m else (if l = Warning then ''warning: '' else []) @ m @ [nl])"

text \<open>The result as it arrives: an error message is cut at 64 KiB.\<close>

definition transported :: "string result \<Rightarrow> string result" where
  "transported r = (case r of Inr t \<Rightarrow> Inr t
     | Inl e \<Rightarrow> failure (err_code e) (take kIpcMaximumPayload (err_message e)))"

lemma printLog_shows:
  "twp (printLog S l m h) (\<lambda>_ h'. told h' = told h @ shown (l, m) \<and> received fd h' = received fd h)"
  unfolding printLog_def by (cases l) (simp_all add: sys_def twp_def shown_def)

lemma log_level_of_num: "log_level_of (word_of_nat (log_num l)) = l"
  by (cases l) (simp_all add: log_level_of_def)

lemma log_num_fits: "\<not> word_of_nat (log_num Progress) < (word_of_nat (log_num l) :: u32)"
  by (cases l) simp_all

lemma error_code_of_num: "error_code_of (word_of_nat (error_num c)) = c"
  by (cases c) (simp_all add: error_code_of_def)

lemma error_num_fits:
  "word_of_nat (error_num Generic) \<le> (word_of_nat (error_num c) :: u32)"
  "(word_of_nat (error_num c) :: u32) \<le> word_of_nat (error_num StateError)"
  by (cases c; simp)+

lemmas error_num_bounds = error_num_fits [unfolded error_num.simps of_nat_1 of_nat_numeral]

lemma remote_outcome_reply: "remote_outcome (reply_frame r) = transported r"
  using error_num_bounds
  by (cases r) (simp_all add: remote_outcome_def reply_frame_def transported_def error_frame_def error_code_of_num)

lemma receiveIpcFrame_tells:
  "wp (receiveIpcFrame S fd h) (\<lambda>_ h'. told h' = told h)"
proof (rule wp_mono [OF receiveIpcFrame_receives [THEN emits_gwp]])
  fix h' assume "emits (\<lambda>e. receiving (fst e)) h h'"
  then obtain es where es: "h' = es @ h" "list_all (\<lambda>e. receiving (fst e)) es" by (auto simp: emits_def)
  have "told (e # g) = told g" if "receiving (fst e)" for e g
    using that by (cases "fst e" rule: receiving.cases) simp_all
  with es(2) have "told (es @ h) = told h" by (induction es) simp_all
  with es(1) show "told h' = told h" by simp
qed

lemma remote_loop_reads:
  assumes "signals_bounded S B" and "stream_in S fd bs"
    and "bs = received fd h @ wire (map (\<lambda>(l, m). log_frame l m) ls @ [reply_frame r]) @ tail_bytes"
    and "\<forall>(l, m) \<in> set ls. length m \<le> kIpcMaximumPayload" and "wf_frame (reply_frame r)"
  shows "twp (remote_loop S fd h) (\<lambda>res h'. res = transported r \<and>
     told h' = told h @ concat (map shown ls) \<and> (\<exists>a g. h' = (CClose fd, a) # g))"
  using assms(3,4)
proof (induction ls arbitrary: h)
  case Nil
  have "bs = received fd h @ frame_bytes (reply_frame r) @ tail_bytes" using Nil by (simp add: wire_def)
  from twpD [OF receiveIpcFrame_twp [OF assms(1,2) this assms(5)]] obtain h1 where
    h1: "receiveIpcFrame S fd h = Some (Inr (reply_frame r), h1)" by auto
  have t: "told h1 = told h" using wpD [OF receiveIpcFrame_tells h1] .
  have "frame_type (reply_frame r) \<noteq> FrameLog" by (cases r) (simp_all add: reply_frame_def error_frame_def)
  with h1 t show ?case
    by (subst remote_loop.simps) (simp add: sys_def twp_def remote_outcome_reply)
next
  case (Cons lm ls)
  obtain l m where lm: "lm = (l, m)" by (cases lm)
  have fit: "wf_frame (log_frame l m)" using Cons(3) by (simp add: lm wf_frame_def log_frame_def)
  have "bs = received fd h @ frame_bytes (log_frame l m) @ wire (map (\<lambda>(l, m). log_frame l m) ls @ [reply_frame r]) @ tail_bytes"
    using Cons(2) by (simp add: wire_def lm)
  note bs = this
  from twpD [OF receiveIpcFrame_twp [OF assms(1,2) bs fit]] obtain h1 where
    h1: "receiveIpcFrame S fd h = Some (Inr (log_frame l m), h1)" "received fd h1 = received fd h @ frame_bytes (log_frame l m)"
    by auto
  have t: "told h1 = told h" using wpD [OF receiveIpcFrame_tells h1(1)] .
  from twpD [OF printLog_shows [of S l m h1 fd]] obtain h2 where
    h2: "printLog S l m h1 = Some ((), h2)" "told h2 = told h1 @ shown (l, m)" "received fd h2 = received fd h1" by auto
  have "bs = received fd h2 @ wire (map (\<lambda>(l, m). log_frame l m) ls @ [reply_frame r]) @ tail_bytes"
    using bs h1(2) h2(3) by simp
  from Cons(1) [OF this] Cons(3) have rec: "twp (remote_loop S fd h2) (\<lambda>res h'. res = transported r \<and>
     told h' = told h2 @ concat (map shown ls) \<and> (\<exists>a g. h' = (CClose fd, a) # g))" by simp
  have "remote_loop S fd h = remote_loop S fd h2"
    using h1(1) h2(1) log_num_fits [of l]
    by (subst remote_loop.simps) (simp add: log_frame_def log_level_of_num)
  with rec t h2(2) show ?case by (simp add: lm)
qed

text \<open>The log as it arrives: long messages in pieces, empty ones not at all.\<close>

definition cut_log :: "(log_level \<times> string) list \<Rightarrow> (log_level \<times> string) list" where
  "cut_log ms = concat (map (\<lambda>(l, m). map (Pair l) (pieces m)) ms)"

definition brief :: "(log_level \<times> string) list \<Rightarrow> string result \<Rightarrow> bool" where
  "brief ms r \<longleftrightarrow> (\<forall>(l, m) \<in> set ms. m \<noteq> [] \<and> length m \<le> kIpcMaximumPayload) \<and>
     (case r of Inl e \<Rightarrow> length (err_message e) \<le> kIpcMaximumPayload | Inr t \<Rightarrow> True)"

lemma conversation_cut: "conversation ms r = map (\<lambda>(l, m). log_frame l m) (cut_log ms) @ [reply_frame r]"
  unfolding conversation_def cut_log_def log_frames_def by (induction ms) (auto simp: o_def)

lemma cut_short: "(l, m) \<in> set (cut_log ms) \<Longrightarrow> length m \<le> kIpcMaximumPayload"
  unfolding cut_log_def by (auto dest: pieces_size)

lemma brief_unchanged:
  assumes "brief ms r"
  shows "cut_log ms = ms" and "transported r = r"
proof -
  show "transported r = r" using assms by (cases r) (simp_all add: brief_def transported_def makeError_def)
  have "\<forall>(l, m) \<in> set ms. m \<noteq> [] \<and> length m \<le> kIpcMaximumPayload" using assms by (simp add: brief_def)
  then show "cut_log ms = ms" unfolding cut_log_def by (induction ms) (auto simp: pieces_short)
qed

lemma executeRemote_reads:
  assumes "connectControlSocket C (control_socket P) h = Some (Inr fd, h1)"
    and "sendIpcFrame C fd \<lparr>frame_type = FrameRequest, frame_code = encodeCommand c, frame_payload = argument\<rparr> h1
      = Some (Inr (), h2)"
    and "signals_bounded C B" and "stream_in C fd (received fd h2 @ wire (conversation ms r))"
    and "wf_frame (reply_frame r)"
  shows "twp (executeRemote C P c argument h) (\<lambda>res h'. res = transported r \<and>
     told h' = told h2 @ concat (map shown (cut_log ms)) \<and> (\<exists>a g. h' = (CClose fd, a) # g))"
proof -
  have "executeRemote C P c argument h = remote_loop C fd h2"
    using assms(1,2) by (simp add: executeRemote_def)
  moreover have "\<forall>(l, m) \<in> set (cut_log ms). length m \<le> kIpcMaximumPayload" using cut_short by blast
  ultimately show ?thesis
    using remote_loop_reads [OF assms(3,4), of h2 "cut_log ms" r "[]"] assms(5) by (simp add: conversation_cut)
qed

text \<open>Where the daemon closes the connection without a reply, the client reports an error.\<close>

lemma executeRemote_no_reply:
  assumes "connectControlSocket C (control_socket P) h = Some (Inr fd, h1)"
    and "sendIpcFrame C fd \<lparr>frame_type = FrameRequest, frame_code = encodeCommand c, frame_payload = argument\<rparr> h1
      = Some (Inr (), h2)"
    and "r_ret (answer C h2 (CRecv fd 4)) = 0"
  shows "twp (executeRemote C P c argument h) (\<lambda>res h'.
     res = failure StateError ''control connection read failed: connection closed'' \<and> (\<exists>a g. h' = (CClose fd, a) # g))"
proof -
  have loop: "executeRemote C P c argument h = remote_loop C fd h2"
    using assms(1,2) by (simp add: executeRemote_def)
  have recv: "receiveIpcFrame C fd h2 =
      Some (failure StateError ''control connection read failed: connection closed'', (CRecv fd 4, answer C h2 (CRecv fd 4)) # h2)"
    unfolding receiveIpcFrame_def by (subst receiveAll.simps) (simp add: sys_def assms(3))
  show ?thesis unfolding loop by (subst remote_loop.simps) (simp add: recv sys_def twp_def)
qed

section \<open>Properties\<close>

text \<open>C40: Asking the daemon is as good as running the command. The worker runs \<open>execute_command\<close> and sends the
  reply frame of just the result it returned: all bytes of the frame, unless a write on the connection
  failed or the client was found gone; a result above 64 KiB is not sent at all. For a query the
  result is that of the command run directly, and the reply is all that is sent. Each message that is
  logged is sent whole, in frames of at most 64 KiB, unless a write failed, and after that nothing
  more is. From the frames of any log and reply, delivered in pieces of any size, the client returns
  the result, prints the log in order, and closes the connection last: the very result and log if no
  message is empty or above 64 KiB (longer error messages are cut, longer log messages come in pieces,
  empty ones not at all). Where the connection is closed before a reply, it returns an error. Both
  sides always return, the daemon where the clock goes on and the output of the processes it starts
  and the number of signals are bounded.\<close>

theorem remote_is_local:
  assumes "connectControlSocket C (control_socket P) h = Some (Inr fd, h1)"
    and "sendIpcFrame C fd \<lparr>frame_type = FrameRequest, frame_code = encodeCommand c, frame_payload = argument\<rparr> h1
      = Some (Inr (), h2)"
    and "signals_bounded C B" and "ticking D" and "output_bounded D N" and "signals_bounded D B'"
  shows "twp (run_command D P d c argument owned k) (\<lambda>_ k'. ran D P d c argument k k' \<and>
       (if c \<in> {Status, Bypass, GetSetting} then \<exists>r g g'. prepared c k g \<and>
          execute_command D P c argument (Some (printLog D)) g = Some (r, g') \<and> replied d r k k' else True)) \<and>
     twp (the (client_logger D d c) l m k) (\<lambda>_ k'. if \<not> connected k then k' = k
       else if connected k' then sends_all d (wire (log_frames l m)) k k'
       else sends_some d (wire (log_frames l m)) k k' \<and> write_failed d k k') \<and>
     (if stream_in C fd (received fd h2 @ wire (conversation ms r)) \<and> wf_frame (reply_frame r)
      then twp (executeRemote C P c argument h) (\<lambda>res h'. res = transported r \<and>
        told h' = told h2 @ concat (map shown (cut_log ms)) \<and> (\<exists>a g. h' = (CClose fd, a) # g))
      else if r_ret (answer C h2 (CRecv fd 4)) = 0
      then twp (executeRemote C P c argument h) (\<lambda>res h'. (\<exists>m. res = failure StateError m) \<and> (\<exists>a g. h' = (CClose fd, a) # g))
      else True) \<and>
     (if brief ms r then cut_log ms = ms \<and> transported r = r else True)"
proof -
  have lost: "twp (executeRemote C P c argument h) (\<lambda>res h'. (\<exists>m. res = failure StateError m) \<and> (\<exists>a g. h' = (CClose fd, a) # g))"
    if "r_ret (answer C h2 (CRecv fd 4)) = 0"
    using executeRemote_no_reply [OF assms(1,2) that] by (auto simp: twp_def split: option.splits)
  show ?thesis
    using run_command_twp [OF assms(4-6)] logger_sends [OF assms(6)] executeRemote_reads [OF assms(1-3), of ms r] lost
      brief_unchanged by simp
qed

text \<open>A daemon that answers \<open>bs\<close>, one byte at a time.\<close>

definition talk_answer :: "string \<Rightarrow> hist \<Rightarrow> call \<Rightarrow> resp" where
  "talk_answer bs h c =
     (case c of CWrite fd d \<Rightarrow> done_resp (int (length d)) [] | _ \<Rightarrow> stream_answer bs h c)"

definition talk_os :: "string \<Rightarrow> os" where
  "talk_os bs = (file_os empty_vfs)\<lparr>answer := talk_answer bs\<rparr>"

lemma talk_os_signals: "signals_bounded (talk_os bs) 0"
  by (auto simp: signals_bounded_def talk_os_def talk_answer_def stream_answer_def done_resp_def Let_def
      split: call.splits)

lemma talk_os_stream: "stream_in (talk_os bs) fd bs"
  by (auto simp: stream_in_def talk_os_def talk_answer_def stream_answer_def done_resp_def Let_def neq_Nil_conv)

lemma talk_sends: "\<exists>k. sendAll (talk_os bs) fd d h = Some (Inr (), k) \<and> received fd k = received fd h \<and> told k = told h"
  by (cases "d = []"; subst sendAll.simps; subst sendAll.simps)
    (simp_all add: sys_def talk_os_def talk_answer_def done_resp_def)

definition off_log :: "(log_level \<times> string) list" where
  "off_log = [(Info, ''stopping''), (Warning, ''slow'')]"

definition off_answer :: string where
  "off_answer = wire (conversation off_log (Inr ''OFF''))"

definition off_connected :: hist where
  "off_connected = snd (the (connectControlSocket (talk_os off_answer) (control_socket default_paths) []))"

definition off_asked :: hist where
  "off_asked = snd (the (sendIpcFrame (talk_os off_answer) 0
     \<lparr>frame_type = FrameRequest, frame_code = encodeCommand Off, frame_payload = []\<rparr> off_connected))"

lemma off_connects:
  "connectControlSocket (talk_os off_answer) (control_socket default_paths) [] = Some (Inr 0, off_connected) \<and>
   received 0 off_connected = [] \<and> told off_connected = []"
proof -
  have path: "control_socket default_paths = ''/run/tunproxy/control.sock''" by code_simp
  have socket: "talk_answer bs h (CNet c) = done_resp 0 []" for bs h c
    by (simp add: talk_answer_def stream_answer_def)
  have "\<exists>k. connectControlSocket (talk_os off_answer) (control_socket default_paths) [] = Some (Inr 0, k) \<and>
      received 0 k = [] \<and> told k = []"
    unfolding path by (simp add: connectControlSocket_def sys_def talk_os_def socket done_resp_def)
  then show ?thesis unfolding off_connected_def by auto
qed

lemma off_asks:
  "sendIpcFrame (talk_os off_answer) 0
     \<lparr>frame_type = FrameRequest, frame_code = encodeCommand Off, frame_payload = []\<rparr> off_connected = Some (Inr (), off_asked) \<and>
   received 0 off_asked = [] \<and> told off_asked = []"
proof -
  obtain k1 where k1: "sendAll (talk_os off_answer) 0 (htonl_bytes (word_of_nat kFrameMetadataSize)) off_connected = Some (Inr (), k1)"
    "received 0 k1 = [] \<and> told k1 = []" using talk_sends off_connects by metis
  obtain k2 where k2: "sendAll (talk_os off_answer) 0 (byte_text (frame_type_num FrameRequest)) k1 = Some (Inr (), k2)"
    "received 0 k2 = [] \<and> told k2 = []" using talk_sends k1(2) by metis
  obtain k3 where k3: "sendAll (talk_os off_answer) 0 (htonl_bytes (encodeCommand Off)) k2 = Some (Inr (), k3)"
    "received 0 k3 = [] \<and> told k3 = []" using talk_sends k2(2) by metis
  have "sendIpcFrame (talk_os off_answer) 0
     \<lparr>frame_type = FrameRequest, frame_code = encodeCommand Off, frame_payload = []\<rparr> off_connected = Some (Inr (), k3)"
    using k1(1) k2(1) k3(1) by (simp add: sendIpcFrame_def kFrameMetadataSize_def kIpcMaximumPayload_def)
  with k3(2) show ?thesis by (simp add: off_asked_def)
qed

theorem remote_is_local_witness:
  "twp (run_command helper_os default_paths 7 Off [] True []) (\<lambda>_ k'. ran helper_os default_paths 7 Off [] [] k') \<and>
   twp (executeRemote (talk_os off_answer) default_paths Off [] []) (\<lambda>res h'. res = Inr ''OFF'' \<and>
     told h' = ''stopping'' @ [nl] @ ''warning: slow'' @ [nl] \<and> (\<exists>a g. h' = (CClose 0, a) # g))"
proof -
  have stream: "stream_in (talk_os off_answer) 0 (received 0 off_asked @ wire (conversation off_log (Inr ''OFF'')))"
    using talk_os_stream [of off_answer 0] off_asks by (simp add: off_answer_def)
  have reply: "wf_frame (reply_frame (Inr ''OFF''))" by (simp add: wf_frame_def reply_frame_def kIpcMaximumPayload_def)
  have short: "brief off_log (Inr ''OFF'')" by (simp add: brief_def off_log_def kIpcMaximumPayload_def)
  have log: "concat (map shown off_log) = ''stopping'' @ [nl] @ ''warning: slow'' @ [nl]"
    by (simp add: off_log_def shown_def)
  note whole = remote_is_local [OF conjunct1 [OF off_connects] conjunct1 [OF off_asks] talk_os_signals helper_os_ticking
      helper_os_output helper_os_signals]
  have worker: "twp (run_command helper_os default_paths 7 Off [] True []) (\<lambda>_ k'. ran helper_os default_paths 7 Off [] [] k')"
    using whole [where d = 7 and owned = True and k = "[]", THEN conjunct1] by (auto simp: twp_def split: option.splits)
  have asked: "twp (executeRemote (talk_os off_answer) default_paths Off [] []) (\<lambda>res h'. res = transported (Inr ''OFF'') \<and>
     told h' = told off_asked @ concat (map shown (cut_log off_log)) \<and> (\<exists>a g. h' = (CClose 0, a) # g))"
    using whole [where ms = off_log and r = "Inr ''OFF''", THEN conjunct2, THEN conjunct2, THEN conjunct1]
      stream reply by simp
  show ?thesis
    using worker asked unfolding brief_unchanged [OF short] log conjunct2 [OF conjunct2 [OF off_asks]]
    by simp
qed

end
