(* ===== verification/Spec2Isabelle.thy ===== *)
theory Spec2Isabelle
  imports Threads Client
begin

text \<open>
  A verification library of TunProxy, the program that sends the traffic of a Linux host through a
  SOCKS5 upstream by means of a managed \<^verbatim>\<open>sing-box\<close> core and a TUN interface.

  The program. The client (\<^verbatim>\<open>src/main.cpp\<close>) sends a command over a local socket to the daemon
  (\<^verbatim>\<open>src/daemon_main.cpp\<close>), which asks the kernel who the peer is, admits root and the members of the
  administrators' group (\<^verbatim>\<open>src/authorization.cpp\<close>), and serves each client in a thread of its own, in
  the frames of \<^verbatim>\<open>src/ipc.cpp\<close>. The controller (\<^verbatim>\<open>src/controller.cpp\<close>) runs the six commands, the
  changing ones under a lock on a file. The proxy manager (\<^verbatim>\<open>src/proxy_manager.cpp\<close>) starts and stops
  the core: it has the core manager (\<^verbatim>\<open>src/core_manager.cpp\<close>) verify or download the pinned release,
  the upstream tested (\<^verbatim>\<open>src/upstream.cpp\<close>), the addresses to leave alone collected
  (\<^verbatim>\<open>src/bypass_policy.cpp\<close>) and the configuration of the core written (\<^verbatim>\<open>src/singbox_config.cpp\<close>),
  and keeps in the runtime state (\<^verbatim>\<open>src/runtime_state.cpp\<close>) which process is the core. Below these lie
  the settings (\<^verbatim>\<open>src/config.cpp\<close>), files (\<^verbatim>\<open>src/filesystem.cpp\<close>) and helper processes
  (\<^verbatim>\<open>src/process.cpp\<close>).

  The model. A routine is a function of the history of system calls made so far, newest first, and
  gives its value and the longer history, or \<open>None\<close> where it does not come to an end (\<open>OsModel\<close>). The
  operating system is an argument: a function that answers a call from the history, so every sequence
  of answers is covered, and what a routine relies on is a named hypothesis on that function (fresh
  descriptors and process ids, a clock that moves, finitely many interrupting signals, finitely much
  output of a helper, files that read as they were written). Calls of other threads and processes
  show in the answers. \<open>wp\<close>, \<open>twp\<close> and \<open>gwp\<close> are the rules: partial and total correctness, and
  \<open>guarded\<close>, which says of every single call that it was allowed at its instant. Loops that may not
  end are \<open>partial_function (option)\<close>; that they return is proved apart, so no theorem relies on a run
  that never ends. Integers have their width where it matters (\<^verbatim>\<open>uint32_t\<close> and \<^verbatim>\<open>uint16_t\<close> are words),
  file modes are written in decimal.

  The theories, each named after what it models.
  \<open>Prelude\<close>: errors and results (\<^verbatim>\<open>result.hpp\<close>), general lemmas on lists and maps.
  \<open>CxxString\<close>: the functions of \<^verbatim>\<open>std::string\<close>, number texts, and their lemmas.
  \<open>OsModel\<close>: calls, answers, histories, the correctness rules.
  \<open>Filesystem\<close>, \<open>Paths\<close>: files and the fixed paths and numbers. Replacing a file is atomic at every
  instant and durable on success; directories are created through no symbolic link.
  \<open>Codec\<close>: laws of an encoder and a decoder of settings and state files.
  \<open>Config\<close>: the upstream, its URI and its file; both forms read back.
  \<open>InetAddr\<close>, \<open>BypassPolicy\<close>: addresses as bytes, CIDR blocks as sets of addresses; merging keeps
  exactly the union.
  \<open>Ipc\<close>: commands and frames; a frame arrives intact through partial reads and writes.
  \<open>RuntimeState\<close>: state file, process identity, the file lock.
  \<open>Process\<close>: \<open>runCapture\<close> leaves neither descriptors nor children, and its child drops its
  capabilities before it executes anything.
  \<open>Upstream\<close>: an address is used only after its SOCKS5 greeting.
  \<open>Authorization\<close>: the check decides membership in the user database.
  \<open>SingBoxConfig\<close>: a JSON reader, and that the generated text reads back as the intended document.
  \<open>CoreManager\<close>: only a file whose checksum was just seen is executed or installed.
  \<open>ProxyManager\<close>: start, both attempts, supervision, termination, stop and status; what is forked and
  signalled is guarded, a stop is bounded and truthful.
  \<open>Controller\<close>: the commands; changes happen only under the lock, queries only look.
  \<open>Daemon\<close>: socket, accept loop, worker, shutdown, each thread as one run.
  \<open>Listener\<close>: who gets a worker, over any number of rounds of the accept loop, and when the socket
  is opened.
  \<open>Protocol\<close>: what it means that a run follows an automaton, and the laws both kinds of threads share.
  \<open>Workers\<close>: the automaton of a worker over the calls that the threads share; every run of a worker
  ends and follows it.
  \<open>Threads\<close>: the automaton of the main thread, which every run of it follows, and the state that the
  threads share as a step relation over the automata, one call at a time; its invariant (one holder of
  the operation mutex, the right count of clients, cleaning up last) and the way to its end are proved
  over all reachable states.
  \<open>Client\<close>: the command line, and that asking the daemon gives the result and the log of the command.

  Interfaces. \<open>text_codec\<close> and \<open>text_store\<close> (a text form and a file that read back; interpreted on the
  upstream's URI, the settings and the runtime state), \<open>address_codec\<close> (what is relied on of
  \<^verbatim>\<open>inet_pton\<close> and \<^verbatim>\<open>inet_ntop\<close>; interpreted on a reference implementation), \<open>denotation\<close> (containment
  that is inclusion of what is denoted; interpreted on CIDR blocks), \<open>thread_protocol\<close> (calls that do
  not concern other threads; interpreted on the worker and on the main thread).

  Bounds and fuel. No model has fuel of its own; \<open>accept_rounds\<close> follows the accept loop for any number
  of rounds, and a run of the loop is one of those. Counted loops of the code (polls of 100 ms within
  fixed limits) are recursions on that count. Proofs that a loop returns go by the number of signals,
  of bytes, or of clock readings that are left.

  Not modelled. \<^verbatim>\<open>version.hpp.in\<close> is filled in by the build: the version text is an argument. Header
  files with declarations only have no definitions of their own. The code of \<^verbatim>\<open>sing-box\<close>, \<^verbatim>\<open>curl\<close>,
  \<^verbatim>\<open>tar\<close> and \<^verbatim>\<open>sha256sum\<close>, \<^verbatim>\<open>inet_pton\<close>, \<^verbatim>\<open>inet_ntop\<close>, \<^verbatim>\<open>getaddrinfo\<close> and the user database are
  answered by the operating system or parameters of it. Exhaustion of memory and the exceptions it
  raises are not modelled, nor is the memory model of the threads: a shared variable is reached by one
  atomic call, as the mutexes of the code make it. The notification of the condition variable is part of
  the call that counts a client off.
\<close>

end
